(* ===== verification/Prelude.thy ===== *)
theory Prelude
  imports Main "HOL-Library.Word" "HOL-Library.Signed_Division"
begin

text \<open>
  What every component shares: the machine types of the i386 target, the flat byte memory the
  kernel runs in, little-endian loads and stores, address ranges, the status codes of
  \<^verbatim>\<open>src/src/status.h\<close> and the constants of \<^verbatim>\<open>src/src/config.h\<close>, with the lemmas on them that
  the component theories use through the collections declared here.

  The kernel runs in one address space of \<open>2 ^ 32\<close> bytes with no bounds checks: a store through
  a wild pointer changes some other byte. The memory is therefore a total function from 32-bit
  addresses to bytes, and address arithmetic wraps around, so an access out of the range of an
  array is a value of the model and not an error of it.
\<close>

unbundle bit_operations_syntax

section \<open>Types\<close>

type_synonym u8 = "8 word"
type_synonym u16 = "16 word"
type_synonym u32 = "32 word"
type_synonym ptr = "32 word"
type_synonym mem = "32 word \<Rightarrow> 8 word"

named_theorems mem_simps \<open>reading back what a store wrote, and frames\<close>
named_theorems range_simps \<open>membership in address ranges\<close>

section \<open>Address ranges\<close>

text \<open>
  The \<open>n\<close> bytes from address \<open>p\<close>, possibly wrapping around the top of memory: an address is in
  the range if its distance from \<open>p\<close> is below \<open>n\<close>.
\<close>

definition in_range :: "ptr \<Rightarrow> nat \<Rightarrow> ptr \<Rightarrow> bool" where
  "in_range p n a \<longleftrightarrow> unat (a - p) < n"

text \<open>Two ranges are disjoint if one of them is empty or neither holds the start of the other.\<close>

definition disj_range :: "ptr \<Rightarrow> nat \<Rightarrow> ptr \<Rightarrow> nat \<Rightarrow> bool" where
  "disj_range p n q k \<longleftrightarrow> n = 0 \<or> k = 0 \<or> (n \<le> unat (q - p) \<and> k \<le> unat (p - q))"

lemma unat_diff_u32: "unat (a - b :: u32) = (if unat b \<le> unat a then unat a - unat b
    else 4294967296 + unat a - unat b)"
  by (auto simp: unat_sub_if')

lemma unat_lt_u32: "unat (a :: u32) < 4294967296"
  using unsigned_less [of a, where 'a = nat] by simp

lemma unat_Suc_u32: "i < k \<Longrightarrow> unat (i + 1) = Suc (unat i)" for i k :: u32
  using unat_lt_u32 [of k] by (simp add: word_less_nat_alt unat_word_ariths)

lemma sint_inject: "sint a = sint b \<longleftrightarrow> a = b" for a b :: "'a::len word"
  by (auto dest: signed_word_eqI)

lemma in_range_zero [range_simps]: "\<not> in_range p 0 a"
  by (simp add: in_range_def)

lemma in_range_start: "0 < n \<Longrightarrow> in_range p n p"
  by (simp add: in_range_def)

lemma in_range_mono: "in_range p n a \<Longrightarrow> n \<le> k \<Longrightarrow> in_range p k a"
  by (simp add: in_range_def)

lemma in_range_all: "in_range p 4294967296 a"
  using unat_lt_u32 [of "a - p"] by (simp add: in_range_def)

lemma disj_range_sym: "disj_range p n q k \<longleftrightarrow> disj_range q k p n"
  by (auto simp: disj_range_def)

lemma disj_rangeD:
  assumes "disj_range p n q k" and "in_range p n a"
  shows "\<not> in_range q k a"
proof
  assume "in_range q k a"
  with assms have "unat (a - q) < k" "unat (a - p) < n" "n \<le> unat (q - p)" "k \<le> unat (p - q)"
    by (auto simp: in_range_def disj_range_def)
  then show False
    using unat_lt_u32 [of a] unat_lt_u32 [of p] unat_lt_u32 [of q]
    by (auto simp: unat_diff_u32 split: if_splits)
qed

lemma disj_rangeD2: "disj_range p n q k \<Longrightarrow> in_range q k a \<Longrightarrow> \<not> in_range p n a"
  using disj_rangeD disj_range_sym by blast

lemma disj_rangeI:
  assumes "\<And>a. in_range p n a \<Longrightarrow> in_range q k a \<Longrightarrow> False"
  shows "disj_range p n q k"
  using assms [of p] assms [of q]
  by (cases "n = 0 \<or> k = 0") (auto simp: disj_range_def in_range_def not_less [symmetric])

lemma disj_range_mono:
  "disj_range p n q k \<Longrightarrow> n' \<le> n \<Longrightarrow> k' \<le> k \<Longrightarrow> disj_range p n' q k'"
  by (auto simp: disj_range_def)

lemma in_range_offset:
  assumes "in_range p n q" and "unat (q - p) + k \<le> n" and "in_range q k a" and "n \<le> 4294967296"
  shows "in_range p n a"
  using assms unat_lt_u32 [of a] unat_lt_u32 [of p] unat_lt_u32 [of q]
  by (auto simp: in_range_def unat_diff_u32 split: if_splits)

lemma in_range_of_nat:
  "i < n \<Longrightarrow> n \<le> 4294967296 \<Longrightarrow> in_range p n (p + of_nat i)"
  by (simp add: in_range_def unat_of_nat)

lemma in_range_exE:
  assumes "in_range p n a"
  obtains i where "i < n" and "a = p + of_nat i"
proof
  show "unat (a - p) < n" using assms by (simp add: in_range_def)
  show "a = p + of_nat (unat (a - p))" by simp
qed

lemma div_eq_bounds: "0 < b \<Longrightarrow> d div b = i \<longleftrightarrow> b * i \<le> d \<and> d < b * Suc i" for b d i :: nat
  using dividend_less_times_div [of b d] by (auto intro: div_nat_eqI)

text \<open>Page and block arithmetic: the \<open>i\<close>-th block of \<open>b\<close> bytes from \<open>p\<close>.\<close>

lemma in_range_block:
  assumes "b * Suc i \<le> 4294967296" and "0 < b"
  shows "in_range (p + of_nat (b * i)) b a \<longleftrightarrow> unat (a - p) div b = i"
proof -
  let ?d = "unat (a - p)"
  have bi: "b * i < 4294967296" using assms by simp
  have u: "unat (of_nat (b * i) :: u32) = b * i"
    using bi by (simp add: unat_of_nat del: of_nat_mult)
  have "unat (a - (p + of_nat (b * i))) = unat ((a - p) - of_nat (b * i))"
    by (simp add: algebra_simps)
  also have "\<dots> = (if b * i \<le> ?d then ?d - b * i else 4294967296 + ?d - b * i)"
    using u unat_diff_u32 [of "a - p" "of_nat (b * i)"] by simp
  finally have *: "unat (a - (p + of_nat (b * i))) =
      (if b * i \<le> ?d then ?d - b * i else 4294967296 + ?d - b * i)" .
  show ?thesis
  proof (cases "b * i \<le> ?d")
    case True
    then have "?d - b * i < b \<longleftrightarrow> ?d div b = i"
      using div_eq_bounds [OF assms(2), of ?d i] by (simp add: less_diff_conv2)
    with True * show ?thesis by (simp add: in_range_def)
  next
    case False
    then have "\<not> 4294967296 + ?d - b * i < b" using assms(1) by simp
    moreover have "?d div b \<noteq> i"
      using False div_eq_bounds [OF assms(2), of ?d i] by auto
    ultimately show ?thesis using False * by (simp add: in_range_def)
  qed
qed

section \<open>Little-endian loads and stores\<close>

text \<open>Unaligned 16- and 32-bit accesses of the i386, as the compiled field accesses use them.\<close>

definition load16 :: "mem \<Rightarrow> ptr \<Rightarrow> u16" where
  "load16 m p = ucast (m p) OR push_bit 8 (ucast (m (p + 1)))"

definition store16 :: "mem \<Rightarrow> ptr \<Rightarrow> u16 \<Rightarrow> mem" where
  "store16 m p v = m(p := ucast v, p + 1 := ucast (drop_bit 8 v))"

definition load32 :: "mem \<Rightarrow> ptr \<Rightarrow> u32" where
  "load32 m p = ucast (m p) OR push_bit 8 (ucast (m (p + 1)))
     OR push_bit 16 (ucast (m (p + 2))) OR push_bit 24 (ucast (m (p + 3)))"

definition store32 :: "mem \<Rightarrow> ptr \<Rightarrow> u32 \<Rightarrow> mem" where
  "store32 m p v = m(p := ucast v, p + 1 := ucast (drop_bit 8 v),
     p + 2 := ucast (drop_bit 16 v), p + 3 := ucast (drop_bit 24 v))"

lemma in_range_4: "in_range p 4 a \<longleftrightarrow> a = p \<or> a = p + 1 \<or> a = p + 2 \<or> a = p + 3"
proof
  assume "in_range p 4 a"
  then obtain i where "i < 4" "a = p + of_nat i" by (rule in_range_exE)
  moreover from \<open>i < 4\<close> have "i = 0 \<or> i = 1 \<or> i = 2 \<or> i = 3" by arith
  ultimately show "a = p \<or> a = p + 1 \<or> a = p + 2 \<or> a = p + 3" by auto
qed (auto simp: in_range_def)

lemma in_range_2: "in_range p 2 a \<longleftrightarrow> a = p \<or> a = p + 1"
proof
  assume "in_range p 2 a"
  then obtain i where "i < 2" "a = p + of_nat i" by (rule in_range_exE)
  moreover from \<open>i < 2\<close> have "i = 0 \<or> i = 1" by arith
  ultimately show "a = p \<or> a = p + 1" by auto
qed (auto simp: in_range_def)

lemma store32_other [mem_simps]: "\<not> in_range p 4 a \<Longrightarrow> store32 m p v a = m a"
  by (auto simp: store32_def in_range_4)

lemma store16_other [mem_simps]: "\<not> in_range p 2 a \<Longrightarrow> store16 m p v a = m a"
  by (auto simp: store16_def in_range_2)

lemma bytes_of_u32:
  "ucast (ucast v :: u8) OR push_bit 8 (ucast (ucast (drop_bit 8 v) :: u8))
     OR push_bit 16 (ucast (ucast (drop_bit 16 v) :: u8))
     OR push_bit 24 (ucast (ucast (drop_bit 24 v) :: u8)) = (v :: u32)"
proof (rule bit_word_eqI)
  fix n assume n: "n < LENGTH(32)"
  then consider "n < 8" | "8 \<le> n" "n < 16" | "16 \<le> n" "n < 24" | "24 \<le> n" "n < 32" by force
  then show "bit (ucast (ucast v :: u8) OR push_bit 8 (ucast (ucast (drop_bit 8 v) :: u8))
     OR push_bit 16 (ucast (ucast (drop_bit 16 v) :: u8))
     OR push_bit 24 (ucast (ucast (drop_bit 24 v) :: u8)) :: u32) n = bit v n"
    by cases (auto simp: bit_simps)
qed

lemma bytes_of_u16: "ucast (ucast v :: u8) OR push_bit 8 (ucast (ucast (drop_bit 8 v) :: u8)) = (v :: u16)"
proof (rule bit_word_eqI)
  fix n assume n: "n < LENGTH(16)"
  then consider "n < 8" | "8 \<le> n" "n < 16" by force
  then show "bit (ucast (ucast v :: u8) OR push_bit 8 (ucast (ucast (drop_bit 8 v) :: u8)) :: u16) n
      = bit v n"
    by cases (auto simp: bit_simps)
qed

lemma load32_store32 [mem_simps]: "load32 (store32 m p v) p = v"
  by (simp add: load32_def store32_def bytes_of_u32)

lemma load16_store16 [mem_simps]: "load16 (store16 m p v) p = v"
  by (simp add: load16_def store16_def bytes_of_u16)

lemma load32_cong: "(\<And>a. in_range p 4 a \<Longrightarrow> m a = m' a) \<Longrightarrow> load32 m p = load32 m' p"
  by (simp add: load32_def in_range_4)

lemma load16_cong: "(\<And>a. in_range p 2 a \<Longrightarrow> m a = m' a) \<Longrightarrow> load16 m p = load16 m' p"
  by (simp add: load16_def in_range_2)

lemma load32_store32_disj [mem_simps]:
  "disj_range p 4 q 4 \<Longrightarrow> load32 (store32 m p v) q = load32 m q"
  by (rule load32_cong) (auto dest: disj_rangeD2 simp: mem_simps)

text \<open>Words of an array of 32-bit entries: distinct indices do not overlap.\<close>

lemma word_index_disj:
  assumes "i < 1073741824" and "j < 1073741824" and "i \<noteq> j"
  shows "disj_range (p + of_nat (4 * i)) 4 (p + of_nat (4 * j)) 4"
proof -
  have ui: "unat (of_nat (4 * i) :: u32) = 4 * i" and uj: "unat (of_nat (4 * j) :: u32) = 4 * j"
    using assms by (simp_all add: unat_of_nat del: of_nat_mult)
  have "unat ((p + of_nat (4 * j)) - (p + of_nat (4 * i))) = unat (of_nat (4 * j) - of_nat (4 * i) :: u32)"
    "unat ((p + of_nat (4 * i)) - (p + of_nat (4 * j))) = unat (of_nat (4 * i) - of_nat (4 * j) :: u32)"
    by (simp_all add: algebra_simps)
  then show ?thesis
    using assms ui uj unat_diff_u32 [of "of_nat (4 * i)" "of_nat (4 * j)"]
      unat_diff_u32 [of "of_nat (4 * j)" "of_nat (4 * i)"]
    by (auto simp: disj_range_def simp del: of_nat_mult)
qed

section \<open>Status codes and configuration\<close>

text \<open>\<^verbatim>\<open>src/src/status.h\<close>: functions return a C \<^verbatim>\<open>int\<close>, zero or a non-negative value on
  success and the negated code on failure.\<close>

abbreviation (input) OK :: int where "OK \<equiv> 0"
abbreviation (input) EIO :: int where "EIO \<equiv> 1"
abbreviation (input) EINVARG :: int where "EINVARG \<equiv> 2"
abbreviation (input) ENOMEM :: int where "ENOMEM \<equiv> 3"
abbreviation (input) EBADPATH :: int where "EBADPATH \<equiv> 4"
abbreviation (input) EFSNOTUS :: int where "EFSNOTUS \<equiv> 5"
abbreviation (input) ERDONLY :: int where "ERDONLY \<equiv> 6"
abbreviation (input) EUNIMP :: int where "EUNIMP \<equiv> 7"
abbreviation (input) EISTKN :: int where "EISTKN \<equiv> 8"
abbreviation (input) EINFORMAT :: int where "EINFORMAT \<equiv> 9"

text \<open>\<^verbatim>\<open>src/src/config.h\<close> and the sizes of \<^verbatim>\<open>paging.h\<close>, at whatever numeric type they are used.\<close>

abbreviation (input) LIEBE_OS_HEAP_SIZE_BYTES :: "'a::numeral" where "LIEBE_OS_HEAP_SIZE_BYTES \<equiv> 104857600"
abbreviation (input) LIEBE_OS_HEAP_BLOCK_SIZE :: "'a::numeral" where "LIEBE_OS_HEAP_BLOCK_SIZE \<equiv> 4096"
abbreviation (input) LIEBE_OS_HEAP_ADDRESS :: ptr where "LIEBE_OS_HEAP_ADDRESS \<equiv> 0x01000000"
abbreviation (input) LIEBE_OS_HEAP_TABLE_ADDRESS :: ptr where "LIEBE_OS_HEAP_TABLE_ADDRESS \<equiv> 0x00007E00"
abbreviation (input) LIEBE_OS_SECTOR_SIZE :: "'a::numeral" where "LIEBE_OS_SECTOR_SIZE \<equiv> 512"
abbreviation (input) LIEBE_OS_MAX_PATH_LEN :: "'a::numeral" where "LIEBE_OS_MAX_PATH_LEN \<equiv> 108"
abbreviation (input) TABLE_ENTRIES_COUNT :: "'a::numeral" where "TABLE_ENTRIES_COUNT \<equiv> 1024"
abbreviation (input) PAGE_SIZE :: "'a::numeral" where "PAGE_SIZE \<equiv> 4096"

text \<open>Reading a 32-bit pattern as the C \<^verbatim>\<open>int\<close> it is cast to, and back.\<close>

abbreviation (input) c_int :: "u32 \<Rightarrow> int" where "c_int w \<equiv> sint w"
abbreviation (input) c_uint :: "int \<Rightarrow> u32" where "c_uint i \<equiv> word_of_int i"

lemma c_int_small: "unat w < 2147483648 \<Longrightarrow> c_int w = int (unat w)"
proof -
  assume "unat w < 2147483648"
  then have "int (unat w) < int 2147483648" by (simp only: of_nat_less_iff)
  then have "uint w < 2147483648" by (simp only: uint_nat of_nat_numeral)
  then have "(uint w + 2147483648) mod 4294967296 = uint w + 2147483648" by simp
  then have "sint (word_of_int (uint w) :: u32) = uint w" unfolding int_word_sint by simp
  then show ?thesis by simp
qed

lemma uint_zero [simp]: "uint a = 0 \<longleftrightarrow> a = 0" for a :: "'a::len word"
  by (rule uint_0_iff)

lemma uint_inject [simp]: "uint a = uint b \<longleftrightarrow> a = b" for a b :: "'a::len word"
  by (simp add: word_uint_eq_iff)

lemma unat_lt_u8: "unat (a :: u8) < 256"
  using unsigned_less [of a, where 'a = nat] by simp

lemma unat_ucast_u8 [simp]: "unat (ucast (g :: u8) :: u32) = unat g"
  using unat_lt_u8 [of g] by (simp add: unsigned_ucast_eq take_bit_eq_mod)

lemma unat_of_nat_u32: "n < 4294967296 \<Longrightarrow> unat (of_nat n :: u32) = n"
  by (simp add: unat_of_nat)

lemma c_int_of_nat: "n < 2147483648 \<Longrightarrow> c_int (of_nat n) = int n"
  using c_int_small [of "of_nat n"] unat_of_nat_u32 [of n] by (simp del: of_nat_unat)

text \<open>Fields of structures: words at constant offsets that do not overlap.\<close>

lemma field_disj:
  assumes "i + 4 \<le> j \<or> j + 4 \<le> i" and "i < 16384" and "j < 16384"
  shows "disj_range (p + of_nat i) 4 (p + of_nat j) 4"
proof -
  have u: "unat (of_nat i :: u32) = i" "unat (of_nat j :: u32) = j"
    using assms by (simp_all add: unat_of_nat_u32)
  show ?thesis
    using assms unat_diff_u32 [of "of_nat i" "of_nat j"] unat_diff_u32 [of "of_nat j" "of_nat i"]
    unfolding u by (auto simp: disj_range_def)
qed

lemma load_store_field [mem_simps]:
  "numeral a < (16384 :: nat) \<Longrightarrow> numeral b < (16384 :: nat) \<Longrightarrow>
    numeral a + 4 \<le> (numeral b :: nat) \<or> numeral b + 4 \<le> (numeral a :: nat) \<Longrightarrow>
    load32 (store32 m (p + numeral a) v) (p + numeral b) = load32 m (p + numeral b)"
  "4 \<le> (numeral b :: nat) \<Longrightarrow> numeral b < (16384 :: nat) \<Longrightarrow>
    load32 (store32 m p v) (p + numeral b) = load32 m (p + numeral b)"
  "4 \<le> (numeral a :: nat) \<Longrightarrow> numeral a < (16384 :: nat) \<Longrightarrow>
    load32 (store32 m (p + numeral a) v) p = load32 m p"
  using field_disj [of "numeral a" "numeral b" p] field_disj [of 0 "numeral b" p]
    field_disj [of "numeral a" 0 p] by (auto intro!: load32_store32_disj)

end
