(* ===== verification/Memory.thy ===== *)
theory Memory
  imports Prelude
begin

text \<open>
  \<^verbatim>\<open>src/src/memory/memory.c\<close>: \<^verbatim>\<open>memset\<close>, \<^verbatim>\<open>memcmp\<close> and \<^verbatim>\<open>memcpy\<close> on the flat memory. The loops are
  the source's; the lemmas describe the memory they leave at every address, wrap-around included.
\<close>

section \<open>memset\<close>

text \<open>
  \<^verbatim>\<open>for (int i = 0; i < size; i++) c_ptr[i] = (char)c;\<close> with \<^verbatim>\<open>size_t size\<close>: the comparison is
  unsigned, so the index is a 32-bit word.
\<close>

function memset_loop :: "mem \<Rightarrow> ptr \<Rightarrow> u8 \<Rightarrow> u32 \<Rightarrow> u32 \<Rightarrow> mem" where
  "memset_loop m c_ptr c i sz =
     (if i < sz then memset_loop (m(c_ptr + i := c)) c_ptr c (i + 1) sz else m)"
  by pat_completeness auto
termination
  by (relation "measure (\<lambda>(m, p, c, i, sz). unat sz - unat i)")
    (auto simp: unat_Suc_u32 word_less_nat_alt intro!: diff_less_mono2)

declare memset_loop.simps [simp del]

definition memset :: "mem \<Rightarrow> ptr \<Rightarrow> u32 \<Rightarrow> u32 \<Rightarrow> ptr \<times> mem" where
  "memset m ptr c sz = (ptr, memset_loop m ptr (ucast c) 0 sz)"

lemma memset_loop_apply:
  "memset_loop m p c i sz a =
     (if unat i \<le> unat (a - p) \<and> unat (a - p) < unat sz then c else m a)"
proof (induction m p c i sz rule: memset_loop.induct)
  case (1 m p c i sz)
  show ?case
  proof (cases "i < sz")
    case True
    then have u: "unat (i + 1) = Suc (unat i)" by (rule unat_Suc_u32)
    have eq: "a = p + i \<longleftrightarrow> unat (a - p) = unat i"
      by (metis add.commute diff_add_cancel add_diff_cancel_left' word_unat_eq_iff)
    show ?thesis
      using True "1.IH" [OF True] u eq
      by (subst memset_loop.simps) (auto simp: word_less_nat_alt fun_upd_def)
  next
    case False
    then show ?thesis by (subst memset_loop.simps) (auto simp: word_less_nat_alt)
  qed
qed

lemma memset_apply [mem_simps]:
  "snd (memset m p c sz) a = (if in_range p (unat sz) a then ucast c else m a)"
  by (simp add: memset_def memset_loop_apply in_range_def)

lemma fst_memset [simp]: "fst (memset m p c sz) = p"
  by (simp add: memset_def)

section \<open>memcmp\<close>

text \<open>
  \<^verbatim>\<open>while (count-- > 0) if (*c1++ != *c2++) return c1[-1] < c2[-1] ? -1 : 1;\<close> with \<^verbatim>\<open>char *\<close>
  pointers, which are signed on this target. A negative count compares nothing.
\<close>

fun memcmp_loop :: "mem \<Rightarrow> ptr \<Rightarrow> ptr \<Rightarrow> nat \<Rightarrow> int" where
  "memcmp_loop m c1 c2 0 = 0"
| "memcmp_loop m c1 c2 (Suc count) =
     (if m c1 \<noteq> m c2 then (if sint (m c1) < sint (m c2) then - 1 else 1)
      else memcmp_loop m (c1 + 1) (c2 + 1) count)"

definition memcmp :: "mem \<Rightarrow> ptr \<Rightarrow> ptr \<Rightarrow> int \<Rightarrow> int" where
  "memcmp m s1 s2 count = memcmp_loop m s1 s2 (nat count)"

lemma memcmp_loop_zero:
  "memcmp_loop m p q n = 0 \<longleftrightarrow> (\<forall>i<n. m (p + of_nat i) = m (q + of_nat i))"
proof (induction m p q n rule: memcmp_loop.induct)
  case (1 m c1 c2)
  then show ?case by simp
next
  case (2 m c1 c2 n)
  have "(\<forall>i<Suc n. m (c1 + of_nat i) = m (c2 + of_nat i)) \<longleftrightarrow>
      m c1 = m c2 \<and> (\<forall>i<n. m ((c1 + 1) + of_nat i) = m ((c2 + 1) + of_nat i))"
    by (auto simp: less_Suc_eq_0_disj algebra_simps)
  with 2 show ?case by simp
qed

lemma memcmp_loop_range: "memcmp_loop m p q n \<in> {- 1, 0, 1}"
  by (induction m p q n rule: memcmp_loop.induct) auto

text \<open>The comparison is antisymmetric: swapping the buffers negates the result.\<close>

lemma memcmp_loop_swap: "memcmp_loop m q p n = - memcmp_loop m p q n"
proof (induction m p q n rule: memcmp_loop.induct)
  case (2 m c1 c2 n)
  then show ?case by (cases "m c1 = m c2") (simp_all, metis not_less_iff_gr_or_eq sint_inject)
qed simp

section \<open>memcpy\<close>

text \<open>
  \<^verbatim>\<open>while (len--) *d++ = *s++;\<close>: the loop stops when \<^verbatim>\<open>len\<close> is zero, so a negative \<^verbatim>\<open>len\<close> copies
  the number of bytes that its 32-bit pattern reads as. Bytes move one at a time, upwards.
\<close>

fun memcpy_loop :: "mem \<Rightarrow> ptr \<Rightarrow> ptr \<Rightarrow> nat \<Rightarrow> mem" where
  "memcpy_loop m d s 0 = m"
| "memcpy_loop m d s (Suc len) = memcpy_loop (m(d := m s)) (d + 1) (s + 1) len"

definition memcpy :: "mem \<Rightarrow> ptr \<Rightarrow> ptr \<Rightarrow> int \<Rightarrow> ptr \<times> mem" where
  "memcpy m dest src len = (dest, memcpy_loop m dest src (unat (c_uint len)))"

lemma unat_diff_Suc: "a \<noteq> p \<Longrightarrow> unat (a - (p + 1)) = unat (a - p) - 1" for a p :: u32
proof -
  assume "a \<noteq> p"
  then have "a - p \<noteq> 0" by simp
  then have "unat (a - p - 1) = unat (a - p) - 1" by (simp add: unat_minus_one)
  then show ?thesis by (simp add: algebra_simps)
qed

lemma in_range_Suc: "in_range p (Suc n) a \<longleftrightarrow> a = p \<or> (in_range (p + 1) n a \<and> unat (a - p) \<noteq> 0)"
proof (cases "a = p")
  case False
  then have "unat (a - p) \<noteq> 0" by (simp add: unat_eq_zero)
  then show ?thesis using False unat_diff_Suc [OF False] by (auto simp: in_range_def)
qed (simp add: in_range_def)

lemma memcpy_loop_other: "\<not> in_range d n a \<Longrightarrow> n \<le> 4294967296 \<Longrightarrow> memcpy_loop m d s n a = m a"
proof (induction m d s n rule: memcpy_loop.induct)
  case (2 m d s n)
  then have "a \<noteq> d" by (auto simp: in_range_Suc)
  then have "\<not> in_range (d + 1) n a"
    using 2(2) by (auto simp: in_range_Suc unat_eq_zero)
  with 2 \<open>a \<noteq> d\<close> show ?case by (simp add: fun_upd_def)
qed simp

lemma memcpy_loop_copy:
  assumes "n \<le> 4294967296" and "disj_range d n s n" and "i < n"
  shows "memcpy_loop m d s n (d + of_nat i) = m (s + of_nat i)"
  using assms
proof (induction m d s n arbitrary: i rule: memcpy_loop.induct)
  case (1 m d s)
  then show ?case by simp
next
  case (2 m d s n)
  show ?case
  proof (cases i)
    case 0
    have "unat (d - (d + 1)) = 4294967295" 
      by (simp add: unsigned_minus_1_eq_mask mask_eq_exp_minus_1)
    then have "\<not> in_range (d + 1) n d" using "2.prems"(1) by (simp add: in_range_def)
    then show ?thesis using 0 "2.prems"(1) by (simp add: memcpy_loop_other)
  next
    case (Suc j)
    have dn: "disj_range (d + 1) n (s + 1) n"
      using "2.prems"(2) by (auto simp: disj_range_def)
    have "in_range s (Suc n) (s + of_nat i)"
      using "2.prems"(1,3) by (intro in_range_of_nat) auto
    then have "\<not> in_range d (Suc n) (s + of_nat i)"
      using "2.prems"(2) disj_rangeD2 by blast
    then have ne: "s + of_nat i \<noteq> d" using in_range_start by blast
    have "memcpy_loop (m(d := m s)) (d + 1) (s + 1) n ((d + 1) + of_nat j)
        = (m(d := m s)) ((s + 1) + of_nat j)"
      using "2.IH" [OF _ dn, of j] "2.prems"(1,3) Suc by (simp add: fun_upd_def)
    then show ?thesis using Suc ne by (simp add: algebra_simps)
  qed
qed

lemma fst_memcpy [simp]: "fst (memcpy m d s len) = d"
  by (simp add: memcpy_def)

lemma memcpy_apply:
  assumes "0 \<le> len" and "len < 4294967296" and "disj_range dest (nat len) src (nat len)"
  shows "snd (memcpy m dest src len) a =
    (if in_range dest (nat len) a then m (src + (a - dest)) else m a)"
proof -
  have u: "unat (c_uint len) = nat len"
    using assms(1,2) by (simp add: unat_eq_nat_uint uint_word_of_int_eq take_bit_int_eq_self)
  show ?thesis
  proof (cases "in_range dest (nat len) a")
    case True
    then obtain i where "i < nat len" "a = dest + of_nat i" by (rule in_range_exE)
    then show ?thesis
      using True assms u by (simp add: memcpy_def memcpy_loop_copy)
  next
    case False
    then show ?thesis using u assms by (simp add: memcpy_def memcpy_loop_other)
  qed
qed

end
