(* ===== verification/Heap.thy ===== *)
theory Heap
  imports Memory
begin

text \<open>
  \<^verbatim>\<open>src/src/memory/heap/heap.c\<close> and \<^verbatim>\<open>heap.h\<close>: the block allocator. One table byte per block of 4096
  bytes says whether the block is taken, is the first of its run, and has a next block. The table
  lives in the flat memory, at the address the \<^verbatim>\<open>struct heap_table\<close> names, so a write past its end
  lands in whatever is there. The second half states what the table represents, a finite map from
  the first block of each run to its length, and shows that the operations implement it.
\<close>

section \<open>Data\<close>

abbreviation (input) HEAP_BLOCK_TABLE_ENTRY_TAKEN :: u8 where "HEAP_BLOCK_TABLE_ENTRY_TAKEN \<equiv> 1"
abbreviation (input) HEAP_BLOCK_TABLE_ENTRY_FREE :: u8 where "HEAP_BLOCK_TABLE_ENTRY_FREE \<equiv> 0"
abbreviation (input) HEAP_BLOCK_IS_FIRST :: u8 where "HEAP_BLOCK_IS_FIRST \<equiv> 0x80"
abbreviation (input) HEAP_BLOCK_HAS_NEXT :: u8 where "HEAP_BLOCK_HAS_NEXT \<equiv> 0x40"

record heap_table =
  ht_entries :: ptr
  ht_total :: u32

record heap =
  hp_table :: heap_table
  hp_saddr :: ptr

abbreviation hp_entries :: "heap \<Rightarrow> ptr" where "hp_entries h \<equiv> ht_entries (hp_table h)"
abbreviation hp_total :: "heap \<Rightarrow> nat" where "hp_total h \<equiv> unat (ht_total (hp_table h))"

section \<open>Operations\<close>

definition heap_validate_table :: "ptr \<Rightarrow> ptr \<Rightarrow> heap_table \<Rightarrow> int" where
  "heap_validate_table p end_p table =
     (let table_size = end_p - p;
          total_blocks = table_size div LIEBE_OS_HEAP_BLOCK_SIZE
      in if ht_total table \<noteq> total_blocks then - EINVARG else 0)"

definition heap_validate_alignment :: "ptr \<Rightarrow> bool" where
  "heap_validate_alignment p \<longleftrightarrow> p mod LIEBE_OS_HEAP_BLOCK_SIZE = 0"

definition heap_create :: "heap \<Rightarrow> ptr \<Rightarrow> ptr \<Rightarrow> heap_table \<Rightarrow> mem \<Rightarrow> int \<times> heap \<times> mem" where
  "heap_create h p end_p table m =
     (if \<not> heap_validate_alignment p \<or> \<not> heap_validate_alignment end_p then (- EINVARG, h, m)
      else
        let h = h\<lparr>hp_table := table, hp_saddr := p\<rparr>;
            res = heap_validate_table p end_p table
        in if res < 0 then (res, h, m)
           else (res, h, snd (memset m (ht_entries table)
                   (ucast HEAP_BLOCK_TABLE_ENTRY_FREE) (1 * ht_total table))))"

definition heap_align_value_to_upper :: "u32 \<Rightarrow> u32" where
  "heap_align_value_to_upper v =
     (if v mod LIEBE_OS_HEAP_BLOCK_SIZE = 0 then v
      else (v - v mod LIEBE_OS_HEAP_BLOCK_SIZE) + LIEBE_OS_HEAP_BLOCK_SIZE)"

text \<open>
  The scan for a starting block: \<^verbatim>\<open>block_count\<close> is an \<^verbatim>\<open>int\<close> compared with an unsigned count, hence a
  word; \<^verbatim>\<open>block_start\<close> is the \<^verbatim>\<open>int\<close> the function returns. Leaving the loop at its end returns the
  current \<^verbatim>\<open>block_start\<close>, however short the run it starts is.
\<close>

function heap_get_start_block_loop ::
    "mem \<Rightarrow> heap_table \<Rightarrow> u32 \<Rightarrow> u32 \<Rightarrow> u32 \<Rightarrow> int \<Rightarrow> int" where
  "heap_get_start_block_loop m table total_blocks i block_count block_start =
     (if i < ht_total table then
        (if m (ht_entries table + i) AND HEAP_BLOCK_TABLE_ENTRY_TAKEN \<noteq> 0
         then heap_get_start_block_loop m table total_blocks (i + 1) 0 (- 1)
         else
           (let block_start' = (if block_start = - 1 then c_int i else block_start);
                block_count' = block_count + 1
            in if block_count' = total_blocks then block_start'
               else heap_get_start_block_loop m table total_blocks (i + 1) block_count' block_start'))
      else block_start)"
  by pat_completeness auto
termination
  by (relation "measure (\<lambda>(m, t, tb, i, bc, bs). unat (ht_total t) - unat i)")
    (auto simp: unat_Suc_u32 word_less_nat_alt intro!: diff_less_mono2)

declare heap_get_start_block_loop.simps [simp del]

definition heap_get_start_block :: "heap \<Rightarrow> u32 \<Rightarrow> mem \<Rightarrow> int" where
  "heap_get_start_block h total_blocks m =
     (let block_start = heap_get_start_block_loop m (hp_table h) total_blocks 0 0 (- 1)
      in if block_start = - 1 then - ENOMEM else block_start)"

definition heap_block_to_address :: "heap \<Rightarrow> int \<Rightarrow> ptr" where
  "heap_block_to_address h block = hp_saddr h + c_uint (block * LIEBE_OS_HEAP_BLOCK_SIZE)"

definition heap_address_to_block :: "heap \<Rightarrow> ptr \<Rightarrow> int" where
  "heap_address_to_block h address = c_int (address - hp_saddr h) sdiv LIEBE_OS_HEAP_BLOCK_SIZE"

function heap_mark_blocks_taken_loop ::
    "mem \<Rightarrow> heap_table \<Rightarrow> int \<Rightarrow> int \<Rightarrow> u8 \<Rightarrow> mem" where
  "heap_mark_blocks_taken_loop m table i end_block entry =
     (if i \<le> end_block then
        heap_mark_blocks_taken_loop (m(ht_entries table + c_uint i := entry)) table (i + 1) end_block
          (if i \<noteq> end_block - 1 then HEAP_BLOCK_TABLE_ENTRY_TAKEN OR HEAP_BLOCK_HAS_NEXT
           else HEAP_BLOCK_TABLE_ENTRY_TAKEN)
      else m)"
  by pat_completeness auto
termination
  by (relation "measure (\<lambda>(m, t, i, e, x). nat (e + 1 - i))") auto

declare heap_mark_blocks_taken_loop.simps [simp del]

definition heap_mark_blocks_taken :: "heap \<Rightarrow> int \<Rightarrow> int \<Rightarrow> mem \<Rightarrow> mem" where
  "heap_mark_blocks_taken h start_block total_blocks m =
     (let end_block = (start_block + total_blocks) - 1;
          entry = HEAP_BLOCK_TABLE_ENTRY_TAKEN OR HEAP_BLOCK_IS_FIRST;
          entry = (if total_blocks > 1 then entry OR HEAP_BLOCK_HAS_NEXT else entry)
      in heap_mark_blocks_taken_loop m (hp_table h) start_block end_block entry)"

definition heap_malloc_blocks :: "heap \<Rightarrow> u32 \<Rightarrow> mem \<Rightarrow> ptr \<times> mem" where
  "heap_malloc_blocks h total_blocks m =
     (let start_block = heap_get_start_block h total_blocks m
      in if start_block < 0 then (0, m)
         else (heap_block_to_address h start_block,
               heap_mark_blocks_taken h start_block (c_int total_blocks) m))"

function heap_mark_blocks_free_loop :: "mem \<Rightarrow> heap_table \<Rightarrow> int \<Rightarrow> mem" where
  "heap_mark_blocks_free_loop m table i =
     (if i < c_int (ht_total table) then
        (let entry = m (ht_entries table + c_uint i);
             m' = m(ht_entries table + c_uint i := HEAP_BLOCK_TABLE_ENTRY_FREE)
         in if entry AND HEAP_BLOCK_HAS_NEXT = 0 then m'
            else heap_mark_blocks_free_loop m' table (i + 1))
      else m)"
  by pat_completeness auto
termination
  by (relation "measure (\<lambda>(m, t, i). nat (c_int (ht_total t) - i))") auto

declare heap_mark_blocks_free_loop.simps [simp del]

definition heap_mark_blocks_free :: "heap \<Rightarrow> int \<Rightarrow> mem \<Rightarrow> mem" where
  "heap_mark_blocks_free h starting_block m =
     heap_mark_blocks_free_loop m (hp_table h) starting_block"

definition heap_malloc :: "heap \<Rightarrow> u32 \<Rightarrow> mem \<Rightarrow> ptr \<times> mem" where
  "heap_malloc h sz m =
     (let aligned_size = heap_align_value_to_upper sz;
          total_blocks = aligned_size div LIEBE_OS_HEAP_BLOCK_SIZE
      in heap_malloc_blocks h total_blocks m)"

definition heap_free :: "heap \<Rightarrow> ptr \<Rightarrow> mem \<Rightarrow> mem" where
  "heap_free h p m = heap_mark_blocks_free h (heap_address_to_block h p) m"

section \<open>What the table represents\<close>

definition blk :: "heap \<Rightarrow> mem \<Rightarrow> nat \<Rightarrow> u8" where
  "blk h m i = m (hp_entries h + of_nat i)"

definition taken :: "heap \<Rightarrow> mem \<Rightarrow> nat \<Rightarrow> bool" where
  "taken h m i \<longleftrightarrow> blk h m i AND HEAP_BLOCK_TABLE_ENTRY_TAKEN \<noteq> 0"

definition block_addr :: "heap \<Rightarrow> nat \<Rightarrow> ptr" where
  "block_addr h s = hp_saddr h + of_nat (4096 * s)"

text \<open>The entry of the \<open>k\<close>-th block of a run of \<open>n\<close> blocks.\<close>

definition run_byte :: "nat \<Rightarrow> nat \<Rightarrow> u8" where
  "run_byte n k = (HEAP_BLOCK_TABLE_ENTRY_TAKEN OR (if k = 0 then HEAP_BLOCK_IS_FIRST else 0))
     OR (if k + 1 < n then HEAP_BLOCK_HAS_NEXT else 0)"

definition free_run :: "heap \<Rightarrow> mem \<Rightarrow> nat \<Rightarrow> nat \<Rightarrow> bool" where
  "free_run h m s n \<longleftrightarrow> s + n \<le> hp_total h \<and> (\<forall>i. s \<le> i \<and> i < s + n \<longrightarrow> \<not> taken h m i)"

text \<open>
  The heaps the kernel can build: the pool starts at a page and does not wrap around and is not at address zero, its
  size is below \<open>2 ^ 31\<close> (the code goes through \<^verbatim>\<open>int\<close>), and the table is not inside the pool.
\<close>

definition wf_heap :: "heap \<Rightarrow> bool" where
  "wf_heap h \<longleftrightarrow> heap_validate_alignment (hp_saddr h) \<and> 0 < unat (hp_saddr h) \<and> unat (hp_saddr h) + 4096 * hp_total h \<le> 4294967296
     \<and> hp_total h < 524288 \<and> disj_range (hp_entries h) (hp_total h) (hp_saddr h) (4096 * hp_total h)"

definition covered :: "(nat \<rightharpoonup> nat) \<Rightarrow> nat \<Rightarrow> bool" where
  "covered A i \<longleftrightarrow> (\<exists>s n. A s = Some n \<and> s \<le> i \<and> i < s + n)"

text \<open>
  The table represents the map \<open>A\<close> from first blocks to lengths: each run has the entries of a
  run, runs do not overlap, and every block in no run is marked free.
\<close>

definition heap_rep :: "heap \<Rightarrow> mem \<Rightarrow> (nat \<rightharpoonup> nat) \<Rightarrow> bool" where
  "heap_rep h m A \<longleftrightarrow> wf_heap h
     \<and> (\<forall>s n. A s = Some n \<longrightarrow> 0 < n \<and> s + n \<le> hp_total h \<and> (\<forall>k<n. blk h m (s + k) = run_byte n k))
     \<and> (\<forall>s n s' n'. A s = Some n \<longrightarrow> A s' = Some n' \<longrightarrow> s < s' \<longrightarrow> s + n \<le> s')
     \<and> (\<forall>i<hp_total h. \<not> covered A i \<longrightarrow> blk h m i = HEAP_BLOCK_TABLE_ENTRY_FREE)"

lemma run_byte_taken [simp]: "run_byte n k AND 1 = 1"
  by (simp add: run_byte_def bit_eq_iff bit_simps) auto

lemma run_byte_next: "run_byte n k AND 0x40 = 0 \<longleftrightarrow> \<not> k + 1 < n"
  by (simp add: run_byte_def)

lemma taken_covered:
  assumes "heap_rep h m A" and "i < hp_total h"
  shows "taken h m i \<longleftrightarrow> covered A i"
proof (cases "covered A i")
  case True
  then obtain s n where sn: "A s = Some n" "s \<le> i" "i < s + n" by (auto simp: covered_def)
  then have "\<forall>k<n. blk h m (s + k) = run_byte n k"
    using assms(1) unfolding heap_rep_def by blast
  then have "blk h m (s + (i - s)) = run_byte n (i - s)"
    by (rule allE [of _ "i - s"]) (use sn in auto)
  then show ?thesis using True sn by (simp add: taken_def)
next
  case False
  then show ?thesis using assms by (simp add: heap_rep_def taken_def)
qed

section \<open>The scan is first fit\<close>

text \<open>
  The state of the scan in front of block \<open>i\<close>: the last \<open>bc\<close> blocks are free, the block before
  them is not, and no earlier start fits.
\<close>

definition scan_inv :: "heap \<Rightarrow> mem \<Rightarrow> nat \<Rightarrow> nat \<Rightarrow> nat \<Rightarrow> bool" where
  "scan_inv h m n i bc \<longleftrightarrow> bc \<le> i \<and> bc < n \<and> (\<forall>j. i - bc \<le> j \<and> j < i \<longrightarrow> \<not> taken h m j)
     \<and> (i - bc = 0 \<or> taken h m (i - bc - 1)) \<and> (\<forall>s. s + n \<le> i \<longrightarrow> \<not> free_run h m s n)"

lemma scan_inv_taken:
  "scan_inv h m n i bc \<Longrightarrow> taken h m i \<Longrightarrow> scan_inv h m n (Suc i) 0"
  by (auto simp: scan_inv_def free_run_def le_Suc_eq)

lemma scan_inv_free:
  assumes "scan_inv h m n i bc" and "\<not> taken h m i" and "Suc bc \<noteq> n"
  shows "scan_inv h m n (Suc i) (Suc bc)"
proof -
  have "\<not> free_run h m s n" if "s + n \<le> Suc i" for s
  proof (cases "s + n \<le> i")
    case False
    then have "s + n = Suc i" "Suc bc < n" using that assms by (auto simp: scan_inv_def)
    then have "i - bc \<noteq> 0" "s \<le> i - bc - 1" "i - bc - 1 < s + n" by auto
    then show ?thesis using assms(1) by (auto simp: scan_inv_def free_run_def)
  qed (use assms in \<open>auto simp: scan_inv_def\<close>)
  then show ?thesis using assms by (auto simp: scan_inv_def less_Suc_eq)
qed

lemma scan_inv_found:
  assumes "scan_inv h m n i bc" and "\<not> taken h m i" and "Suc bc = n" and "i < hp_total h"
  shows "free_run h m (i - bc) n" and "s < i - bc \<Longrightarrow> \<not> free_run h m s n"
  using assms by (auto simp: scan_inv_def free_run_def less_Suc_eq)

definition scan_result :: "heap \<Rightarrow> mem \<Rightarrow> nat \<Rightarrow> int \<Rightarrow> bool" where
  "scan_result h m n r \<longleftrightarrow>
     (\<exists>s. r = int s \<and> free_run h m s n \<and> (\<forall>k < s. \<not> free_run h m k n))
   \<or> (\<forall>s. \<not> free_run h m s n) \<and>
       (r = - 1 \<and> (hp_total h = 0 \<or> taken h m (hp_total h - 1))
       \<or> (\<exists>b<hp_total h. r = int b \<and> free_run h m b (hp_total h - b) \<and> (b = 0 \<or> taken h m (b - 1))))"

lemma scan_end:
  assumes "scan_inv h m n (hp_total h) bc"
  shows "scan_result h m n (if bc = 0 then - 1 else int (hp_total h - bc))"
proof -
  have no: "\<not> free_run h m s n" for s
    using assms by (auto simp: scan_inv_def free_run_def)
  show ?thesis
  proof (cases "bc = 0")
    case True
    then show ?thesis using no assms by (auto simp: scan_result_def scan_inv_def)
  next
    case False
    let ?b = "hp_total h - bc"
    have "?b < hp_total h" "free_run h m ?b (hp_total h - ?b)" "?b = 0 \<or> taken h m (?b - 1)"
      using assms False by (auto simp: scan_inv_def free_run_def)
    then show ?thesis using no False unfolding scan_result_def by auto
  qed
qed

lemma scan_loop:
  assumes "scan_inv h m (unat tb) (unat i) (unat bc)" and "unat i \<le> hp_total h"
    and "bs = (if bc = 0 then - 1 else int (unat i - unat bc))" and "hp_total h < 2147483648"
  shows "scan_result h m (unat tb) (heap_get_start_block_loop m (hp_table h) tb i bc bs)"
  using assms
proof (induction m "hp_table h" tb i bc bs rule: heap_get_start_block_loop.induct)
  case (1 m tb i bc bs)
  let ?t = "hp_table h"
  have tk: "m (ht_entries ?t + i) AND 1 \<noteq> 0 \<longleftrightarrow> taken h m (unat i)"
    by (simp add: taken_def blk_def)
  show ?case
  proof (cases "i < ht_total ?t")
    case False
    then have i: "unat i = hp_total h" using "1.prems"(2) by (simp add: word_less_nat_alt)
    have "heap_get_start_block_loop m ?t tb i bc bs = bs"
      using False by (subst heap_get_start_block_loop.simps) simp
    then show ?thesis
      using scan_end [of h m "unat tb" "unat bc"] "1.prems"(1,3) i
      by (cases "bc = 0") (simp_all add: unat_eq_zero)
  next
    case True
    have su: "unat (i + 1) = Suc (unat i)" using True by (rule unat_Suc_u32)
    have le: "unat (i + 1) \<le> hp_total h" using True su by (simp add: word_less_nat_alt)
    show ?thesis
    proof (cases "taken h m (unat i)")
      case True': True
      have "scan_inv h m (unat tb) (unat (i + 1)) (unat (0 :: u32))"
        using scan_inv_taken [OF "1.prems"(1) True'] su by simp
      then show ?thesis
        using "1.hyps"(1) [OF True] "1.prems"(4) True True' tk le
        by (subst heap_get_start_block_loop.simps) simp
    next
      case False
      have bcn: "unat bc < unat tb" and bci: "unat bc \<le> unat i"
        using "1.prems"(1) by (auto simp: scan_inv_def)
      have sb: "unat (bc + 1) = Suc (unat bc)"
        using bcn by (intro unat_Suc_u32 [of bc tb]) (simp add: word_less_nat_alt)
      have ci: "c_int i = int (unat i)"
        using "1.prems"(4) True by (intro c_int_small) (simp add: word_less_nat_alt)
      let ?bs = "if bs = - 1 then c_int i else bs"
      have bs: "?bs = int (unat i - unat bc)"
        using "1.prems"(3) ci by (auto simp: unat_eq_zero)
      have eqtb: "bc + 1 = tb \<longleftrightarrow> Suc (unat bc) = unat tb"
        using sb by (metis word_unat_eq_iff)
      show ?thesis
      proof (cases "bc + 1 = tb")
        case True2: True
        then show ?thesis
          using scan_inv_found [OF "1.prems"(1) False] True eqtb bs tk False
          by (subst heap_get_start_block_loop.simps)
            (auto simp: scan_result_def Let_def word_less_nat_alt)
      next
        case False2: False
        have inv: "scan_inv h m (unat tb) (unat (i + 1)) (unat (bc + 1))"
          using scan_inv_free [OF "1.prems"(1) False] False2 eqtb sb su by simp
        have bs': "?bs = (if bc + 1 = 0 then - 1 else int (unat (i + 1) - unat (bc + 1)))"
          using sb su bs by (auto simp: unat_eq_zero [symmetric])
        have "scan_result h m (unat tb)
            (heap_get_start_block_loop m ?t tb (i + 1) (bc + 1) ?bs)"
          using "1.hyps"(2) [OF True _ refl refl False2 inv le bs' "1.prems"(4)] tk False by simp
        then show ?thesis
          using True False2 tk False by (subst heap_get_start_block_loop.simps) (simp add: Let_def)
      qed
    qed
  qed
qed

lemma heap_get_start_block_scan:
  assumes "0 < unat tb" and "hp_total h < 2147483648"
  shows "scan_result h m (unat tb) (heap_get_start_block_loop m (hp_table h) tb 0 0 (- 1))"
  using assms by (intro scan_loop) (auto simp: scan_inv_def free_run_def)

section \<open>Marking and unmarking a run\<close>

lemma in_range_peel:
  assumes "0 < n" "n \<le> 4294967296"
  shows "in_range p n a \<longleftrightarrow> a = p \<or> in_range (p + 1) (n - 1) a"
proof -
  obtain k where "n = Suc k" using assms(1) gr0_implies_Suc by blast
  moreover have "\<not> in_range (p + 1) k p" if "k \<le> 4294967295"
  proof -
    have "unat (p - (p + 1)) = 4294967295"
      by (simp add: unsigned_minus_1_eq_mask mask_eq_exp_minus_1)
    then show ?thesis using that by (simp add: in_range_def)
  qed
  ultimately show ?thesis
    using assms(2) by (auto simp: in_range_Suc unat_eq_zero)
qed

lemma in_range_one: "in_range p (Suc 0) a \<longleftrightarrow> a = p"
  using in_range_peel [of 1 p a] by (simp add: in_range_zero)

lemma mark_taken_loop:
  assumes "i + int d = e + 1" and "k + d = n" and "0 < d \<Longrightarrow> entry = run_byte n k"
    and "p = ht_entries t + c_uint i" and "d \<le> 4294967296"
  shows "heap_mark_blocks_taken_loop m t i e entry a =
    (if in_range p d a then run_byte n (k + unat (a - p)) else m a)"
  using assms
proof (induction d arbitrary: i k p m entry)
  case 0
  then show ?case by (subst heap_mark_blocks_taken_loop.simps) (simp add: in_range_zero)
next
  case (Suc d)
  let ?e = "if i \<noteq> e - 1 then 1 OR 0x40 else (1 :: u8)"
  have step: "heap_mark_blocks_taken_loop m t i e entry a =
      heap_mark_blocks_taken_loop (m(p := entry)) t (i + 1) e ?e a"
    using Suc.prems by (subst heap_mark_blocks_taken_loop.simps) simp
  have ent: "0 < d \<Longrightarrow> ?e = run_byte n (Suc k)"
    using Suc.prems(1,2) by (auto simp: run_byte_def)
  have "heap_mark_blocks_taken_loop (m(p := entry)) t (i + 1) e ?e a =
      (if in_range (p + 1) d a then run_byte n (Suc k + unat (a - (p + 1))) else (m(p := entry)) a)"
    using Suc.prems by (intro Suc.IH ent) auto
  also have "\<dots> = (if in_range p (Suc d) a then run_byte n (k + unat (a - p)) else m a)"
  proof (cases "a = p")
    case True
    have "\<not> in_range (p + 1) d p"
      using Suc.prems(5) by (simp add: in_range_def unsigned_minus_1_eq_mask mask_eq_exp_minus_1)
    then show ?thesis using True Suc.prems(3) by (simp add: in_range_start)
  next
    case False
    then have "0 < unat (a - p)" by (simp add: unat_gt_0)
    then show ?thesis
      using False in_range_peel [of "Suc d" p a] Suc.prems(5) unat_diff_Suc [OF False] by simp
  qed
  finally show ?case using step by simp
qed

lemma heap_mark_blocks_taken_apply:
  assumes "n \<le> 2147483647"
  shows "heap_mark_blocks_taken h (int s) (int n) m a =
    (if in_range (hp_entries h + of_nat s) n a
     then run_byte n (unat (a - (hp_entries h + of_nat s))) else m a)"
proof -
  let ?e = "if int n > 1 then (1 OR 0x80) OR 0x40 else (1 OR 0x80) :: u8"
  have "0 < n \<Longrightarrow> ?e = run_byte n 0" by (auto simp: run_byte_def)
  then show ?thesis
    using mark_taken_loop [of "int s" n "int s + int n - 1" 0 n ?e
        "hp_entries h + of_nat s" "hp_table h" m a] assms
    by (cases "Suc 0 < n") (simp_all add: heap_mark_blocks_taken_def)
qed

lemma mark_free_loop:
  assumes "0 < d" and "k + d = n" and "i + int d \<le> c_int (ht_total t)"
    and "p = ht_entries t + c_uint i" and "d \<le> 4294967296"
    and "\<And>j. j < d \<Longrightarrow> m (p + of_nat j) = run_byte n (k + j)"
  shows "heap_mark_blocks_free_loop m t i a = (if in_range p d a then 0 else m a)"
  using assms
proof (induction d arbitrary: i k p m)
  case 0
  then show ?case by simp
next
  case (Suc d)
  let ?m = "m(p := 0)"
  have mp: "m p = run_byte n k" using Suc.prems(6) [of 0] by simp
  have lt: "i < c_int (ht_total t)" using Suc.prems(3) by simp
  show ?case
  proof (cases "d = 0")
    case True
    then have "m p AND 0x40 = 0" using mp Suc.prems(2) by (simp add: run_byte_next)
    then show ?thesis
      using lt True Suc.prems(4) by (subst heap_mark_blocks_free_loop.simps)
        (auto simp: in_range_one)
  next
    case False
    then have "m p AND 0x40 \<noteq> 0" using mp Suc.prems(2) by (simp add: run_byte_next)
    then have step: "heap_mark_blocks_free_loop m t i a = heap_mark_blocks_free_loop ?m t (i + 1) a"
      using lt Suc.prems(4) by (subst heap_mark_blocks_free_loop.simps) (simp add: Let_def)
    have byte: "?m (p + 1 + of_nat j) = run_byte n (Suc k + j)" if "j < d" for j
    proof -
      have "\<not> in_range (p + 1) d p"
        using Suc.prems(5) by (simp add: in_range_def unsigned_minus_1_eq_mask mask_eq_exp_minus_1)
      moreover have "in_range (p + 1) d (p + 1 + of_nat j)"
        using that Suc.prems(5) by (intro in_range_of_nat) auto
      ultimately have "p + 1 + of_nat j \<noteq> p" by metis
      then show ?thesis using Suc.prems(6) [of "Suc j"] that by (simp add: algebra_simps)
    qed
    have "heap_mark_blocks_free_loop ?m t (i + 1) a = (if in_range (p + 1) d a then 0 else ?m a)"
      using False Suc.prems byte by (intro Suc.IH [of "Suc k"]) auto
    then show ?thesis
      using step in_range_peel [of "Suc d" p a] Suc.prems(5) by auto
  qed
qed

section \<open>Addresses and block numbers\<close>

lemma heap_block_to_address_eq: "heap_block_to_address h (int s) = block_addr h s"
proof -
  have "c_uint (int s * 4096) = of_nat (4096 * s)" by (simp add: mult.commute)
  then show ?thesis by (simp add: heap_block_to_address_def block_addr_def)
qed

lemma heap_address_to_block_eq:
  "wf_heap h \<Longrightarrow> s < hp_total h \<Longrightarrow> heap_address_to_block h (block_addr h s) = int s"
proof -
  assume "wf_heap h" "s < hp_total h"
  then have "4096 * s < 2147483648" by (auto simp: wf_heap_def)
  then have "c_int (of_nat (4096 * s)) = int (4096 * s)"
    using unat_of_nat_u32 [of "4096 * s"] c_int_small [of "of_nat (4096 * s)"]
    by (simp del: of_nat_mult)
  moreover have "int (4096 * s) sdiv 4096 = int s"
    by (simp add: signed_divide_int_def sgn_if)
  ultimately show ?thesis
    by (simp add: heap_address_to_block_def block_addr_def del: of_nat_mult)
qed

lemma block_addr_nonzero: "wf_heap h \<Longrightarrow> s < hp_total h \<Longrightarrow> block_addr h s \<noteq> 0"
proof
  assume wf: "wf_heap h" "s < hp_total h" "block_addr h s = 0"
  then have "unat (hp_saddr h + of_nat (4096 * s)) = unat (hp_saddr h) + 4096 * s"
    using unat_of_nat_u32 [of "4096 * s"]
    by (subst unat_plus_if') (auto simp: wf_heap_def simp del: of_nat_mult)
  then show False using wf by (simp add: block_addr_def wf_heap_def)
qed

text \<open>The bytes of block \<open>s\<close>, and of a run: membership by division.\<close>

lemma in_run:
  assumes "wf_heap h" and "s + n \<le> hp_total h"
  shows "in_range (block_addr h s) (4096 * n) a \<longleftrightarrow>
    s \<le> unat (a - hp_saddr h) div 4096 \<and> unat (a - hp_saddr h) div 4096 < s + n"
proof -
  let ?d = "unat (a - hp_saddr h)"
  have b: "4096 * (s + n) \<le> 4294967296" using assms by (auto simp: wf_heap_def)
  show ?thesis
  proof (cases "n = 0")
    case True
    then show ?thesis by (simp add: in_range_zero)
  next
    case False
    then have u: "unat (of_nat (4096 * s) :: u32) = 4096 * s"
      using b by (intro unat_of_nat_u32) simp
    have "a - block_addr h s = (a - hp_saddr h) - of_nat (4096 * s)"
      unfolding block_addr_def by (rule diff_diff_eq [symmetric])
    then have "unat (a - block_addr h s) =
        (if 4096 * s \<le> ?d then ?d - 4096 * s else 4294967296 + ?d - 4096 * s)"
      using unat_diff_u32 [of "a - hp_saddr h" "of_nat (4096 * s)"] u by (simp only:)
    then show ?thesis using b unat_lt_u32 [of "a - hp_saddr h"] by (auto simp: in_range_def)
  qed
qed

section \<open>The operations on the representation\<close>

lemma heap_repD:
  assumes "heap_rep h m A"
  shows "wf_heap h"
    and "A s = Some n \<Longrightarrow> 0 < n" and "A s = Some n \<Longrightarrow> s + n \<le> hp_total h"
    and "A s = Some n \<Longrightarrow> k < n \<Longrightarrow> blk h m (s + k) = run_byte n k"
    and "A s = Some n \<Longrightarrow> A s' = Some n' \<Longrightarrow> s < s' \<Longrightarrow> s + n \<le> s'"
    and "i < hp_total h \<Longrightarrow> \<not> covered A i \<Longrightarrow> blk h m i = 0"
  using assms unfolding heap_rep_def by blast+

lemma table_index:
  assumes "s + n \<le> T" and "i < T" and "T \<le> 4294967295"
  shows "in_range (e + of_nat s) n (e + of_nat i) \<longleftrightarrow> s \<le> i \<and> i < s + n"
proof -
  have "(e + of_nat i) - (e + of_nat s) = (of_nat i - of_nat s :: u32)" by simp
  then have "unat ((e + of_nat i) - (e + of_nat s)) = (if s \<le> i then i - s else 4294967296 + i - s)"
    using assms unat_diff_u32 [of "of_nat i" "of_nat s"] by (simp add: unat_of_nat_u32)
  then show ?thesis using assms by (auto simp: in_range_def)
qed

lemma hp_total_bound: "wf_heap h \<Longrightarrow> hp_total h \<le> 4294967295"
  by (simp add: wf_heap_def)

text \<open>What the table reads after a run of it was rewritten.\<close>

lemma blk_rewrite:
  assumes "wf_heap h" and "s + n \<le> hp_total h" and "i < hp_total h"
    and "\<And>a. m' a = (if in_range (hp_entries h + of_nat s) n a
                 then f (unat (a - (hp_entries h + of_nat s))) else m a)"
  shows "blk h m' i = (if s \<le> i \<and> i < s + n then f (i - s) else blk h m i)"
proof -
  have "(hp_entries h + of_nat i) - (hp_entries h + of_nat s) = (of_nat i - of_nat s :: u32)" by simp
  then have "s \<le> i \<Longrightarrow> unat ((hp_entries h + of_nat i) - (hp_entries h + of_nat s)) = i - s"
    using assms(1-3) unat_diff_u32 [of "of_nat i" "of_nat s"]
    by (simp add: unat_of_nat_u32 wf_heap_def)
  then show ?thesis
    using table_index [OF assms(2,3) hp_total_bound [OF assms(1)], of "hp_entries h"]
    by (auto simp: blk_def assms(4))
qed

lemma heap_rep_cong:
  assumes "heap_rep h m A" and "\<And>a. in_range (hp_entries h) (hp_total h) a \<Longrightarrow> m' a = m a"
  shows "heap_rep h m' A"
proof -
  have b: "blk h m' i = blk h m i" if "i < hp_total h" for i
    using assms(2) in_range_of_nat [OF that, of "hp_entries h"] hp_total_bound [OF heap_repD(1) [OF assms(1)]]
    by (simp add: blk_def)
  have "blk h m' (s + k) = run_byte n k" if "A s = Some n" "k < n" for s n k
    using b [of "s + k"] that heap_repD(3,4) [OF assms(1) that(1)] by simp
  then show ?thesis using assms(1) b unfolding heap_rep_def by auto
qed

lemma free_run_uncovered:
  "heap_rep h m A \<Longrightarrow> free_run h m s n \<Longrightarrow> s \<le> i \<Longrightarrow> i < s + n \<Longrightarrow> \<not> covered A i"
  using taken_covered [of h m A i] by (auto simp: free_run_def)

lemma coveredI: "A s = Some n \<Longrightarrow> s \<le> i \<Longrightarrow> i < s + n \<Longrightarrow> covered A i"
  by (auto simp: covered_def)

lemma covered_other:
  "covered A i \<Longrightarrow> covered (A(s := v)) i \<or> (\<exists>n. A s = Some n \<and> s \<le> i \<and> i < s + n)"
  unfolding covered_def by (metis fun_upd_other)

lemma free_run_disjoint:
  assumes "heap_rep h m A" and "free_run h m s n" and "0 < n" and "A s' = Some n'"
  shows "s + n \<le> s' \<or> s' + n' \<le> s"
proof (rule ccontr)
  assume "\<not> (s + n \<le> s' \<or> s' + n' \<le> s)"
  then have "s \<le> max s s'" "max s s' < s + n" "s' \<le> max s s'" "max s s' < s' + n'"
    using assms(3) heap_repD(2) [OF assms(1,4)] by auto
  then show False using free_run_uncovered [OF assms(1,2)] coveredI [of A s' n'] assms(4) by blast
qed

lemma heap_rep_alloc:
  assumes rep: "heap_rep h m A" and fr: "free_run h m s n" and n: "0 < n"
    and m': "\<And>a. m' a = (if in_range (hp_entries h + of_nat s) n a
                 then run_byte n (unat (a - (hp_entries h + of_nat s))) else m a)"
  shows "heap_rep h m' (A(s \<mapsto> n))"
proof -
  note disj = free_run_disjoint [OF rep fr n]
  have sn: "s + n \<le> hp_total h" using fr by (simp add: free_run_def)
  note b = blk_rewrite [OF heap_repD(1) [OF rep] sn _ m']
  have run: "0 < n' \<and> s' + n' \<le> hp_total h \<and> (\<forall>k<n'. blk h m' (s' + k) = run_byte n' k)"
    if "(A(s \<mapsto> n)) s' = Some n'" for s' n'
  proof (cases "s' = s")
    case True
    then show ?thesis using that n sn b by auto
  next
    case False
    then have A: "A s' = Some n'" using that by simp
    have "blk h m' (s' + k) = run_byte n' k" if "k < n'" for k
      using b [of "s' + k"] disj [OF A] heap_repD(3,4) [OF rep A] that by auto
    then show ?thesis using heap_repD(2,3) [OF rep A] by simp
  qed
  have order: "s1 + n1 \<le> s2"
    if "(A(s \<mapsto> n)) s1 = Some n1" "(A(s \<mapsto> n)) s2 = Some n2" "s1 < s2" for s1 n1 s2 n2
    using that disj [of s1 n1] disj [of s2 n2] heap_repD(5) [OF rep, of s1 n1 s2 n2]
    by (auto split: if_splits)
  have free: "blk h m' i = 0" if "i < hp_total h" "\<not> covered (A(s \<mapsto> n)) i" for i
  proof -
    have out: "\<not> (s \<le> i \<and> i < s + n)" using that(2) coveredI [of "A(s \<mapsto> n)" s n i] by auto
    have "A s = None" using disj [of s] n heap_repD(2) [OF rep] by (cases "A s") fastforce+
    then have "\<not> covered A i" using that(2) covered_other [of A i s "Some n"] by auto
    then show ?thesis using b [OF that(1)] out heap_repD(6) [OF rep that(1)] by auto
  qed
  show ?thesis unfolding heap_rep_def
    using heap_repD(1) [OF rep] run order free by blast
qed

lemma heap_rep_release:
  assumes rep: "heap_rep h m A" and A: "A s = Some n"
    and m': "\<And>a. m' a = (if in_range (hp_entries h + of_nat s) n a then 0 else m a)"
  shows "heap_rep h m' (A(s := None))"
proof -
  note b = blk_rewrite [OF heap_repD(1) [OF rep] heap_repD(3) [OF rep A] _ m']
  have run: "0 < n' \<and> s' + n' \<le> hp_total h \<and> (\<forall>k<n'. blk h m' (s' + k) = run_byte n' k)"
    if A': "(A(s := None)) s' = Some n'" for s' n'
  proof -
    have ne: "s' \<noteq> s" and As': "A s' = Some n'" using A' by (auto split: if_splits)
    have "s + n \<le> s' \<or> s' + n' \<le> s"
      using ne heap_repD(5) [OF rep A As'] heap_repD(5) [OF rep As' A] by linarith
    then have "blk h m' (s' + k) = run_byte n' k" if "k < n'" for k
      using b [of "s' + k"] heap_repD(3,4) [OF rep As'] that by auto
    then show ?thesis using heap_repD(2,3) [OF rep As'] by simp
  qed
  have free: "blk h m' i = 0" if "i < hp_total h" "\<not> covered (A(s := None)) i" for i
  proof (cases "s \<le> i \<and> i < s + n")
    case True
    then show ?thesis using b [OF that(1)] by simp
  next
    case False
    then have "\<not> covered A i" using that(2) A covered_other [of A i s None] by auto
    then show ?thesis using b [OF that(1)] False heap_repD(6) [OF rep that(1)] by auto
  qed
  have order: "s1 + n1 \<le> s2"
    if "(A(s := None)) s1 = Some n1" "(A(s := None)) s2 = Some n2" "s1 < s2" for s1 n1 s2 n2
    using that heap_repD(5) [OF rep, of s1 n1 s2 n2] by (auto split: if_splits)
  show ?thesis unfolding heap_rep_def
    using heap_repD(1) [OF rep] run order free by blast
qed

section \<open>Rounding the size\<close>

definition blocks_for :: "u32 \<Rightarrow> nat" where
  "blocks_for sz = (unat sz + 4095) div 4096"

lemma unat_div_4096: "unat (v div 4096 :: u32) = unat v div 4096"
  by (simp add: unat_div)

lemma unat_mod_4096: "unat (v mod 4096 :: u32) = unat v mod 4096"
  by (simp add: unat_mod)

lemma round_up_exact:
  fixes x :: nat
  assumes "x mod 4096 = 0"
  shows "x = 4096 * ((x + 4095) div 4096)"
proof -
  have x: "x = 4096 * (x div 4096)" using assms mult_div_mod_eq [of 4096 x] by linarith
  then have "(x + 4095) div 4096 = x div 4096"
    using div_eq_bounds [of 4096 "x + 4095" "x div 4096"] by linarith
  then show ?thesis using x by simp
qed

lemma round_up_ceil:
  fixes x :: nat
  assumes "x mod 4096 \<noteq> 0"
  shows "x - x mod 4096 + 4096 = 4096 * ((x + 4095) div 4096)"
proof -
  have x: "x = 4096 * (x div 4096) + x mod 4096" by simp
  have "x mod 4096 < 4096" by simp
  then have "(x + 4095) div 4096 = Suc (x div 4096)"
    using assms x div_eq_bounds [of 4096 "x + 4095" "Suc (x div 4096)"] by linarith
  then show ?thesis using x by linarith
qed

lemma round_up_bound:
  fixes x :: nat
  assumes "x \<le> 4294963200" and "x mod 4096 \<noteq> 0"
  shows "x - x mod 4096 + 4096 < 4294967296"
proof -
  have "x = 4096 * (x div 4096) + x mod 4096" by simp
  then show ?thesis using assms by linarith
qed

lemma heap_align_value_to_upper_unat:
  assumes "unat v \<le> 4294963200"
  shows "unat (heap_align_value_to_upper v) = 4096 * blocks_for v"
proof (cases "v mod 4096 = 0")
  case True
  then have "unat v mod 4096 = 0" by (metis unat_mod_4096 unsigned_0)
  then show ?thesis
    using True round_up_exact [of "unat v"] by (simp add: heap_align_value_to_upper_def blocks_for_def)
next
  case False
  then have nz: "unat v mod 4096 \<noteq> 0" by (metis unat_eq_zero unat_mod_4096)
  have "v mod 4096 \<le> v" unfolding word_le_nat_alt unat_mod_4096 by (rule mod_less_eq_dividend)
  then have "unat (v - v mod 4096) = unat v - unat v mod 4096"
    by (simp add: unat_sub unat_mod_4096)
  then have "unat (v - v mod 4096 + 4096) = unat v - unat v mod 4096 + 4096"
    using round_up_bound [OF assms nz] by (simp add: unat_word_ariths)
  then show ?thesis
    using False round_up_ceil [OF nz] by (simp add: heap_align_value_to_upper_def blocks_for_def)
qed

lemma heap_malloc_blocks_for:
  assumes "unat sz \<le> 4294963200"
  shows "unat (heap_align_value_to_upper sz div 4096) = blocks_for sz"
  using heap_align_value_to_upper_unat [OF assms] unat_div_4096 by simp

section \<open>malloc and free against the representation\<close>

definition heap_fits :: "heap \<Rightarrow> mem \<Rightarrow> u32 \<Rightarrow> bool" where
  "heap_fits h m sz \<longleftrightarrow> 0 < unat sz \<and> unat sz \<le> 4294963200
     \<and> (\<exists>s \<le> hp_total h. free_run h m s (blocks_for sz))"

definition avail :: "heap \<Rightarrow> mem \<Rightarrow> nat" where
  "avail h m = length (filter (\<lambda>i. \<not> taken h m i) [0..<hp_total h])"

lemma avail_card: "avail h m = card {i. i < hp_total h \<and> \<not> taken h m i}"
proof -
  have "{i. i < hp_total h \<and> \<not> taken h m i} = set (filter (\<lambda>i. \<not> taken h m i) [0..<hp_total h])"
    by auto
  then show ?thesis unfolding avail_def by (metis distinct_card distinct_filter distinct_upt)
qed

lemma blocks_for_bound: "unat sz \<le> 4096 * blocks_for sz"
proof -
  have "unat sz + 4095 = 4096 * blocks_for sz + (unat sz + 4095) mod 4096"
    by (simp add: blocks_for_def)
  moreover have "(unat sz + 4095) mod 4096 < 4096" by simp
  ultimately show ?thesis by linarith
qed

lemma blocks_for_pos: "0 < unat sz \<Longrightarrow> 0 < blocks_for sz"
  using blocks_for_bound [of sz] by (cases "blocks_for sz") auto

lemma blocks_for_page: "0 < unat sz \<Longrightarrow> unat sz \<le> 4096 \<Longrightarrow> blocks_for sz = 1"
  unfolding blocks_for_def using div_eq_bounds [of 4096 "unat sz + 4095" 1] by simp

lemma heap_get_start_block_fits:
  assumes "wf_heap h" and "0 < unat tb" and "free_run h m s (unat tb)"
  obtains s where "heap_get_start_block h tb m = int s" "free_run h m s (unat tb)"
    "\<And>k. k < s \<Longrightarrow> \<not> free_run h m k (unat tb)"
proof -
  have "scan_result h m (unat tb) (heap_get_start_block_loop m (hp_table h) tb 0 0 (- 1))"
    using assms by (intro heap_get_start_block_scan) (auto simp: wf_heap_def)
  then obtain s where "heap_get_start_block_loop m (hp_table h) tb 0 0 (- 1) = int s"
      "free_run h m s (unat tb)" "\<forall>k < s. \<not> free_run h m k (unat tb)"
    using assms(3) unfolding scan_result_def by blast
  then show thesis using that by (simp add: heap_get_start_block_def)
qed

lemma heap_mallocE:
  assumes "wf_heap h" and "heap_fits h m sz"
  obtains s where "free_run h m s (blocks_for sz)" "\<And>k. k < s \<Longrightarrow> \<not> free_run h m k (blocks_for sz)"
    "fst (heap_malloc h sz m) = block_addr h s"
    "\<And>a. snd (heap_malloc h sz m) a = (if in_range (hp_entries h + of_nat s) (blocks_for sz) a
       then run_byte (blocks_for sz) (unat (a - (hp_entries h + of_nat s))) else m a)"
proof -
  let ?tb = "heap_align_value_to_upper sz div 4096"
  obtain s0 where sz: "0 < unat sz" "unat sz \<le> 4294963200" and fr: "free_run h m s0 (blocks_for sz)"
    using assms(2) by (auto simp: heap_fits_def)
  have tb: "unat ?tb = blocks_for sz" using heap_malloc_blocks_for [OF sz(2)] .
  have "0 < unat ?tb" "free_run h m s0 (unat ?tb)" using blocks_for_pos [OF sz(1)] tb fr by simp_all
  then obtain s where s: "heap_get_start_block h ?tb m = int s" "free_run h m s (unat ?tb)"
      "\<And>k. k < s \<Longrightarrow> \<not> free_run h m k (unat ?tb)"
    using heap_get_start_block_fits [OF assms(1)] by blast
  have n: "unat ?tb < 524288" using s(2) assms(1) by (simp add: free_run_def wf_heap_def)
  then have ci: "c_int ?tb = int (blocks_for sz)" using c_int_small [of ?tb] unfolding tb by linarith
  show thesis
  proof (rule that [of s])
    show "free_run h m s (blocks_for sz)" using s(2) tb by simp
    show "\<not> free_run h m k (blocks_for sz)" if "k < s" for k using s(3) [OF that] tb by simp
    show "fst (heap_malloc h sz m) = block_addr h s"
      using s(1) by (simp add: heap_malloc_def heap_malloc_blocks_def Let_def heap_block_to_address_eq)
    show "snd (heap_malloc h sz m) a = (if in_range (hp_entries h + of_nat s) (blocks_for sz) a
       then run_byte (blocks_for sz) (unat (a - (hp_entries h + of_nat s))) else m a)" for a
      using s(1) n ci tb heap_mark_blocks_taken_apply [of "blocks_for sz" h s m a]
      by (simp add: heap_malloc_def heap_malloc_blocks_def Let_def)
  qed
qed

lemma heap_free_apply:
  assumes "heap_rep h m A" and "A s = Some n"
  shows "heap_free h (block_addr h s) m a = (if in_range (hp_entries h + of_nat s) n a then 0 else m a)"
proof -
  note wf = heap_repD(1) [OF assms(1)]
  note n = heap_repD(2,3) [OF assms]
  have "heap_address_to_block h (block_addr h s) = int s"
    using n by (intro heap_address_to_block_eq [OF wf]) simp
  moreover have "m (hp_entries h + of_nat s + of_nat j) = run_byte n (0 + j)" if "j < n" for j
    using heap_repD(4) [OF assms that] by (simp add: blk_def algebra_simps)
  moreover have "int s + int n \<le> c_int (ht_total (hp_table h))"
    using n(2) wf c_int_small [of "ht_total (hp_table h)"] by (simp only: wf_heap_def) linarith
  ultimately show ?thesis
    using n(1) n(2) hp_total_bound [OF wf] unfolding heap_free_def heap_mark_blocks_free_def
    by (intro mark_free_loop [of n 0]) auto
qed

lemma heap_malloc_rep:
  assumes "heap_rep h m A" and "heap_fits h m sz"
  obtains s where "free_run h m s (blocks_for sz)" "\<And>k. k < s \<Longrightarrow> \<not> free_run h m k (blocks_for sz)"
    "fst (heap_malloc h sz m) = block_addr h s" "A s = None"
    "heap_rep h (snd (heap_malloc h sz m)) (A(s \<mapsto> blocks_for sz))"
    "\<And>a. \<not> in_range (hp_entries h) (hp_total h) a \<Longrightarrow> snd (heap_malloc h sz m) a = m a"
proof -
  have pos: "0 < blocks_for sz" using assms(2) by (simp add: heap_fits_def blocks_for_pos)
  obtain s where s: "free_run h m s (blocks_for sz)" "\<And>k. k < s \<Longrightarrow> \<not> free_run h m k (blocks_for sz)"
    "fst (heap_malloc h sz m) = block_addr h s"
    "\<And>a. snd (heap_malloc h sz m) a = (if in_range (hp_entries h + of_nat s) (blocks_for sz) a
       then run_byte (blocks_for sz) (unat (a - (hp_entries h + of_nat s))) else m a)"
    using heap_mallocE [OF heap_repD(1) [OF assms(1)] assms(2)] by blast
  have As: "A s = None"
    using free_run_disjoint [OF assms(1) s(1) pos, of s] heap_repD(2) [OF assms(1), of s] pos
    by (cases "A s") auto
  have frame: "snd (heap_malloc h sz m) a = m a" if a: "\<not> in_range (hp_entries h) (hp_total h) a" for a
  proof -
    have "\<not> in_range (hp_entries h + of_nat s) (blocks_for sz) a"
    proof
      assume "in_range (hp_entries h + of_nat s) (blocks_for sz) a"
      then obtain i where i: "i < blocks_for sz" "a = hp_entries h + of_nat s + of_nat i"
        by (rule in_range_exE)
      then have "a = hp_entries h + of_nat (s + i)" "s + i < hp_total h"
        using s(1) by (auto simp: free_run_def)
      then show False using a in_range_of_nat [of "s + i" "hp_total h"]
          hp_total_bound [OF heap_repD(1) [OF assms(1)]] by simp
    qed
    then show ?thesis by (simp add: s(4))
  qed
  show thesis
    using that [OF s(1,2,3) As heap_rep_alloc [OF assms(1) s(1) pos s(4)] frame] by simp
qed

lemma heap_free_rep:
  assumes "heap_rep h m A" and "A s = Some n"
  shows "heap_rep h (heap_free h (block_addr h s) m) (A(s := None))"
  using heap_rep_release [OF assms heap_free_apply [OF assms]] .

lemma heap_free_frame:
  assumes "heap_rep h m A" and "A s = Some n" and "\<not> in_range (hp_entries h) (hp_total h) a"
  shows "heap_free h (block_addr h s) m a = m a"
proof -
  have "\<not> in_range (hp_entries h + of_nat s) n a"
  proof
    assume "in_range (hp_entries h + of_nat s) n a"
    then obtain i where i: "i < n" "a = hp_entries h + of_nat s + of_nat i"
      by (rule in_range_exE)
    then have "a = hp_entries h + of_nat (s + i)" "s + i < hp_total h"
      using heap_repD(3) [OF assms(1,2)] by auto
    then show False using assms(3) in_range_of_nat [of "s + i" "hp_total h"]
        hp_total_bound [OF heap_repD(1) [OF assms(1)]] by simp
  qed
  then show ?thesis by (simp add: heap_free_apply [OF assms(1,2)])
qed

lemma run_disj:
  assumes "wf_heap h" and "s + n \<le> hp_total h" and "s' + n' \<le> hp_total h"
    and "s + n \<le> s' \<or> s' + n' \<le> s"
  shows "disj_range (block_addr h s) (4096 * n) (block_addr h s') (4096 * n')"
proof -
  have b: "4096 * hp_total h < 2147483648" using assms(1) by (simp add: wf_heap_def)
  have u: "unat (of_nat (4096 * s) :: u32) = 4096 * s" "unat (of_nat (4096 * s') :: u32) = 4096 * s'"
    using assms(2,3) b by (intro unat_of_nat_u32, linarith)+
  have "block_addr h s' - block_addr h s = of_nat (4096 * s') - of_nat (4096 * s)"
    "block_addr h s - block_addr h s' = of_nat (4096 * s) - of_nat (4096 * s')"
    by (simp_all add: block_addr_def)
  then show ?thesis
    using u assms(2-4) b unat_diff_u32 [of "of_nat (4096 * s)" "of_nat (4096 * s')"]
      unat_diff_u32 [of "of_nat (4096 * s')" "of_nat (4096 * s)"]
    unfolding disj_range_def by auto
qed

lemma run_not_in_table:
  assumes "wf_heap h" and "s + n \<le> hp_total h" and "in_range (block_addr h s) (4096 * n) a"
  shows "\<not> in_range (hp_entries h) (hp_total h) a"
proof -
  have "unat (a - hp_saddr h) div 4096 < hp_total h"
    using in_run [OF assms(1,2)] assms(2,3) by auto
  then have "in_range (hp_saddr h) (4096 * hp_total h) a"
    unfolding in_range_def by (simp add: div_less_iff_less_mult mult.commute)
  then show ?thesis using assms(1) disj_rangeD2 unfolding wf_heap_def by blast
qed

end
