(* ===== verification/Allocator.thy ===== *)
theory Allocator
  imports Prelude
begin

text \<open>
  The contract between the heap and its clients. A client sees a map \<open>A\<close> from handles to lengths
  in blocks of 4096 bytes, the blocks it owns, and addresses of handles; it never looks at the
  allocator's table. The laws: an allocation that fits gives a block of enough bytes that overlaps
  no owned one, neither operation touches the bytes of the other owned blocks, and a client may
  write in the blocks it owns without confusing the allocator. The lemmas of the locales are what
  the paging code and the other clients use.
\<close>

definition owned_byte :: "(nat \<Rightarrow> ptr) \<Rightarrow> (nat \<rightharpoonup> nat) \<Rightarrow> ptr \<Rightarrow> bool" where
  "owned_byte addr A a \<longleftrightarrow> (\<exists>b k. A b = Some k \<and> in_range (addr b) (4096 * k) a)"

lemma owned_byteI: "A b = Some k \<Longrightarrow> in_range (addr b) (4096 * k) a \<Longrightarrow> owned_byte addr A a"
  by (auto simp: owned_byte_def)

locale allocator =
  fixes alloc :: "u32 \<Rightarrow> mem \<Rightarrow> ptr \<times> mem"
    and release :: "ptr \<Rightarrow> mem \<Rightarrow> mem"
    and rep :: "mem \<Rightarrow> (nat \<rightharpoonup> nat) \<Rightarrow> bool"
    and addr :: "nat \<Rightarrow> ptr"
    and fits :: "mem \<Rightarrow> u32 \<Rightarrow> bool"
  assumes alloc_fresh: "rep m A \<Longrightarrow> fits m n \<Longrightarrow>
      \<exists>b k. fst (alloc n m) = addr b \<and> A b = None \<and> unat n \<le> 4096 * k \<and> addr b \<noteq> 0
        \<and> (\<forall>b' k'. A b' = Some k' \<longrightarrow> disj_range (addr b) (4096 * k) (addr b') (4096 * k'))
        \<and> rep (snd (alloc n m)) (A(b \<mapsto> k))"
    and alloc_frame: "rep m A \<Longrightarrow> fits m n \<Longrightarrow> owned_byte addr A a \<Longrightarrow> snd (alloc n m) a = m a"
    and release_rep: "rep m A \<Longrightarrow> A b = Some k \<Longrightarrow> rep (release (addr b) m) (A(b := None))"
    and release_frame: "rep m A \<Longrightarrow> A b = Some k \<Longrightarrow> owned_byte addr A a \<Longrightarrow> release (addr b) m a = m a"
    and rep_write: "rep m A \<Longrightarrow> (\<And>a. \<not> owned_byte addr A a \<Longrightarrow> m' a = m a) \<Longrightarrow> rep m' A"
    and rep_disj: "rep m A \<Longrightarrow> A b = Some k \<Longrightarrow> A b' = Some k' \<Longrightarrow> b \<noteq> b' \<Longrightarrow>
      disj_range (addr b) (4096 * k) (addr b') (4096 * k')"
begin

lemma alloc_freshE:
  assumes "rep m A" and "fits m n"
  obtains b k where "fst (alloc n m) = addr b" "A b = None" "unat n \<le> 4096 * k" "addr b \<noteq> 0"
    "\<And>b' k'. A b' = Some k' \<Longrightarrow> disj_range (addr b) (4096 * k) (addr b') (4096 * k')"
    "rep (snd (alloc n m)) (A(b \<mapsto> k))"
  using alloc_fresh [OF assms] by blast

lemma alloc_not_null: "rep m A \<Longrightarrow> fits m n \<Longrightarrow> fst (alloc n m) \<noteq> 0"
  using alloc_fresh [of m A n] by auto

text \<open>What a client stored in a block it owns survives allocations, releases of other blocks and
  writes elsewhere.\<close>

lemma owned_byte_upd: "A b = None \<Longrightarrow> owned_byte addr A a \<Longrightarrow> owned_byte addr (A(b \<mapsto> k)) a"
  unfolding owned_byte_def by (metis fun_upd_other option.distinct(1))

lemma owned_byte_release:
  assumes "rep m A" and "A b = Some k" and "owned_byte addr (A(b := None)) a"
  shows "owned_byte addr A a" and "\<not> in_range (addr b) (4096 * k) a"
proof -
  obtain b' k' where "(A(b := None)) b' = Some k'" and r: "in_range (addr b') (4096 * k') a"
    using assms(3) by (auto simp: owned_byte_def)
  then have b': "b' \<noteq> b" "A b' = Some k'" by (auto split: if_splits)
  then show "owned_byte addr A a" using r by (auto simp: owned_byte_def)
  show "\<not> in_range (addr b) (4096 * k) a"
    using rep_disj [OF assms(1) b'(2) assms(2) b'(1)] r disj_rangeD by blast
qed

text \<open>Allocating and releasing at once gives the client back what it owned.\<close>

lemma alloc_release:
  assumes "rep m A" and "fits m n"
  shows "rep (release (fst (alloc n m)) (snd (alloc n m))) A"
proof -
  obtain b k where a: "fst (alloc n m) = addr b" "A b = None" "rep (snd (alloc n m)) (A(b \<mapsto> k))"
    using alloc_freshE [OF assms] by metis
  have "rep (release (addr b) (snd (alloc n m))) ((A(b \<mapsto> k))(b := None))"
    by (rule release_rep [OF a(3)]) simp
  then show ?thesis using a(1,2) by (simp add: fun_upd_idem)
qed

text \<open>Two allocations in a row do not overlap, and the first keeps its contents.\<close>

lemma alloc_twice:
  assumes "rep m A" and "fits m n" and "fits (snd (alloc n m)) n'"
  shows "disj_range (fst (alloc n m)) (unat n) (fst (alloc n' (snd (alloc n m)))) (unat n')"
proof -
  obtain b k where a: "fst (alloc n m) = addr b" "unat n \<le> 4096 * k"
      "rep (snd (alloc n m)) (A(b \<mapsto> k))"
    using alloc_freshE [OF assms(1,2)] by metis
  obtain b' k' where a': "fst (alloc n' (snd (alloc n m))) = addr b'" "unat n' \<le> 4096 * k'"
      "disj_range (addr b') (4096 * k') (addr b) (4096 * k)"
    using alloc_freshE [OF a(3) assms(3)] by (metis fun_upd_same)
  show ?thesis
    unfolding a(1) a'(1)
    by (rule disj_range_mono [OF _ a(2) a'(2)]) (use a'(3) in \<open>simp add: disj_range_sym\<close>)
qed

end

text \<open>
  A supplier of zeroed pages: requests of at most one page fit as long as some block is available,
  each takes one block, and the bytes asked for read zero.
\<close>

locale page_allocator = allocator +
  fixes avail :: "mem \<Rightarrow> nat"
  assumes avail_fits: "rep m A \<Longrightarrow> 0 < avail m \<Longrightarrow> 0 < unat n \<Longrightarrow> unat n \<le> 4096 \<Longrightarrow> fits m n"
    and avail_page: "rep m A \<Longrightarrow> 0 < avail m \<Longrightarrow> 0 < unat n \<Longrightarrow> unat n \<le> 4096 \<Longrightarrow>
      \<exists>b. fst (alloc n m) = addr b \<and> A b = None \<and> addr b \<noteq> 0
        \<and> (\<forall>b' k'. A b' = Some k' \<longrightarrow> disj_range (addr b) 4096 (addr b') (4096 * k'))
        \<and> rep (snd (alloc n m)) (A(b \<mapsto> 1)) \<and> Suc (avail (snd (alloc n m))) = avail m"
    and avail_write: "rep m A \<Longrightarrow> (\<And>a. \<not> owned_byte addr A a \<Longrightarrow> m' a = m a) \<Longrightarrow> avail m' = avail m"
    and avail_release: "rep m A \<Longrightarrow> A b = Some k \<Longrightarrow> avail (release (addr b) m) = avail m + k"
    and alloc_zero: "rep m A \<Longrightarrow> fits m n \<Longrightarrow> in_range (fst (alloc n m)) (unat n) a \<Longrightarrow>
      snd (alloc n m) a = 0"
begin

text \<open>One page: everything a client needs about it in one rule.\<close>

lemma alloc_page:
  assumes "rep m A" and "0 < avail m" and "0 < unat n" and "unat n \<le> 4096"
  obtains b where "fst (alloc n m) = addr b" "A b = None" "addr b \<noteq> 0"
    "\<And>b' k'. A b' = Some k' \<Longrightarrow> disj_range (addr b) 4096 (addr b') (4096 * k')"
    "rep (snd (alloc n m)) (A(b \<mapsto> 1))"
    "Suc (avail (snd (alloc n m))) = avail m"
    "\<And>a. owned_byte addr A a \<Longrightarrow> snd (alloc n m) a = m a"
    "\<And>a. in_range (addr b) (unat n) a \<Longrightarrow> snd (alloc n m) a = 0"
proof -
  have f: "fits m n" using avail_fits assms by blast
  obtain b where a: "fst (alloc n m) = addr b" "A b = None" "addr b \<noteq> 0"
      "\<And>b' k'. A b' = Some k' \<Longrightarrow> disj_range (addr b) 4096 (addr b') (4096 * k')"
      "rep (snd (alloc n m)) (A(b \<mapsto> 1))" "Suc (avail (snd (alloc n m))) = avail m"
    using avail_page [OF assms] by blast
  show thesis
    using that [of b] a alloc_frame [OF assms(1) f] alloc_zero [OF assms(1) f] by simp
qed

end

end
