(* ===== verification/Kheap.thy ===== *)
theory Kheap
  imports Heap Allocator
begin

text \<open>
  \<^verbatim>\<open>src/src/memory/heap/kheap.c\<close>: the kernel heap, one instance of the block allocator at fixed
  addresses, with \<^verbatim>\<open>kmalloc\<close>, \<^verbatim>\<open>kzalloc\<close> and \<^verbatim>\<open>kfree\<close>. The global \<^verbatim>\<open>kernel_heap\<close> is the first
  argument of the operations. The theory shows that the block allocator and the zeroing allocator
  keep the contracts of the theory Allocator.
\<close>

section \<open>Operations\<close>

text \<open>The message \<^verbatim>\<open>kheap_init\<close> prints when the heap cannot be created is returned with the state.\<close>

definition kheap_init :: "heap \<Rightarrow> mem \<Rightarrow> heap \<times> mem \<times> string option" where
  "kheap_init kernel_heap m =
     (let total_table_entries = LIEBE_OS_HEAP_SIZE_BYTES sdiv LIEBE_OS_HEAP_BLOCK_SIZE;
          kernel_heap_table = \<lparr>ht_entries = LIEBE_OS_HEAP_TABLE_ADDRESS,
                               ht_total = c_uint total_table_entries\<rparr>;
          end_p = LIEBE_OS_HEAP_ADDRESS + LIEBE_OS_HEAP_SIZE_BYTES;
          (res, kernel_heap, m) = heap_create kernel_heap LIEBE_OS_HEAP_ADDRESS end_p kernel_heap_table m
      in (kernel_heap, m, if res < 0 then Some ''Failed to create heap'' else None))"

definition kmalloc :: "heap \<Rightarrow> u32 \<Rightarrow> mem \<Rightarrow> ptr \<times> mem" where
  "kmalloc kernel_heap sz m = heap_malloc kernel_heap sz m"

definition kzalloc :: "heap \<Rightarrow> u32 \<Rightarrow> mem \<Rightarrow> ptr \<times> mem" where
  "kzalloc kernel_heap sz m =
     (let (p, m) = kmalloc kernel_heap sz m
      in if p = 0 then (0, m) else (p, snd (memset m p 0 sz)))"

definition kfree :: "heap \<Rightarrow> ptr \<Rightarrow> mem \<Rightarrow> mem" where
  "kfree kernel_heap p m = heap_free kernel_heap p m"

section \<open>The contracts\<close>

lemma owned_not_table:
  assumes "heap_rep h m A" and "owned_byte (block_addr h) A a"
  shows "\<not> in_range (hp_entries h) (hp_total h) a"
proof -
  obtain b k where "A b = Some k" "in_range (block_addr h b) (4096 * k) a"
    using assms(2) by (auto simp: owned_byte_def)
  then show ?thesis
    using run_not_in_table [OF heap_repD(1) [OF assms(1)] heap_repD(3) [OF assms(1)]] by blast
qed

lemma heap_rep_disj:
  assumes "heap_rep h m A" and "A b = Some k" and "A b' = Some k'" and "b \<noteq> b'"
  shows "disj_range (block_addr h b) (4096 * k) (block_addr h b') (4096 * k')"
proof (rule run_disj [OF heap_repD(1) [OF assms(1)]])
  show "b + k \<le> hp_total h" "b' + k' \<le> hp_total h"
    using heap_repD(3) [OF assms(1)] assms(2,3) by blast+
  show "b + k \<le> b' \<or> b' + k' \<le> b"
    using heap_repD(5) [OF assms(1) assms(2,3)] heap_repD(5) [OF assms(1) assms(3,2)] assms(4)
    by linarith
qed

lemma heap_rep_write:
  assumes "heap_rep h m A" and "\<And>a. \<not> owned_byte (block_addr h) A a \<Longrightarrow> m' a = m a"
  shows "heap_rep h m' A"
  using assms owned_not_table heap_rep_cong by blast

lemma avail_cong:
  assumes "wf_heap h" and "\<And>a. in_range (hp_entries h) (hp_total h) a \<Longrightarrow> m' a = m a"
  shows "avail h m' = avail h m"
proof -
  have "taken h m' i = taken h m i" if "i < hp_total h" for i
    using assms(2) in_range_of_nat [OF that] hp_total_bound [OF assms(1)] by (simp add: taken_def blk_def)
  then show ?thesis unfolding avail_def by (intro arg_cong [where f = length] filter_cong) auto
qed

lemma malloc_fresh_run:
  assumes "heap_rep h m A" and "heap_fits h m n"
  obtains b where "fst (heap_malloc h n m) = block_addr h b" "A b = None" "block_addr h b \<noteq> 0"
    "\<And>b' k'. A b' = Some k' \<Longrightarrow>
       disj_range (block_addr h b) (4096 * blocks_for n) (block_addr h b') (4096 * k')"
    "heap_rep h (snd (heap_malloc h n m)) (A(b \<mapsto> blocks_for n))"
    "\<And>a. \<not> in_range (hp_entries h) (hp_total h) a \<Longrightarrow> snd (heap_malloc h n m) a = m a"
    "free_run h m b (blocks_for n)"
proof -
  obtain s where s: "free_run h m s (blocks_for n)" "fst (heap_malloc h n m) = block_addr h s"
      "A s = None" "heap_rep h (snd (heap_malloc h n m)) (A(s \<mapsto> blocks_for n))"
      "\<And>a. \<not> in_range (hp_entries h) (hp_total h) a \<Longrightarrow> snd (heap_malloc h n m) a = m a"
    using heap_malloc_rep [OF assms] by metis
  have pos: "0 < blocks_for n" using assms(2) by (simp add: heap_fits_def blocks_for_pos)
  have sT: "s < hp_total h" using s(1) pos by (auto simp: free_run_def)
  have "disj_range (block_addr h s) (4096 * blocks_for n) (block_addr h b') (4096 * k')"
    if "A b' = Some k'" for b' k'
    using run_disj [OF heap_repD(1) [OF assms(1)] _ heap_repD(3) [OF assms(1) that]]
      free_run_disjoint [OF assms(1) s(1) pos that] s(1) by (auto simp: free_run_def)
  then show thesis
    using that [OF s(2,3) block_addr_nonzero [OF heap_repD(1) [OF assms(1)] sT] _ s(4,5,1)] by blast
qed

interpretation hp: allocator "heap_malloc h" "heap_free h" "heap_rep h" "block_addr h" "heap_fits h"
  for h
proof unfold_locales
  fix m A n
  assume rep: "heap_rep h m A" and f: "heap_fits h m n"
  show "\<exists>b k. fst (heap_malloc h n m) = block_addr h b \<and> A b = None \<and> unat n \<le> 4096 * k \<and>
     block_addr h b \<noteq> 0 \<and>
     (\<forall>b' k'. A b' = Some k' \<longrightarrow> disj_range (block_addr h b) (4096 * k) (block_addr h b') (4096 * k')) \<and>
     heap_rep h (snd (heap_malloc h n m)) (A(b \<mapsto> k))"
    using malloc_fresh_run [OF rep f] blocks_for_bound by metis
  fix a
  assume "owned_byte (block_addr h) A a"
  then show "snd (heap_malloc h n m) a = m a"
    using malloc_fresh_run [OF rep f] owned_not_table [OF rep] by metis
next
  fix m A b k
  assume rep: "heap_rep h m A" and A: "A b = Some k"
  show "heap_rep h (heap_free h (block_addr h b) m) (A(b := None))"
    by (rule heap_free_rep [OF rep A])
  fix a
  assume "owned_byte (block_addr h) A a"
  then show "heap_free h (block_addr h b) m a = m a"
    using heap_free_frame [OF rep A] owned_not_table [OF rep] by blast
qed (blast intro: heap_rep_write heap_rep_disj)+

text \<open>The zeroing allocator: \<^verbatim>\<open>memset\<close> stays inside the block it was given.\<close>

lemma kzalloc_eq:
  assumes "heap_rep h m A" and "heap_fits h m n"
  shows "fst (kzalloc h n m) = fst (heap_malloc h n m)"
    and "snd (kzalloc h n m) a = (if in_range (fst (heap_malloc h n m)) (unat n) a then 0
           else snd (heap_malloc h n m) a)"
  using hp.alloc_not_null [OF assms]
  by (simp_all add: kzalloc_def kmalloc_def split_beta memset_apply)

lemma in_block_range:
  "in_range (block_addr h b) (unat n) a \<Longrightarrow> in_range (block_addr h b) (4096 * blocks_for n) a"
  using in_range_mono blocks_for_bound by blast

lemma kzalloc_rep:
  assumes rep: "heap_rep h m A" and f: "heap_fits h m n"
    and b: "fst (heap_malloc h n m) = block_addr h b"
    and rep': "heap_rep h (snd (heap_malloc h n m)) (A(b \<mapsto> blocks_for n))"
  shows "heap_rep h (snd (kzalloc h n m)) (A(b \<mapsto> blocks_for n))"
    and "avail h (snd (kzalloc h n m)) = avail h (snd (heap_malloc h n m))"
proof -
  have eq: "snd (kzalloc h n m) a = snd (heap_malloc h n m) a"
    if "\<not> owned_byte (block_addr h) (A(b \<mapsto> blocks_for n)) a" for a
  proof -
    have "\<not> in_range (block_addr h b) (unat n) a"
      using that in_block_range owned_byteI [of "A(b \<mapsto> blocks_for n)" b] by (metis fun_upd_same)
    then show ?thesis by (simp add: kzalloc_eq(2) [OF rep f] b)
  qed
  show "heap_rep h (snd (kzalloc h n m)) (A(b \<mapsto> blocks_for n))"
    using heap_rep_write [OF rep' eq] .
  show "avail h (snd (kzalloc h n m)) = avail h (snd (heap_malloc h n m))"
    using avail_cong [OF heap_repD(1) [OF rep]] eq owned_not_table [OF rep'] by blast
qed

lemma avail_after:
  assumes "heap_rep h m A" and "heap_rep h m' (A(b \<mapsto> k))" and "A b = None"
  shows "avail h m = avail h m' + k"
proof -
  let ?F = "\<lambda>m. {i. i < hp_total h \<and> \<not> taken h m i}"
  have k: "b + k \<le> hp_total h" using heap_repD(3) [OF assms(2), of b k] by simp
  have cov: "covered (A(b \<mapsto> k)) i \<longleftrightarrow> covered A i \<or> (b \<le> i \<and> i < b + k)" for i
    using assms(3) covered_other [of A i b "Some k"] coveredI [of "A(b \<mapsto> k)" b k i]
      covered_other [of "A(b \<mapsto> k)" i b None] by (auto simp: fun_upd_idem)
  have "\<not> covered A i" if "b \<le> i" "i < b + k" for i
  proof
    assume "covered A i"
    then obtain s n where sn: "A s = Some n" "s \<le> i" "i < s + n" by (auto simp: covered_def)
    then have ne: "s \<noteq> b" using assms(3) by auto
    then have "(A(b \<mapsto> k)) s = Some n" "(A(b \<mapsto> k)) b = Some k" using sn by simp_all
    then have "s < b \<Longrightarrow> s + n \<le> b" "b < s \<Longrightarrow> b + k \<le> s"
      using heap_repD(5) [OF assms(2)] by blast+
    then show False using ne sn that by linarith
  qed
  then have tk: "taken h m' i \<longleftrightarrow> taken h m i \<or> (b \<le> i \<and> i < b + k)"
      "taken h m i \<Longrightarrow> \<not> (b \<le> i \<and> i < b + k)" if "i < hp_total h" for i
    using taken_covered [OF assms(1) that] taken_covered [OF assms(2) that] cov [of i] by blast+
  have "?F m = ?F m' \<union> {b..<b + k}"
  proof (rule set_eqI)
    fix i
    show "i \<in> ?F m \<longleftrightarrow> i \<in> ?F m' \<union> {b..<b + k}"
      using tk [of i] k by (cases "i < hp_total h") auto
  qed
  moreover have "?F m' \<inter> {b..<b + k} = {}" using tk(1) by auto
  ultimately have "?F m = ?F m' \<union> {b..<b + k}" "?F m' \<inter> {b..<b + k} = {}" .
  then show ?thesis by (simp add: avail_card card_Un_disjoint)
qed

interpretation kz: page_allocator "kzalloc h" "kfree h" "heap_rep h" "block_addr h" "heap_fits h" "avail h"
  for h
proof unfold_locales
  fix m A n
  assume rep: "heap_rep h m A" and f: "heap_fits h m n"
  obtain b where b: "fst (heap_malloc h n m) = block_addr h b" "A b = None" "block_addr h b \<noteq> 0"
    "\<And>b' k'. A b' = Some k' \<Longrightarrow>
       disj_range (block_addr h b) (4096 * blocks_for n) (block_addr h b') (4096 * k')"
    "heap_rep h (snd (heap_malloc h n m)) (A(b \<mapsto> blocks_for n))"
    using malloc_fresh_run [OF rep f] by metis
  show "\<exists>b k. fst (kzalloc h n m) = block_addr h b \<and> A b = None \<and> unat n \<le> 4096 * k \<and>
     block_addr h b \<noteq> 0 \<and>
     (\<forall>b' k'. A b' = Some k' \<longrightarrow> disj_range (block_addr h b) (4096 * k) (block_addr h b') (4096 * k')) \<and>
     heap_rep h (snd (kzalloc h n m)) (A(b \<mapsto> k))"
    using b blocks_for_bound [of n] kzalloc_eq(1) [OF rep f] kzalloc_rep(1) [OF rep f b(1,5)] by metis
  fix a
  show "snd (kzalloc h n m) a = 0" if "in_range (fst (kzalloc h n m)) (unat n) a"
    using that by (simp add: kzalloc_eq [OF rep f])
  assume o: "owned_byte (block_addr h) A a"
  then have "\<not> in_range (block_addr h b) (unat n) a"
    using b(4) in_block_range [of h b n a] disj_rangeD by (force simp: owned_byte_def)
  then show "snd (kzalloc h n m) a = m a"
    using hp.alloc_frame [OF rep f o] by (simp add: kzalloc_eq(2) [OF rep f] b(1))
next
  fix m A and n :: u32
  assume rep: "heap_rep h m A" and "0 < avail h m" and n: "0 < unat n" "unat n \<le> 4096"
  then obtain i where "i < hp_total h" "\<not> taken h m i" by (auto simp: avail_card card_gt_0_iff)
  then have "free_run h m i 1" by (auto simp: free_run_def less_Suc_eq_le dest: le_antisym)
  then show f: "heap_fits h m n"
    using n blocks_for_page [OF n] \<open>i < hp_total h\<close>
    by (auto simp: heap_fits_def intro!: exI [of _ i])
  obtain b where b: "fst (heap_malloc h n m) = block_addr h b" "A b = None" "block_addr h b \<noteq> 0"
    "\<And>b' k'. A b' = Some k' \<Longrightarrow>
       disj_range (block_addr h b) (4096 * blocks_for n) (block_addr h b') (4096 * k')"
    "heap_rep h (snd (heap_malloc h n m)) (A(b \<mapsto> blocks_for n))"
    using malloc_fresh_run [OF rep f] by metis
  show "\<exists>b. fst (kzalloc h n m) = block_addr h b \<and> A b = None \<and> block_addr h b \<noteq> 0 \<and>
     (\<forall>b' k'. A b' = Some k' \<longrightarrow> disj_range (block_addr h b) 4096 (block_addr h b') (4096 * k')) \<and>
     heap_rep h (snd (kzalloc h n m)) (A(b \<mapsto> 1)) \<and> Suc (avail h (snd (kzalloc h n m))) = avail h m"
    using b kzalloc_eq(1) [OF rep f] kzalloc_rep [OF rep f b(1,5)] avail_after [OF rep b(5,2)]
    by (intro exI [of _ b]) (simp add: blocks_for_page [OF n])
next
  fix m A m'
  assume "heap_rep h m A" "\<And>a. \<not> owned_byte (block_addr h) A a \<Longrightarrow> m' a = m a"
  then show "avail h m' = avail h m"
    using avail_cong heap_repD(1) owned_not_table by meson
next
  fix m A b k
  assume rep: "heap_rep h m A" and A: "A b = Some k"
  have eq: "(A(b := None))(b \<mapsto> k) = A" using A by (auto simp: fun_eq_iff)
  have "avail h (heap_free h (block_addr h b) m) = avail h m + k"
    by (rule avail_after [OF hp.release_rep [OF rep A], where b = b]) (use rep eq in simp_all)
  then show "avail h (kfree h (block_addr h b) m) = avail h m + k"
    by (simp add: kfree_def)
  show "heap_rep h (kfree h (block_addr h b) m) (A(b := None))"
    using hp.release_rep [OF rep A] by (simp add: kfree_def)
  fix a
  assume "owned_byte (block_addr h) A a"
  then show "kfree h (block_addr h b) m a = m a"
    using hp.release_frame [OF rep A] by (simp add: kfree_def)
qed (blast intro: heap_rep_write heap_rep_disj)+

text \<open>Runs of several blocks: everything a client needs about one in one rule.\<close>

lemma kzalloc_runE:
  assumes rep: "heap_rep h m A" and f: "heap_fits h m n"
  obtains b where "fst (kzalloc h n m) = block_addr h b" "A b = None" "block_addr h b \<noteq> 0"
    "\<And>b' k'. A b' = Some k' \<Longrightarrow> disj_range (block_addr h b) (4096 * blocks_for n) (block_addr h b') (4096 * k')"
    "heap_rep h (snd (kzalloc h n m)) (A(b \<mapsto> blocks_for n))"
    "avail h (snd (kzalloc h n m)) + blocks_for n = avail h m"
    "\<And>a. owned_byte (block_addr h) A a \<Longrightarrow> snd (kzalloc h n m) a = m a"
    "\<And>a. in_range (block_addr h b) (unat n) a \<Longrightarrow> snd (kzalloc h n m) a = 0"
proof -
  obtain b where b: "fst (heap_malloc h n m) = block_addr h b" "A b = None" "block_addr h b \<noteq> 0"
    "\<And>b' k'. A b' = Some k' \<Longrightarrow>
       disj_range (block_addr h b) (4096 * blocks_for n) (block_addr h b') (4096 * k')"
    "heap_rep h (snd (heap_malloc h n m)) (A(b \<mapsto> blocks_for n))"
    using malloc_fresh_run [OF rep f] by metis
  have e: "fst (kzalloc h n m) = block_addr h b" using kzalloc_eq(1) [OF rep f] b(1) by simp
  show thesis
    using that [OF e b(2,3) _ kzalloc_rep(1) [OF rep f b(1,5)]] b(4) kz.alloc_frame [OF rep f] kz.alloc_zero [OF rep f] e
      avail_after [OF rep kzalloc_rep(1) [OF rep f b(1,5)] b(2)] by simp
qed

text \<open>A byte that is zero stays zero: the walk of \<^verbatim>\<open>heap_mark_blocks_free\<close> only clears.\<close>

lemma mark_free_loop_clears: "m a = 0 \<Longrightarrow> heap_mark_blocks_free_loop m t i a = 0"
proof (induction m t i rule: heap_mark_blocks_free_loop.induct)
  case (1 m t i)
  then show ?case
    by (subst heap_mark_blocks_free_loop.simps) (auto simp: Let_def fun_upd_def)
qed

section \<open>The heap after kheap_init\<close>

text \<open>The value of the global \<^verbatim>\<open>kernel_heap\<close> once it is initialised.\<close>

definition kernel_heap :: heap where
  "kernel_heap = \<lparr>hp_table = \<lparr>ht_entries = LIEBE_OS_HEAP_TABLE_ADDRESS, ht_total = 25600\<rparr>,
     hp_saddr = LIEBE_OS_HEAP_ADDRESS\<rparr>"

lemma kernel_heap_simps [simp]:
  "hp_entries kernel_heap = 0x7E00" "hp_total kernel_heap = 25600" "hp_saddr kernel_heap = 0x1000000"
  "ht_total (hp_table kernel_heap) = 25600"
  by (simp_all add: kernel_heap_def)

lemma wf_kernel_heap [simp]: "wf_heap kernel_heap"
  by (simp add: wf_heap_def disj_range_def heap_validate_alignment_def)

lemma heap_rep_empty:
  assumes "wf_heap h" and "\<And>a. in_range (hp_entries h) (hp_total h) a \<Longrightarrow> m a = 0"
  shows "heap_rep h m Map.empty" and "avail h m = hp_total h"
proof -
  have b: "blk h m i = 0" if "i < hp_total h" for i
    using assms(2) in_range_of_nat [OF that] hp_total_bound [OF assms(1)] by (simp add: blk_def)
  show "heap_rep h m Map.empty" using assms(1) b by (simp add: heap_rep_def)
  have "filter (\<lambda>i. \<not> taken h m i) [0..<hp_total h] = [0..<hp_total h]"
    using b by (auto simp: filter_id_conv taken_def)
  then show "avail h m = hp_total h" by (simp add: avail_def)
qed

lemma kheap_init_eq:
  "kheap_init kh m = (kernel_heap, snd (memset m 0x7E00 0 25600), None)"
  by (simp add: kheap_init_def heap_create_def heap_validate_alignment_def heap_validate_table_def
      kernel_heap_def Let_def split_beta)

lemma kernel_heap_rep_zero: "heap_rep kernel_heap (\<lambda>_. 0) Map.empty"
  by (rule heap_rep_empty) simp_all

lemma kernel_heap_avail_zero: "avail kernel_heap (\<lambda>_. 0) = 25600"
  by (subst heap_rep_empty) simp_all

lemma kernel_heap_fits_zero: "0 < unat n \<Longrightarrow> unat n \<le> 4096 \<Longrightarrow> heap_fits kernel_heap (\<lambda>_. 0) n"
  using kz.avail_fits [OF kernel_heap_rep_zero] kernel_heap_avail_zero by simp

section \<open>Properties\<close>

text \<open>\<^verbatim>\<open>kheap_init\<close> builds, over any memory, a heap of 25600 free blocks of which nothing is
  owned, writes only its table at \<^verbatim>\<open>0x7E00\<close>, and does not report a failure.\<close>

lemma kheap_init_empty:
  "case kheap_init kh m of (h, m', msg) \<Rightarrow> msg = None \<and> h = kernel_heap
     \<and> heap_rep h m' Map.empty \<and> avail h m' = 25600
     \<and> (\<forall>a. m' a = (if in_range 0x7E00 25600 a then 0 else m a))"
proof -
  let ?m = "snd (memset m 0x7E00 0 25600)"
  have "?m a = 0" if "in_range 0x7E00 25600 a" for a using that by (simp add: memset_apply)
  then have "heap_rep kernel_heap ?m Map.empty" "avail kernel_heap ?m = 25600"
    using heap_rep_empty [of kernel_heap ?m] by simp_all
  then show ?thesis by (simp add: kheap_init_eq memset_apply)
qed

text \<open>C1. First fit: a request that fits gets the lowest run of free blocks that is long enough,
  the table then represents the old map with that run added, and no byte outside the table
  changes.\<close>

theorem heap_malloc_first_fit:
  assumes "heap_rep h m A" and "heap_fits h m sz"
  shows "\<exists>s. fst (heap_malloc h sz m) = block_addr h s \<and> free_run h m s (blocks_for sz)
      \<and> (\<forall>k. free_run h m k (blocks_for sz) \<longrightarrow> s \<le> k)
      \<and> heap_rep h (snd (heap_malloc h sz m)) (A(s \<mapsto> blocks_for sz))
      \<and> (\<forall>a. \<not> in_range (hp_entries h) (hp_total h) a \<longrightarrow> snd (heap_malloc h sz m) a = m a)"
proof -
  obtain s where s: "free_run h m s (blocks_for sz)" "\<And>k. k < s \<Longrightarrow> \<not> free_run h m k (blocks_for sz)"
    "fst (heap_malloc h sz m) = block_addr h s"
    "heap_rep h (snd (heap_malloc h sz m)) (A(s \<mapsto> blocks_for sz))"
    "\<And>a. \<not> in_range (hp_entries h) (hp_total h) a \<Longrightarrow> snd (heap_malloc h sz m) a = m a"
    using heap_malloc_rep [OF assms] by metis
  then show ?thesis by (intro exI [of _ s]) (auto simp: not_less [symmetric])
qed

theorem heap_malloc_first_fit_witness:
  "\<exists>s. fst (heap_malloc kernel_heap 100 (\<lambda>_. 0)) = block_addr kernel_heap s
     \<and> heap_rep kernel_heap (snd (heap_malloc kernel_heap 100 (\<lambda>_. 0))) [s \<mapsto> blocks_for 100]"
  using heap_malloc_first_fit [OF kernel_heap_rep_zero, of 100] kernel_heap_fits_zero [of 100]
  by auto

text \<open>C2. Releasing an owned run removes it from the map, makes exactly its blocks available
  again and changes no byte of any other owned block.\<close>

theorem heap_free_releases:
  assumes "heap_rep h m A" and "A s = Some n"
  shows "heap_rep h (heap_free h (block_addr h s) m) (A(s := None))
    \<and> avail h (heap_free h (block_addr h s) m) = avail h m + n
    \<and> (\<forall>a. owned_byte (block_addr h) A a \<longrightarrow> heap_free h (block_addr h s) m a = m a)"
  using hp.release_rep [OF assms] kz.avail_release [OF assms] hp.release_frame [OF assms]
  by (simp add: kfree_def)

text \<open>One block taken on the empty kernel heap, for the witnesses.\<close>

lemma kernel_heap_one_block:
  obtains s where "fst (heap_malloc kernel_heap 100 (\<lambda>_. 0)) = block_addr kernel_heap s"
    "heap_rep kernel_heap (snd (heap_malloc kernel_heap 100 (\<lambda>_. 0))) [s \<mapsto> blocks_for 100]"
  using malloc_fresh_run [OF kernel_heap_rep_zero kernel_heap_fits_zero [of 100]] by auto

theorem heap_free_releases_witness:
  "\<exists>s. heap_rep kernel_heap
     (heap_free kernel_heap (block_addr kernel_heap s) (snd (heap_malloc kernel_heap 100 (\<lambda>_. 0))))
     ([s \<mapsto> blocks_for 100](s := None))"
proof (rule kernel_heap_one_block)
  fix s
  assume "heap_rep kernel_heap (snd (heap_malloc kernel_heap 100 (\<lambda>_. 0))) [s \<mapsto> blocks_for 100]"
  from heap_free_releases [OF this, of s] show ?thesis by auto
qed

text \<open>C20. Round trip: freeing what \<^verbatim>\<open>heap_malloc\<close> just returned restores every byte of memory.\<close>

theorem heap_malloc_free_roundtrip:
  assumes "heap_rep h m A" and "heap_fits h m sz"
  shows "heap_free h (fst (heap_malloc h sz m)) (snd (heap_malloc h sz m)) = m"
proof
  fix a
  obtain s where s: "free_run h m s (blocks_for sz)" "fst (heap_malloc h sz m) = block_addr h s"
    "\<And>a. snd (heap_malloc h sz m) a = (if in_range (hp_entries h + of_nat s) (blocks_for sz) a
       then run_byte (blocks_for sz) (unat (a - (hp_entries h + of_nat s))) else m a)"
    using heap_mallocE [OF heap_repD(1) [OF assms(1)] assms(2)] by metis
  have pos: "0 < blocks_for sz" using assms(2) by (simp add: heap_fits_def blocks_for_pos)
  have rep: "heap_rep h (snd (heap_malloc h sz m)) (A(s \<mapsto> blocks_for sz))"
    by (rule heap_rep_alloc [OF assms(1) s(1) pos s(3)])
  have eq: "heap_free h (block_addr h s) (snd (heap_malloc h sz m)) a =
      (if in_range (hp_entries h + of_nat s) (blocks_for sz) a then 0 else m a)"
    using heap_free_apply [OF rep, of s "blocks_for sz" a] s(3) by simp
  have "m a = 0" if "in_range (hp_entries h + of_nat s) (blocks_for sz) a"
  proof -
    from that obtain i where i: "i < blocks_for sz" "a = hp_entries h + of_nat s + of_nat i"
      by (rule in_range_exE)
    then have "s + i < hp_total h" "\<not> covered A (s + i)"
      using s(1) free_run_uncovered [OF assms(1) s(1)] by (auto simp: free_run_def)
    then show ?thesis using heap_repD(6) [OF assms(1), of "s + i"] i by (simp add: blk_def add.assoc)
  qed
  then show "heap_free h (fst (heap_malloc h sz m)) (snd (heap_malloc h sz m)) a = m a"
    using eq s(2) by simp
qed

theorem heap_malloc_free_roundtrip_witness:
  "heap_free kernel_heap (fst (heap_malloc kernel_heap 100 (\<lambda>_. 0)))
     (snd (heap_malloc kernel_heap 100 (\<lambda>_. 0))) = (\<lambda>_. 0)"
  by (rule heap_malloc_free_roundtrip [OF kernel_heap_rep_zero kernel_heap_fits_zero]) simp_all

text \<open>\<^verbatim>\<open>kzalloc\<close> of at most a page, while a block is available: a fresh block that overlaps no
  owned one, its requested bytes zero, the owned bytes unchanged, one block fewer available.\<close>

lemma kzalloc_page:
  assumes "heap_rep h m A" and "0 < avail h m" and "0 < unat n" and "unat n \<le> 4096"
  shows "\<exists>b. fst (kzalloc h n m) = block_addr h b \<and> block_addr h b \<noteq> 0
      \<and> (\<forall>b' k'. A b' = Some k' \<longrightarrow> disj_range (block_addr h b) 4096 (block_addr h b') (4096 * k'))
      \<and> heap_rep h (snd (kzalloc h n m)) (A(b \<mapsto> 1))
      \<and> Suc (avail h (snd (kzalloc h n m))) = avail h m
      \<and> (\<forall>a. in_range (block_addr h b) (unat n) a \<longrightarrow> snd (kzalloc h n m) a = 0)
      \<and> (\<forall>a. owned_byte (block_addr h) A a \<longrightarrow> snd (kzalloc h n m) a = m a)"
  using kz.alloc_page [OF assms] by metis

text \<open>C39. The scan does not check the length of the last free run: if no run is long enough and
  the last block is free, \<^verbatim>\<open>heap_malloc\<close> does not fail but returns a run that ends behind the end
  of the heap, and it marks a byte behind the end of the table as taken.\<close>

theorem heap_malloc_overruns:
  assumes "wf_heap h" and "0 < unat sz" and "unat sz \<le> 4294963200" and "0 < hp_total h"
    and "\<not> taken h m (hp_total h - 1)" and "\<forall>s. \<not> free_run h m s (blocks_for sz)"
  shows "\<exists>b. b < hp_total h \<and> fst (heap_malloc h sz m) = block_addr h b
      \<and> hp_total h < b + blocks_for sz
      \<and> snd (heap_malloc h sz m) (hp_entries h + of_nat (hp_total h)) AND HEAP_BLOCK_TABLE_ENTRY_TAKEN \<noteq> 0"
proof -
  let ?tb = "heap_align_value_to_upper sz div 4096" and ?T = "hp_total h" and ?n = "blocks_for sz"
  have tb: "unat ?tb = ?n" using heap_malloc_blocks_for [OF assms(3)] .
  have "scan_result h m (unat ?tb) (heap_get_start_block_loop m (hp_table h) ?tb 0 0 (- 1))"
    using assms(1) tb blocks_for_pos [OF assms(2)]
    by (intro heap_get_start_block_scan) (auto simp: wf_heap_def)
  then obtain b where b: "b < ?T" "heap_get_start_block_loop m (hp_table h) ?tb 0 0 (- 1) = int b"
      "free_run h m b (?T - b)"
    using assms(4-6) tb unfolding scan_result_def by auto
  have long: "?T < b + ?n"
  proof (rule ccontr)
    assume "\<not> ?T < b + ?n"
    then have "free_run h m b ?n" using b(3) by (auto simp: free_run_def)
    then show False using assms(6) by blast
  qed
  have "unat sz + 4095 < 4096 * 1048576" using assms(3) by simp
  then have n: "?n < 1048576" unfolding blocks_for_def by (simp add: div_less_iff_less_mult)
  then have ci: "c_int ?tb = int ?n" using c_int_small [of ?tb] unfolding tb by linarith
  have T: "?T < 524288" using assms(1) by (simp add: wf_heap_def)
  have "in_range (hp_entries h + of_nat b) ?n (hp_entries h + of_nat ?T)"
    using table_index [of b ?n "b + ?n" ?T "hp_entries h"] long b(1) n T by simp
  then have "snd (heap_malloc h sz m) (hp_entries h + of_nat ?T) AND 1 \<noteq> 0"
    using b(2) n ci heap_mark_blocks_taken_apply [of ?n h b m "hp_entries h + of_nat ?T"]
    by (simp add: heap_malloc_def heap_malloc_blocks_def heap_get_start_block_def Let_def
        del: of_nat_unat)
  moreover have "fst (heap_malloc h sz m) = block_addr h b"
    using b(2) by (simp add: heap_malloc_def heap_malloc_blocks_def heap_get_start_block_def Let_def
        heap_block_to_address_eq)
  ultimately show ?thesis using b(1) long by blast
qed

text \<open>A heap of one block, asked for two.\<close>

definition tiny_heap :: heap where
  "tiny_heap = \<lparr>hp_table = \<lparr>ht_entries = 0x100, ht_total = 1\<rparr>, hp_saddr = 0x10000\<rparr>"

lemma tiny_heap_simps [simp]: "hp_total tiny_heap = 1" "hp_entries tiny_heap = 0x100"
  "hp_saddr tiny_heap = 0x10000" "wf_heap tiny_heap"
  by (simp_all add: tiny_heap_def wf_heap_def disj_range_def heap_validate_alignment_def)

theorem heap_malloc_overruns_witness:
  "\<exists>b<1. fst (heap_malloc tiny_heap 8192 (\<lambda>_. 0)) = block_addr tiny_heap b
      \<and> 1 < b + blocks_for 8192 \<and> snd (heap_malloc tiny_heap 8192 (\<lambda>_. 0)) 0x101 AND 1 \<noteq> 0"
proof -
  have "\<forall>s. \<not> free_run tiny_heap (\<lambda>_. 0) s (blocks_for 8192)"
    by (simp add: free_run_def blocks_for_def)
  then show ?thesis
    using heap_malloc_overruns [of tiny_heap 8192 "\<lambda>_. 0"] by (auto simp: taken_def blk_def)
qed

text \<open>Rounding up to whole blocks is exact up to \<^verbatim>\<open>0xFFFFF000\<close> and wraps to zero above, so
  that a request for almost 4 GB marks no block and returns what a request for no bytes returns.\<close>

lemma heap_malloc_rounding:
  "(unat sz \<le> 4294963200 \<longrightarrow> unat (heap_align_value_to_upper sz) = 4096 * blocks_for sz)
   \<and> (4294963200 < unat sz \<longrightarrow>
        heap_align_value_to_upper sz = 0 \<and> heap_malloc h sz m = heap_malloc h 0 m
        \<and> snd (heap_malloc h sz m) = m)"
proof (intro conjI impI)
  assume big: "4294963200 < unat sz"
  have md: "unat sz = 4096 * (unat sz div 4096) + unat sz mod 4096" by simp
  have "unat sz < 4294967296" by (rule unat_lt_u32)
  then have d: "unat sz div 4096 = 1048575" using big div_eq_bounds [of 4096 "unat sz" 1048575] by simp
  then have nz: "unat sz mod 4096 \<noteq> 0" using md big by linarith
  have "sz mod 4096 \<le> sz" unfolding word_le_nat_alt unat_mod_4096 by (rule mod_less_eq_dividend)
  then have "unat (sz - sz mod 4096) = 4294963200"
    using d md by (simp add: unat_sub unat_mod_4096)
  then have "unat (sz - sz mod 4096 + 4096) = 0" by (simp add: unat_word_ariths)
  then have "sz - sz mod 4096 + 4096 = 0" by (simp only: unat_eq_zero)
  then show a: "heap_align_value_to_upper sz = 0"
    using nz by (metis heap_align_value_to_upper_def unat_mod_4096 unsigned_0)
  then show "heap_malloc h sz m = heap_malloc h 0 m"
    by (simp add: heap_malloc_def heap_align_value_to_upper_def)
  show "snd (heap_malloc h sz m) = m"
    using a by (simp add: heap_malloc_def heap_malloc_blocks_def Let_def heap_mark_blocks_taken_def
        heap_mark_blocks_taken_loop.simps)
qed (rule heap_align_value_to_upper_unat)

text \<open>Freeing the null pointer is not a no-op: it clears the byte at \<^verbatim>\<open>0x6E00\<close>, 4096 bytes in
  front of the heap table and outside of it.\<close>

lemma kfree_null_writes:
  "kfree kernel_heap 0 m 0x6E00 = 0 \<and> \<not> in_range (hp_entries kernel_heap) (hp_total kernel_heap) 0x6E00"
proof -
  have "heap_address_to_block kernel_heap 0 = - 4096"
    by (simp add: heap_address_to_block_def kernel_heap_def)
  then show ?thesis
    by (simp add: kfree_def heap_free_def heap_mark_blocks_free_def
        heap_mark_blocks_free_loop.simps [of m] mark_free_loop_clears
        kernel_heap_def in_range_def Let_def)
qed

end
