(* ===== verification/Keyed.thy ===== *)
theory Keyed
  imports Main
begin

text \<open>
  The contract of a table that is read and written by key: page tables, the file descriptor table,
  the interrupt gates. Reading back gives the last value written, other keys are untouched, and
  writes keep the table well formed. The lemmas say what a series of writes leaves.
\<close>

locale keyed_store =
  fixes put :: "'k \<Rightarrow> 'v \<Rightarrow> 's \<Rightarrow> 's"
    and get :: "'k \<Rightarrow> 's \<Rightarrow> 'v"
    and key :: "'k \<Rightarrow> bool"
    and inv :: "'s \<Rightarrow> bool"
  assumes get_put_same: "inv s \<Longrightarrow> key k \<Longrightarrow> get k (put k v s) = v"
    and get_put_other: "inv s \<Longrightarrow> key k \<Longrightarrow> key k' \<Longrightarrow> k \<noteq> k' \<Longrightarrow> get k' (put k v s) = get k' s"
    and put_inv: "inv s \<Longrightarrow> key k \<Longrightarrow> inv (put k v s)"
begin

fun put_all :: "('k \<times> 'v) list \<Rightarrow> 's \<Rightarrow> 's" where
  "put_all [] s = s"
| "put_all ((k, v) # kvs) s = put_all kvs (put k v s)"

lemma put_all_inv: "inv s \<Longrightarrow> \<forall>x \<in> set kvs. key (fst x) \<Longrightarrow> inv (put_all kvs s)"
  by (induction kvs arbitrary: s) (auto simp: put_inv)

lemma get_put_all_other:
  "inv s \<Longrightarrow> \<forall>x \<in> set kvs. key (fst x) \<Longrightarrow> key k \<Longrightarrow> k \<notin> fst ` set kvs \<Longrightarrow>
    get k (put_all kvs s) = get k s"
  by (induction kvs arbitrary: s) (auto simp: put_inv get_put_other)

lemma get_put_all:
  "inv s \<Longrightarrow> \<forall>x \<in> set kvs. key (fst x) \<Longrightarrow> distinct (map fst kvs) \<Longrightarrow> (k, v) \<in> set kvs \<Longrightarrow>
    get k (put_all kvs s) = v"
proof (induction kvs arbitrary: s)
  case (Cons x kvs)
  obtain k0 v0 where x: "x = (k0, v0)" by force
  show ?case
  proof (cases "(k, v) = x")
    case True
    then show ?thesis using Cons.prems x get_put_all_other [of "put k v s" kvs k]
      by (simp add: put_inv get_put_same)
  next
    case False
    then show ?thesis using Cons.prems Cons.IH [of "put k0 v0 s"] x by (auto simp: put_inv)
  qed
qed simp

end

end
