(* ===== verification/Paging.thy ===== *)
theory Paging
  imports Kheap Keyed
begin

text \<open>
  \<^verbatim>\<open>src/src/memory/paging/paging.c\<close>, \<^verbatim>\<open>paging.h\<close> and \<^verbatim>\<open>paging.asm\<close>: two-level page tables in the flat
  memory. A directory is 1024 words, each the address of a page table with flag bits; a page table
  is 1024 words, each the address of a page with flag bits. The kernel reads and writes them
  through their physical addresses.
\<close>

section \<open>Data\<close>

abbreviation (input) PAGING_IS_PRESENT :: "'a::{semiring_bit_operations}" where "PAGING_IS_PRESENT \<equiv> push_bit 0 1"
abbreviation (input) PAGING_IS_WRITEABLE :: "'a::{semiring_bit_operations}" where "PAGING_IS_WRITEABLE \<equiv> push_bit 1 1"
abbreviation (input) PAGING_ACCESS_FROM_ALL :: "'a::{semiring_bit_operations}" where "PAGING_ACCESS_FROM_ALL \<equiv> push_bit 2 1"

record page_location =
  directory_index :: int
  table_index :: int

text \<open>The processor's paging state, and the static \<^verbatim>\<open>current_directory\<close>.\<close>

record paging_cpu =
  cr0 :: u32
  cr3 :: ptr
  current_directory :: ptr

section \<open>Operations\<close>

definition paging_load_directory :: "ptr \<Rightarrow> paging_cpu \<Rightarrow> paging_cpu" where
  "paging_load_directory directory c = c\<lparr>cr3 := directory\<rparr>"

definition enable_paging :: "paging_cpu \<Rightarrow> paging_cpu" where
  "enable_paging c = c\<lparr>cr0 := cr0 c OR 0x80000000\<rparr>"

definition page_switch :: "ptr \<Rightarrow> paging_cpu \<Rightarrow> paging_cpu" where
  "page_switch directory c = (paging_load_directory directory c)\<lparr>current_directory := directory\<rparr>"

text \<open>The inner loop of \<^verbatim>\<open>create_new_page_directory\<close>, filling one page table.\<close>

definition page_table_fill :: "ptr \<Rightarrow> u32 \<Rightarrow> u8 \<Rightarrow> mem \<Rightarrow> mem" where
  "page_table_fill table offset flags m =
     fold (\<lambda>b m. store32 m (table + of_nat (4 * b)) ((offset + of_nat (b * PAGE_SIZE)) OR ucast flags))
       [0..<TABLE_ENTRIES_COUNT] m"

text \<open>One turn of the outer loop: a new table, filled and entered in the directory.\<close>

definition page_directory_turn :: "heap \<Rightarrow> ptr \<Rightarrow> u8 \<Rightarrow> nat \<Rightarrow> u32 \<times> mem \<Rightarrow> u32 \<times> mem" where
  "page_directory_turn h directory flags i = (\<lambda>(offset, m).
     let (table, m) = kzalloc h (4 * TABLE_ENTRIES_COUNT) m;
         m = page_table_fill table offset flags m;
         offset = offset + TABLE_ENTRIES_COUNT * PAGE_SIZE
     in (offset, store32 m (directory + of_nat (4 * i)) (table OR ucast flags OR PAGING_IS_WRITEABLE)))"

definition create_new_page_directory :: "heap \<Rightarrow> u8 \<Rightarrow> mem \<Rightarrow> ptr \<times> mem" where
  "create_new_page_directory h flags m =
     (let (directory, m) = kzalloc h (4 * TABLE_ENTRIES_COUNT) m;
          (offset, m) = fold (page_directory_turn h directory flags) [0..<TABLE_ENTRIES_COUNT] (0, m);
          (page_directory_obj, m) = kzalloc h 4 m
      in (page_directory_obj, store32 m page_directory_obj directory))"

definition get_page_directory_entry :: "ptr \<Rightarrow> mem \<Rightarrow> ptr" where
  "get_page_directory_entry chunk m = load32 m chunk"

definition is_page_aligned :: "ptr \<Rightarrow> bool" where
  "is_page_aligned a \<longleftrightarrow> a mod PAGE_SIZE = 0"

definition get_page_indexs :: "ptr \<Rightarrow> page_location" where
  "get_page_indexs virt_addr =
     (if \<not> is_page_aligned virt_addr then \<lparr>directory_index = - 1, table_index = - 1\<rparr>
      else \<lparr>directory_index = c_int (virt_addr div (TABLE_ENTRIES_COUNT * PAGE_SIZE)),
            table_index = c_int (virt_addr mod (TABLE_ENTRIES_COUNT * PAGE_SIZE) div PAGE_SIZE)\<rparr>)"

definition paging_set :: "ptr \<Rightarrow> ptr \<Rightarrow> u32 \<Rightarrow> mem \<Rightarrow> int \<times> mem" where
  "paging_set directory virt v m =
     (if \<not> is_page_aligned virt then (- EINVARG, m)
      else
        let loc = get_page_indexs virt
        in if table_index loc = - 1 \<or> directory_index loc = - 1 then (- EINVARG, m)
           else
             let entry = load32 m (directory + 4 * c_uint (directory_index loc));
                 table = entry AND 0xfffff000
             in (0, store32 m (table + 4 * c_uint (table_index loc)) v))"

definition paging_free_4gb :: "heap \<Rightarrow> ptr \<Rightarrow> mem \<Rightarrow> mem" where
  "paging_free_4gb h chunk m =
     (let m = fold (\<lambda>i m. let entry = load32 m (load32 m chunk + of_nat (4 * i));
                              table = entry AND 0xfffff000
                          in kfree h table m) [0..<1024] m;
          m = kfree h (load32 m chunk) m
      in kfree h chunk m)"

definition paging_align_address :: "ptr \<Rightarrow> ptr" where
  "paging_align_address p = (if p mod PAGE_SIZE \<noteq> 0 then p + PAGE_SIZE - p mod PAGE_SIZE else p)"

definition paging_map :: "ptr \<Rightarrow> ptr \<Rightarrow> ptr \<Rightarrow> u32 \<Rightarrow> mem \<Rightarrow> int \<times> mem" where
  "paging_map directory virt phys flags m =
     (if virt mod PAGE_SIZE \<noteq> 0 \<or> phys mod PAGE_SIZE \<noteq> 0 then (- EINVARG, m)
      else paging_set directory virt (phys OR flags) m)"

fun paging_map_range_loop ::
    "ptr \<Rightarrow> ptr \<Rightarrow> ptr \<Rightarrow> nat \<Rightarrow> u32 \<Rightarrow> int \<Rightarrow> mem \<Rightarrow> int \<times> mem" where
  "paging_map_range_loop directory virt phys 0 flags res m = (res, m)"
| "paging_map_range_loop directory virt phys (Suc count) flags res m =
     (let (res, m) = paging_map directory virt phys flags m
      in if res < 0 then (res, m)
         else paging_map_range_loop directory (virt + PAGE_SIZE) (phys + PAGE_SIZE) count flags res m)"

definition paging_map_range :: "ptr \<Rightarrow> ptr \<Rightarrow> ptr \<Rightarrow> int \<Rightarrow> u32 \<Rightarrow> mem \<Rightarrow> int \<times> mem" where
  "paging_map_range directory virt phys count flags m =
     paging_map_range_loop directory virt phys (nat count) flags 0 m"

definition paging_map_to :: "ptr \<Rightarrow> ptr \<Rightarrow> ptr \<Rightarrow> ptr \<Rightarrow> u32 \<Rightarrow> mem \<Rightarrow> int \<times> mem" where
  "paging_map_to directory virt phys phys_end flags m =
     (if virt mod PAGE_SIZE \<noteq> 0 then (- EINVARG, m)
      else if phys mod PAGE_SIZE \<noteq> 0 then (- EINVARG, m)
      else if phys_end mod PAGE_SIZE \<noteq> 0 then (- EINVARG, m)
      else if phys_end < phys then (- EINVARG, m)
      else
        let total_bytes = phys_end - phys;
            total_pages = c_int (total_bytes div PAGE_SIZE)
        in paging_map_range directory virt phys total_pages flags m)"

definition paging_get :: "ptr \<Rightarrow> ptr \<Rightarrow> mem \<Rightarrow> u32" where
  "paging_get directory virt m =
     (let loc = get_page_indexs virt;
          entry = load32 m (directory + 4 * c_uint (directory_index loc));
          table = entry AND 0xfffff000
      in load32 m (table + 4 * c_uint (table_index loc)))"

definition paging_align_to_lower_page :: "ptr \<Rightarrow> ptr" where
  "paging_align_to_lower_page a = a - a mod PAGE_SIZE"

definition paging_get_physical_address :: "ptr \<Rightarrow> ptr \<Rightarrow> mem \<Rightarrow> ptr" where
  "paging_get_physical_address directory virt m =
     (let virt_addr_new = paging_align_to_lower_page virt;
          diff = virt - virt_addr_new
      in (paging_get directory virt_addr_new m AND 0xfffff000) + diff)"

section \<open>Entries\<close>

text \<open>The mask \<^verbatim>\<open>0xfffff000\<close> drops the flag bits.\<close>

lemma page_mask_not: "(0xfffff000 :: u32) = NOT (mask 12)"
  by (simp add: mask_eq_exp_minus_1 word_uint_eq_iff)

lemma page_mask: "w AND 0xfffff000 = w - w mod 4096" for w :: u32
proof -
  have "w AND 0xfffff000 = w AND NOT (mask 12)" by (simp only: page_mask_not)
  moreover have "(w AND NOT (mask 12)) + (w AND mask 12) = w"
    by (subst disjunctive_add) (auto simp: bit_simps bit_eq_iff)
  moreover have "w AND mask 12 = w mod 4096"
    by (simp add: take_bit_eq_mask [symmetric] take_bit_eq_mod)
  ultimately show ?thesis by (simp add: algebra_simps)
qed

lemma page_mask_or:
  assumes "p mod 4096 = 0" and "f < 4096"
  shows "(p OR f) AND 0xfffff000 = (p :: u32)"
proof -
  have m: "w AND mask 12 = w mod 4096" for w :: u32
    by (simp add: take_bit_eq_mask [symmetric] take_bit_eq_mod)
  have p: "p AND mask 12 = 0" using assms(1) m by simp
  have f: "f AND mask 12 = f" using assms(2) m by (simp add: mod_word_less)
  have "(p OR f) AND NOT (mask 12) = p"
  proof (rule bit_word_eqI)
    fix n assume n: "n < LENGTH(32)"
    have "bit (p AND mask 12) n = bit (0 :: u32) n" "bit (f AND mask 12) n = bit f n"
      by (simp_all only: p f)
    then show "bit ((p OR f) AND NOT (mask 12)) n = bit p n"
      using n by (auto simp: bit_simps)
  qed
  then show ?thesis by (simp only: page_mask_not)
qed

definition pde_index :: "ptr \<Rightarrow> nat" where
  "pde_index v = unat v div 4194304"

definition pte_index :: "ptr \<Rightarrow> nat" where
  "pte_index v = unat v mod 4194304 div 4096"

definition table_of :: "mem \<Rightarrow> ptr \<Rightarrow> nat \<Rightarrow> ptr" where
  "table_of m dir i = load32 m (dir + of_nat (4 * i)) AND 0xfffff000"

definition pte_addr :: "mem \<Rightarrow> ptr \<Rightarrow> ptr \<Rightarrow> ptr" where
  "pte_addr m dir v = table_of m dir (pde_index v) + of_nat (4 * pte_index v)"

text \<open>
  A well-formed page directory: its 1024 tables overlap neither the directory nor each other. This
  is what \<^verbatim>\<open>create_new_page_directory\<close> establishes and what every write of an entry keeps.
\<close>

definition wf_pgd :: "ptr \<Rightarrow> mem \<Rightarrow> bool" where
  "wf_pgd dir m \<longleftrightarrow> (\<forall>i<1024. disj_range dir 4096 (table_of m dir i) 4096
     \<and> (\<forall>j<1024. i \<noteq> j \<longrightarrow> disj_range (table_of m dir i) 4096 (table_of m dir j) 4096))"

lemma pde_index_lt: "pde_index v < 1024"
  using unat_lt_u32 [of v] unfolding pde_index_def by (intro less_mult_imp_div_less) simp

lemma pte_index_lt: "pte_index v < 1024"
  unfolding pte_index_def by (intro less_mult_imp_div_less) simp

lemma is_page_aligned_unat: "is_page_aligned v \<longleftrightarrow> unat v mod 4096 = 0"
  unfolding is_page_aligned_def unat_mod_4096 [symmetric] by (simp only: unat_eq_zero)

lemma page_indices_inject:
  assumes "is_page_aligned v" and "is_page_aligned w"
    and "pde_index v = pde_index w" and "pte_index v = pte_index w"
  shows "v = w"
proof -
  have d: "x = 4194304 * (x div 4194304) + 4096 * (x mod 4194304 div 4096)" if "x mod 4096 = 0" for x :: nat
  proof -
    have "x mod 4194304 mod 4096 = 0" using that by (simp add: mod_mod_cancel)
    then show ?thesis using mult_div_mod_eq [of 4194304 x] mult_div_mod_eq [of 4096 "x mod 4194304"]
      by linarith
  qed
  have "unat v = unat w"
    using d [of "unat v"] d [of "unat w"] assms unfolding is_page_aligned_unat pde_index_def pte_index_def
    by metis
  then show ?thesis by (simp only: unsigned_word_eqI)
qed

lemma get_page_indexs_aligned:
  assumes "is_page_aligned v"
  shows "directory_index (get_page_indexs v) = int (pde_index v)"
    and "table_index (get_page_indexs v) = int (pte_index v)"
proof -
  have u: "unat (v div 4194304) = pde_index v" "unat (v mod 4194304 div 4096) = pte_index v"
    by (simp_all add: pde_index_def pte_index_def unat_div unat_mod)
  have "c_int (v div 4194304) = int (pde_index v)" "c_int (v mod 4194304 div 4096) = int (pte_index v)"
    using c_int_small [of "v div 4194304"] c_int_small [of "v mod 4194304 div 4096"]
      pde_index_lt [of v] pte_index_lt [of v] unfolding u by linarith+
  then show "directory_index (get_page_indexs v) = int (pde_index v)"
    "table_index (get_page_indexs v) = int (pte_index v)"
    using assms by (simp_all add: get_page_indexs_def)
qed

lemma paging_set_eq:
  "is_page_aligned v \<Longrightarrow> paging_set dir v x m = (0, store32 m (pte_addr m dir v) x)"
  by (simp add: paging_set_def get_page_indexs_aligned Let_def pte_addr_def table_of_def)

lemma paging_get_eq: "is_page_aligned v \<Longrightarrow> paging_get dir v m = load32 m (pte_addr m dir v)"
  by (simp add: paging_get_def get_page_indexs_aligned Let_def pte_addr_def table_of_def)

lemma word_in_page: "i < 1024 \<Longrightarrow> in_range (p + of_nat (4 * i)) 4 a \<Longrightarrow> in_range p 4096 a"
  by (rule in_range_offset [OF in_range_of_nat]) (simp_all add: unat_of_nat del: of_nat_mult)

lemma words_of_pages_disj:
  assumes "disj_range p 4096 q 4096" and "i < 1024" and "j < 1024"
  shows "disj_range (p + of_nat (4 * i)) 4 (q + of_nat (4 * j)) 4"
proof (rule disj_rangeI)
  fix a assume "in_range (p + of_nat (4 * i)) 4 a" "in_range (q + of_nat (4 * j)) 4 a"
  then show False using disj_rangeD [OF assms(1)] word_in_page assms(2,3) by blast
qed

lemma pte_addr_store:
  assumes "wf_pgd dir m" and "i < 1024"
  shows "table_of (store32 m (pte_addr m dir v) x) dir i = table_of m dir i"
proof -
  have "disj_range (table_of m dir (pde_index v)) 4096 dir 4096"
    using assms(1) pde_index_lt [of v] disj_range_sym by (auto simp: wf_pgd_def)
  from words_of_pages_disj [OF this pte_index_lt assms(2)] show ?thesis
    unfolding table_of_def pte_addr_def by (simp add: load32_store32_disj)
qed

lemma wf_pgd_store: "wf_pgd dir m \<Longrightarrow> wf_pgd dir (store32 m (pte_addr m dir v) x)"
  using pte_addr_store by (simp add: wf_pgd_def)

lemma pte_addr_disj:
  assumes "wf_pgd dir m" and "is_page_aligned v" and "is_page_aligned w" and "v \<noteq> w"
  shows "disj_range (pte_addr m dir v) 4 (pte_addr m dir w) 4"
proof (cases "pde_index v = pde_index w")
  case True
  then have "pte_index v \<noteq> pte_index w" using page_indices_inject assms(2-4) by blast
  then show ?thesis using True pte_index_lt [of v] pte_index_lt [of w]
    unfolding pte_addr_def by (simp only:) (rule word_index_disj; simp)
next
  case False
  then have "disj_range (table_of m dir (pde_index v)) 4096 (table_of m dir (pde_index w)) 4096"
    using assms(1) pde_index_lt by (auto simp: wf_pgd_def)
  then show ?thesis unfolding pte_addr_def by (rule words_of_pages_disj [OF _ pte_index_lt pte_index_lt])
qed

interpretation pt: keyed_store "\<lambda>v x m. snd (paging_set dir v x m)" "\<lambda>v m. paging_get dir v m"
    is_page_aligned "wf_pgd dir" for dir
proof unfold_locales
  fix m v x assume m: "wf_pgd dir m" and v: "is_page_aligned v"
  show "wf_pgd dir (snd (paging_set dir v x m))"
    using m v by (simp add: paging_set_eq wf_pgd_store)
  show "paging_get dir v (snd (paging_set dir v x m)) = x"
    using m v pte_addr_store [OF m pde_index_lt]
    by (simp add: paging_set_eq paging_get_eq pte_addr_def mem_simps)
  fix w assume w: "is_page_aligned w" and ne: "v \<noteq> w"
  show "paging_get dir w (snd (paging_set dir v x m)) = paging_get dir w m"
    using m v w ne pte_addr_store [OF m pde_index_lt] pte_addr_disj [OF m v w ne]
    by (simp add: paging_set_eq paging_get_eq pte_addr_def mem_simps)
qed

section \<open>Mapping ranges\<close>

text \<open>The entries \<^verbatim>\<open>paging_map_range\<close> writes.\<close>

definition map_entries :: "ptr \<Rightarrow> ptr \<Rightarrow> nat \<Rightarrow> u32 \<Rightarrow> (ptr \<times> u32) list" where
  "map_entries virt phys n flags =
     map (\<lambda>i. (virt + of_nat (4096 * i), (phys + of_nat (4096 * i)) OR flags)) [0..<n]"

lemma map_entries_Suc:
  "map_entries virt phys (Suc n) flags =
     (virt, phys OR flags) # map_entries (virt + 4096) (phys + 4096) n flags"
  unfolding map_entries_def upt_conv_Cons [OF zero_less_Suc]
  by (simp add: map_Suc_upt [symmetric] algebra_simps del: upt_Suc)

lemma unat_add_mod_page: "unat (p + of_nat k :: u32) mod 4096 = (unat p + k) mod 4096"
proof -
  have "unat (p + of_nat k) = (unat p + k) mod 4294967296"
    by (simp add: unat_word_ariths unat_of_nat mod_add_right_eq)
  then show ?thesis by (simp add: mod_mod_cancel)
qed

lemma unat_numeral_4096: "unat (4096 :: u32) = 4096"
  by simp

lemma is_page_aligned_add: "is_page_aligned v \<Longrightarrow> is_page_aligned (v + of_nat (4096 * i))"
  unfolding is_page_aligned_unat unat_add_mod_page by simp

lemma paging_map_aligned:
  "is_page_aligned virt \<Longrightarrow> is_page_aligned phys \<Longrightarrow>
    paging_map dir virt phys flags m = paging_set dir virt (phys OR flags) m"
  by (simp add: paging_map_def is_page_aligned_def)

lemma paging_map_range_loop_eq:
  "is_page_aligned virt \<Longrightarrow> is_page_aligned phys \<Longrightarrow>
    paging_map_range_loop dir virt phys n flags 0 m =
      (0, pt.put_all dir (map_entries virt phys n flags) m)"
proof (induction n arbitrary: virt phys m)
  case 0
  show ?case by (simp add: map_entries_def)
next
  case (Suc n)
  have "is_page_aligned (virt + 4096)" "is_page_aligned (phys + 4096)"
    using is_page_aligned_add [of virt 1] is_page_aligned_add [of phys 1] Suc.prems by simp_all
  then show ?case
    using Suc.IH Suc.prems by (simp add: paging_map_aligned paging_set_eq map_entries_Suc)
qed

lemma map_entries_keys:
  assumes "is_page_aligned virt" and "n \<le> 1048576"
  shows "\<forall>x\<in>set (map_entries virt phys n flags). is_page_aligned (fst x)"
    and "distinct (map fst (map_entries virt phys n flags))"
proof -
  show "\<forall>x\<in>set (map_entries virt phys n flags). is_page_aligned (fst x)"
    using is_page_aligned_add [OF assms(1)] by (auto simp: map_entries_def simp del: of_nat_mult)
  have "inj_on (\<lambda>i. virt + of_nat (4096 * i)) {0..<n}"
  proof (rule inj_onI)
    fix i j assume "i \<in> {0..<n}" "j \<in> {0..<n}" "virt + of_nat (4096 * i) = virt + of_nat (4096 * j)"
    then have "(of_nat (4096 * i) :: u32) = of_nat (4096 * j)" "4096 * i < 4294967296" "4096 * j < 4294967296"
      using assms(2) by simp_all
    then show "i = j" using unat_of_nat_u32 [of "4096 * i"] unat_of_nat_u32 [of "4096 * j"] by simp
  qed
  then show "distinct (map fst (map_entries virt phys n flags))"
    by (simp add: map_entries_def comp_def distinct_map del: of_nat_mult)
qed

lemma paging_map_range_get:
  fixes flags :: u32
  assumes "wf_pgd dir m" and "is_page_aligned virt" and "is_page_aligned phys"
    and "0 \<le> count" and "count \<le> 1048576"
  defines "r \<equiv> paging_map_range dir virt phys count flags m"
  shows "fst r = 0" and "wf_pgd dir (snd r)"
    and "i < nat count \<Longrightarrow> paging_get dir (virt + of_nat (4096 * i)) (snd r) =
           (phys + of_nat (4096 * i)) OR flags"
    and "is_page_aligned w \<Longrightarrow> \<forall>i<nat count. w \<noteq> virt + of_nat (4096 * i) \<Longrightarrow>
           paging_get dir w (snd r) = paging_get dir w m"
proof -
  let ?kvs = "map_entries virt phys (nat count) flags"
  have n: "nat count \<le> 1048576" using assms(5) by simp
  have r: "r = (0, pt.put_all dir ?kvs m)"
    unfolding r_def paging_map_range_def by (rule paging_map_range_loop_eq [OF assms(2,3)])
  show "fst r = 0" by (simp add: r)
  show "wf_pgd dir (snd r)"
    unfolding r snd_conv by (rule pt.put_all_inv [OF assms(1) map_entries_keys(1) [OF assms(2) n]])
  show "paging_get dir (virt + of_nat (4096 * i)) (snd r) = (phys + of_nat (4096 * i)) OR flags"
    if "i < nat count"
    unfolding r snd_conv
    by (rule pt.get_put_all [OF assms(1) map_entries_keys [OF assms(2) n]])
      (use that in \<open>auto simp: map_entries_def\<close>)
  show "paging_get dir w (snd r) = paging_get dir w m"
    if "is_page_aligned w" "\<forall>i<nat count. w \<noteq> virt + of_nat (4096 * i)"
    unfolding r snd_conv
    by (rule pt.get_put_all_other [OF assms(1) map_entries_keys(1) [OF assms(2) n] that(1)])
      (use that(2) in \<open>auto simp: map_entries_def\<close>)
qed

section \<open>Translation\<close>

lemma unat_lower_page: "unat (paging_align_to_lower_page a) = 4096 * (unat a div 4096)"
proof -
  have "a mod 4096 \<le> a" unfolding word_le_nat_alt unat_mod_4096 by (rule mod_less_eq_dividend)
  then have "unat (a - a mod 4096) = unat a - unat a mod 4096" by (simp add: unat_sub unat_mod_4096)
  then show ?thesis unfolding paging_align_to_lower_page_def using minus_mod_eq_mult_div by metis
qed

lemma lower_page_aligned: "is_page_aligned (paging_align_to_lower_page a)"
  by (simp add: is_page_aligned_unat unat_lower_page)

lemma lower_page_diff: "unat (a - paging_align_to_lower_page a) = unat a mod 4096"
proof -
  have "a - paging_align_to_lower_page a = a mod 4096" by (simp add: paging_align_to_lower_page_def)
  then show ?thesis by (simp only: unat_mod_4096)
qed

lemma physical_of_entry:
  assumes "is_page_aligned p" and "f < 4096"
    and "paging_get dir (paging_align_to_lower_page v) m = p OR f"
  shows "paging_get_physical_address dir v m = p + (v - paging_align_to_lower_page v)"
  using assms by (simp add: paging_get_physical_address_def Let_def page_mask_or is_page_aligned_def)

text \<open>An address of the range is in the page of its quotient.\<close>

lemma lower_page_in_range:
  assumes "is_page_aligned virt" and "k < 4096 * n" and "n \<le> 1048576"
  shows "paging_align_to_lower_page (virt + of_nat k) = virt + of_nat (4096 * (k div 4096))"
proof -
  let ?v = "virt + of_nat k"
  have "unat ?v mod 4096 = k mod 4096"
    using assms(1) mod_add_left_eq [of "unat virt" 4096 k]
    unfolding is_page_aligned_unat unat_add_mod_page by simp
  moreover have "?v mod 4096 = of_nat (unat ?v mod 4096)"
    using word_arith_nat_mod [of ?v 4096] by (simp only: unat_numeral_4096)
  ultimately have "?v mod 4096 = of_nat (k mod 4096)" by (simp only:)
  moreover have "of_nat k = (of_nat (4096 * (k div 4096)) + of_nat (k mod 4096) :: u32)"
    unfolding of_nat_add [symmetric] by simp
  ultimately show ?thesis by (simp only: paging_align_to_lower_page_def) simp
qed

lemma paging_map_range_bytes:
  assumes "wf_pgd dir m" and "is_page_aligned virt" and "is_page_aligned phys"
    and "0 \<le> count" and "count \<le> 1048576" and "flags < 4096"
    and "paging_map_range dir virt phys count flags m = (res, m')"
  shows "res = 0 \<and> wf_pgd dir m'
    \<and> (\<forall>k < 4096 * nat count. paging_get_physical_address dir (virt + of_nat k) m' = phys + of_nat k)
    \<and> (\<forall>w. is_page_aligned w \<and> (\<forall>i<nat count. w \<noteq> virt + of_nat (4096 * i)) \<longrightarrow>
         paging_get dir w m' = paging_get dir w m)"
proof (intro conjI allI impI)
  note r = paging_map_range_get [OF assms(1-5), where flags = flags, unfolded assms(7) fst_conv snd_conv]
  show "res = 0" "wf_pgd dir m'" using r(1,2) by simp_all
  show "paging_get dir w m' = paging_get dir w m"
    if "is_page_aligned w \<and> (\<forall>i<nat count. w \<noteq> virt + of_nat (4096 * i))" for w
    using r(4) that by blast
  fix k assume k: "k < 4096 * nat count"
  then have i: "k div 4096 < nat count" by (simp add: div_less_iff_less_mult mult.commute)
  let ?o = "of_nat (4096 * (k div 4096)) :: u32"
  have lp: "paging_align_to_lower_page (virt + of_nat k) = virt + ?o"
    by (rule lower_page_in_range [OF assms(2) k]) (use assms(5) in simp)
  have "paging_get_physical_address dir (virt + of_nat k) m'
      = phys + ?o + (virt + of_nat k - paging_align_to_lower_page (virt + of_nat k))"
    by (rule physical_of_entry [OF is_page_aligned_add [OF assms(3)] assms(6)])
      (unfold lp, rule r(3) [OF i])
  also have "\<dots> = phys + of_nat k" unfolding lp by (simp add: algebra_simps)
  finally show "paging_get_physical_address dir (virt + of_nat k) m' = phys + of_nat k" .
qed

lemma paging_map_to_pages:
  assumes "is_page_aligned virt" and "is_page_aligned phys" and "unat phys + 4096 * n < 4294967296"
  shows "paging_map_to dir virt phys (phys + of_nat (4096 * n)) flags m = paging_map_range dir virt phys (int n) flags m"
proof -
  let ?e = "phys + of_nat (4096 * n)"
  have u: "unat (of_nat (4096 * n) :: u32) = 4096 * n" using assms(3) by (intro unat_of_nat_u32) simp
  have ue: "unat ?e = unat phys + 4096 * n"
    using u assms(3) by (simp only: unat_word_ariths) simp
  have "unat (of_nat (4096 * n) div 4096 :: u32) = n" unfolding unat_div_4096 u by simp
  moreover have "n < 2147483648" using assms(3) by linarith
  ultimately have "c_int (of_nat (4096 * n) div 4096) = int n" using c_int_small by metis
  moreover have "\<not> ?e < phys" unfolding word_less_nat_alt ue by simp
  moreover have "is_page_aligned ?e" using is_page_aligned_add [OF assms(2)] .
  ultimately show ?thesis using assms(1,2) by (simp add: paging_map_to_def is_page_aligned_def Let_def del: of_nat_mult)
qed

text \<open>Mapping a range makes its virtual addresses translate to the physical ones, byte for byte,
  returns 0 and leaves the entries of all other pages as they were.\<close>

lemma paging_map_range_translates:
  assumes "wf_pgd dir m" and "is_page_aligned virt" and "is_page_aligned phys"
    and "0 \<le> count" and "count \<le> 1048576" and "flags < 4096"
    and "paging_map_range dir virt phys count flags m = (res, m')"
  shows "res = 0 \<and> wf_pgd dir m'
    \<and> (\<forall>k < 4096 * nat count. paging_get_physical_address dir (virt + of_nat k) m' = phys + of_nat k)
    \<and> (\<forall>w. is_page_aligned w \<and> (\<forall>i<nat count. w \<noteq> virt + of_nat (4096 * i)) \<longrightarrow>
         paging_get dir w m' = paging_get dir w m)"
  using paging_map_range_bytes [OF assms] .

text \<open>C10. \<^verbatim>\<open>paging_map_to\<close> refuses misaligned addresses and an end in front of the start without
  touching memory; otherwise every byte of the physical interval is reached at the same distance
  from the virtual start.\<close>

theorem paging_map_to_translates:
  assumes "wf_pgd dir m" and "flags < 4096"
  shows "if is_page_aligned virt \<and> is_page_aligned phys \<and> is_page_aligned phys_end \<and> phys \<le> phys_end
    then fst (paging_map_to dir virt phys phys_end flags m) = 0
      \<and> wf_pgd dir (snd (paging_map_to dir virt phys phys_end flags m))
      \<and> (\<forall>a. phys \<le> a \<and> a < phys_end \<longrightarrow>
           paging_get_physical_address dir (virt + (a - phys))
             (snd (paging_map_to dir virt phys phys_end flags m)) = a)
    else paging_map_to dir virt phys phys_end flags m = (- EINVARG, m)"
proof (cases "is_page_aligned virt \<and> is_page_aligned phys \<and> is_page_aligned phys_end \<and> phys \<le> phys_end")
  case True
  let ?b = "phys_end - phys"
  have ub: "unat ?b = unat phys_end - unat phys" using True by (simp add: unat_sub)
  have le: "unat phys \<le> unat phys_end" using True by (simp add: word_le_nat_alt)
  have al: "unat phys mod 4096 = 0" "unat phys_end mod 4096 = 0"
    using True by (simp_all add: is_page_aligned_unat)
  have "unat (?b div 4096) = unat ?b div 4096" by (simp only: unat_div_4096)
  then have d: "unat (?b div 4096) = unat ?b div 4096" "unat ?b div 4096 < 1048576"
    using unat_lt_u32 [of ?b] by (auto intro: less_mult_imp_div_less)
  have ci: "c_int (?b div 4096) = int (unat ?b div 4096)"
    using c_int_small [of "?b div 4096"] unfolding d(1) using d(2) by linarith
  have "4096 dvd unat ?b" unfolding ub using al by (intro dvd_diff_nat) (simp_all add: mod_eq_0_iff_dvd)
  then have bm: "4096 * (unat ?b div 4096) = unat ?b" by (rule dvd_mult_div_cancel)
  define n where "n = int (unat ?b div 4096)"
  obtain res m' where r: "paging_map_range dir virt phys n flags m = (res, m')" by force
  have n: "0 \<le> n" "n \<le> 1048576" "nat n = unat ?b div 4096" using d(2) by (simp_all add: n_def)
  note tr = paging_map_range_bytes [OF assms(1) _ _ n(1,2) assms(2) r]
  have eq: "paging_map_to dir virt phys phys_end flags m = (res, m')"
    using True ci r by (simp add: paging_map_to_def is_page_aligned_def Let_def n_def not_less [symmetric])
  have "paging_get_physical_address dir (virt + (a - phys)) m' = a" if "phys \<le> a" "a < phys_end" for a
  proof -
    have k: "unat (a - phys) < 4096 * nat n"
      using that unfolding n(3) bm unfolding ub
      by (simp add: unat_sub word_le_nat_alt word_less_nat_alt diff_less_mono)
    have "paging_get_physical_address dir (virt + of_nat (unat (a - phys))) m' = phys + of_nat (unat (a - phys))"
      using tr True k by blast
    then show ?thesis by simp
  qed
  then show ?thesis using True tr eq by simp
next
  case False
  then show ?thesis by (auto simp: paging_map_to_def is_page_aligned_def not_le)
qed

section \<open>Page directories in the heap\<close>

text \<open>\<open>own_pages A S\<close>: the map \<open>A\<close> of owned runs with the one-page blocks of \<open>S\<close> added.\<close>

definition own_pages :: "(nat \<rightharpoonup> nat) \<Rightarrow> nat set \<Rightarrow> nat \<rightharpoonup> nat" where
  "own_pages A S = (\<lambda>b. if b \<in> S then Some 1 else A b)"

lemma own_pages_simps [simp]:
  "own_pages A {} = A" "(own_pages A S)(b \<mapsto> 1) = own_pages A (insert b S)"
  "b \<in> S \<Longrightarrow> own_pages A S b = Some 1" "b \<notin> S \<Longrightarrow> own_pages A S b = A b"
  by (auto simp: own_pages_def)

lemma own_pages_release: "A b = None \<Longrightarrow> (own_pages A S)(b := None) = own_pages A (S - {b})"
  by (auto simp: own_pages_def)

lemma own_pages_owned: "own_pages A S b = Some k \<Longrightarrow> A b = None \<Longrightarrow> b \<in> S \<and> k = 1"
  by (auto simp: own_pages_def split: if_splits)

text \<open>A directory object \<open>ob\<close>, its directory \<open>db\<close> and the tables \<open>bs\<close>, in blocks of the heap.\<close>

definition pgd_at :: "heap \<Rightarrow> mem \<Rightarrow> (nat \<rightharpoonup> nat) \<Rightarrow> nat \<Rightarrow> nat \<Rightarrow> nat list \<Rightarrow> bool" where
  "pgd_at h m A ob db bs \<longleftrightarrow> heap_rep h m (own_pages A (insert ob (insert db (set bs))))
     \<and> distinct (ob # db # bs) \<and> (\<forall>b \<in> insert ob (insert db (set bs)). A b = None)
     \<and> length bs = 1024 \<and> load32 m (block_addr h ob) = block_addr h db
     \<and> (\<forall>i<1024. table_of m (block_addr h db) i = block_addr h (bs ! i))"

lemma pgd_atD:
  assumes "pgd_at h m A ob db bs"
  shows "heap_rep h m (own_pages A (insert ob (insert db (set bs))))"
    and "distinct bs" "ob \<notin> set bs" "db \<notin> set bs" "ob \<noteq> db"
    and "A ob = None" "A db = None" "b \<in> set bs \<Longrightarrow> A b = None"
    and "length bs = 1024" "load32 m (block_addr h ob) = block_addr h db"
    and "i < 1024 \<Longrightarrow> table_of m (block_addr h db) i = block_addr h (bs ! i)"
    and "i < 1024 \<Longrightarrow> bs ! i \<in> set bs"
  using assms by (auto simp: pgd_at_def)

lemma pages_disj:
  assumes "heap_rep h m (own_pages A S)" and "b \<in> S" and "b' \<in> S" and "b \<noteq> b'"
  shows "disj_range (block_addr h b) 4096 (block_addr h b') 4096"
  using heap_rep_disj [OF assms(1), of b 1 b' 1] assms(2-4) by simp

lemma wf_pgd_pgd_at:
  assumes "pgd_at h m A ob db bs"
  shows "wf_pgd (block_addr h db) m"
proof -
  note d = pgd_atD [OF assms]
  have "disj_range (block_addr h db) 4096 (block_addr h (bs ! i)) 4096" if "i < 1024" for i
    by (rule pages_disj [OF d(1)]) (use d(4) d(12) [OF that] in auto)
  moreover have "disj_range (block_addr h (bs ! i)) 4096 (block_addr h (bs ! j)) 4096"
    if "i < 1024" "j < 1024" "i \<noteq> j" for i j
    by (rule pages_disj [OF d(1)])
      (use d(12) [OF that(1)] d(12) [OF that(2)] d(2,9) that nth_eq_iff_index_eq [OF d(2), of i j] in auto)
  ultimately show ?thesis using d(11) by (simp add: wf_pgd_def)
qed

subsection \<open>Creation\<close>

text \<open>Filling the words of a page one after the other.\<close>

lemma fill_words:
  fixes m :: mem and f :: "nat \<Rightarrow> u32" and p :: ptr
  assumes "n \<le> 1024"
  defines "r \<equiv> fold (\<lambda>b m. store32 m (p + of_nat (4 * b)) (f b)) [0..<n] m"
  shows "\<not> in_range p 4096 a \<Longrightarrow> r a = m a" and "j < n \<Longrightarrow> load32 r (p + of_nat (4 * j)) = f j"
proof -
  have "(\<not> in_range p 4096 a \<longrightarrow> r a = m a) \<and> (\<forall>j<n. load32 r (p + of_nat (4 * j)) = f j)" for a
    using assms(1) unfolding r_def
  proof (induction n)
    case (Suc n)
    let ?r = "fold (\<lambda>b m. store32 m (p + of_nat (4 * b)) (f b)) [0..<n] m"
    have "load32 (store32 ?r (p + of_nat (4 * n)) (f n)) (p + of_nat (4 * j)) = f j" if "j < Suc n" for j
    proof (cases "j = n")
      case False
      then have "disj_range (p + of_nat (4 * n)) 4 (p + of_nat (4 * j)) 4"
        using that Suc.prems by (intro word_index_disj) simp_all
      then show ?thesis using Suc False that by (simp add: mem_simps del: of_nat_mult)
    qed (simp add: mem_simps)
    moreover have "store32 ?r (p + of_nat (4 * n)) (f n) a = m a" if "\<not> in_range p 4096 a"
    proof -
      have "\<not> in_range (p + of_nat (4 * n)) 4 a" using Suc.prems that word_in_page [of n p a] by auto
      then show ?thesis using Suc that by (simp add: store32_other)
    qed
    ultimately show ?case by (simp del: of_nat_mult)
  qed simp
  then show "\<not> in_range p 4096 a \<Longrightarrow> r a = m a" "j < n \<Longrightarrow> load32 r (p + of_nat (4 * j)) = f j"
    by blast+
qed

text \<open>The entries of the tables \<open>bs\<close> of an identity mapping.\<close>

definition table_words :: "heap \<Rightarrow> u8 \<Rightarrow> mem \<Rightarrow> nat list \<Rightarrow> bool" where
  "table_words h flags m bs \<longleftrightarrow> (\<forall>i<length bs. \<forall>j<1024.
     load32 m (block_addr h (bs ! i) + of_nat (4 * j)) = of_nat (4096 * (1024 * i + j)) OR ucast flags)"

definition dir_words :: "heap \<Rightarrow> u8 \<Rightarrow> mem \<Rightarrow> nat \<Rightarrow> nat list \<Rightarrow> bool" where
  "dir_words h flags m db bs \<longleftrightarrow> (\<forall>i<length bs.
     load32 m (block_addr h db + of_nat (4 * i)) = block_addr h (bs ! i) OR ucast flags OR 2)"

text \<open>A word of an owned page survives whatever leaves the owned bytes alone.\<close>

lemma owned_word:
  assumes "B b = Some 1" and "i < 1024" and "\<And>a. owned_byte (block_addr h) B a \<Longrightarrow> m' a = m a"
  shows "load32 m' (block_addr h b + of_nat (4 * i)) = load32 m (block_addr h b + of_nat (4 * i))"
proof (rule load32_cong)
  fix a assume "in_range (block_addr h b + of_nat (4 * i)) 4 a"
  then have "in_range (block_addr h b) (4096 * 1) a" using word_in_page [OF assms(2)] by simp
  then show "m' a = m a" using assms(3) owned_byteI [of B b 1, OF assms(1)] by blast
qed

lemma page_directory_turn_step:
  assumes rep: "heap_rep h m B" and db: "B db = Some 1" and av: "0 < avail h m" and k: "k < 1024"
  obtains b m' where "page_directory_turn h (block_addr h db) flags k (off, m) = (off + 4194304, m')"
    "B b = None" "heap_rep h m' (B(b \<mapsto> 1))" "Suc (avail h m') = avail h m"
    "\<And>a. owned_byte (block_addr h) B a \<Longrightarrow> \<not> in_range (block_addr h db + of_nat (4 * k)) 4 a \<Longrightarrow> m' a = m a"
    "load32 m' (block_addr h db + of_nat (4 * k)) = block_addr h b OR ucast flags OR 2"
    "\<And>j. j < 1024 \<Longrightarrow>
       load32 m' (block_addr h b + of_nat (4 * j)) = (off + of_nat (j * 4096)) OR ucast flags"
proof -
  let ?d = "block_addr h db + of_nat (4 * k)"
  have "0 < unat (4096 :: u32)" "unat (4096 :: u32) \<le> 4096" by simp_all
  then obtain b where b: "fst (kzalloc h 4096 m) = block_addr h b" "B b = None"
      "\<And>b' k'. B b' = Some k' \<Longrightarrow> disj_range (block_addr h b) 4096 (block_addr h b') (4096 * k')"
      "heap_rep h (snd (kzalloc h 4096 m)) (B(b \<mapsto> 1))" "Suc (avail h (snd (kzalloc h 4096 m))) = avail h m"
      "\<And>a. owned_byte (block_addr h) B a \<Longrightarrow> snd (kzalloc h 4096 m) a = m a"
    using kz.alloc_page [OF rep av] by metis
  define m1 where "m1 = snd (kzalloc h 4096 m)"
  define m2 where "m2 = page_table_fill (block_addr h b) off flags m1"
  define m' where "m' = store32 m2 ?d (block_addr h b OR ucast flags OR 2)"
  have m2_other: "m2 a = m1 a" if "\<not> in_range (block_addr h b) 4096 a" for a
    unfolding m2_def page_table_fill_def by (rule fill_words(1) [OF order_refl that])
  have m2_word: "load32 m2 (block_addr h b + of_nat (4 * j)) = (off + of_nat (j * 4096)) OR ucast flags"
    if "j < 1024" for j unfolding m2_def page_table_fill_def by (rule fill_words(2) [OF order_refl that])
  have dpage: "in_range (block_addr h db) (4096 * 1) a" if "in_range ?d 4 a" for a
    using word_in_page [OF k that] by simp
  have own: "owned_byte (block_addr h) (B(b \<mapsto> 1)) a"
    if "in_range (block_addr h b) 4096 a \<or> in_range ?d 4 a" for a
    using that owned_byteI [of "B(b \<mapsto> 1)" b 1] owned_byteI [of "B(b \<mapsto> 1)" db 1] db b(2) dpage by auto
  have eq: "m' a = m1 a" if "\<not> owned_byte (block_addr h) (B(b \<mapsto> 1)) a" for a
  proof -
    have "\<not> in_range (block_addr h b) 4096 a" "\<not> in_range ?d 4 a" using that own by blast+
    then show ?thesis using m2_other by (simp add: m'_def store32_other del: of_nat_mult)
  qed
  show thesis
  proof
    show "page_directory_turn h (block_addr h db) flags k (off, m) = (off + 4194304, m')"
      using b(1) by (simp add: page_directory_turn_def Let_def split_beta m'_def m2_def m1_def or.assoc)
    show "B b = None" by (rule b(2))
    show "heap_rep h m' (B(b \<mapsto> 1))" by (rule heap_rep_write [OF b(4)]) (use eq m1_def in auto)
    show "Suc (avail h m') = avail h m" using b(5) kz.avail_write [OF b(4)] eq m1_def by metis
    show "load32 m' ?d = block_addr h b OR ucast flags OR 2" unfolding m'_def by (rule load32_store32)
    show "m' a = m a" if "owned_byte (block_addr h) B a" "\<not> in_range ?d 4 a" for a
    proof -
      from that(1) obtain b' k' where "B b' = Some k'" "in_range (block_addr h b') (4096 * k') a"
        by (auto simp: owned_byte_def)
      then have "\<not> in_range (block_addr h b) 4096 a" using disj_rangeD2 [OF b(3)] by blast
      then show ?thesis using that b(6) m2_other
        by (simp add: m'_def m1_def store32_other del: of_nat_mult)
    qed
    fix j :: nat assume j: "j < 1024"
    have "disj_range (block_addr h db) 4096 (block_addr h b) 4096"
      using b(3) [OF db] by (simp add: disj_range_sym)
    then have "disj_range ?d 4 (block_addr h b + of_nat (4 * j)) 4" by (rule words_of_pages_disj [OF _ k j])
    then show "load32 m' (block_addr h b + of_nat (4 * j)) = (off + of_nat (j * 4096)) OR ucast flags"
      using m2_word [OF j] by (simp only: m'_def load32_store32_disj)
  qed
qed

text \<open>The state after \<open>k\<close> turns: \<open>k\<close> tables, filled and entered in the directory.\<close>

definition pgd_turns :: "heap \<Rightarrow> u8 \<Rightarrow> mem \<Rightarrow> (nat \<rightharpoonup> nat) \<Rightarrow> nat \<Rightarrow> nat list \<Rightarrow> mem \<Rightarrow> bool" where
  "pgd_turns h flags m0 A db bs m \<longleftrightarrow> heap_rep h m (own_pages A (insert db (set bs)))
     \<and> distinct (db # bs) \<and> (\<forall>b \<in> insert db (set bs). A b = None)
     \<and> avail h m + length bs = avail h m0
     \<and> dir_words h flags m db bs \<and> table_words h flags m bs
     \<and> (\<forall>a. owned_byte (block_addr h) A a \<longrightarrow> m a = m0 a)"

lemma owned_byte_own_pages:
  "owned_byte addr A a \<Longrightarrow> \<forall>b\<in>S. A b = None \<Longrightarrow> owned_byte addr (own_pages A S) a"
  unfolding owned_byte_def own_pages_def by (metis option.distinct(1))

text \<open>The words of the pages taken so far survive a turn, except the one it enters.\<close>

lemma pgd_old_word:
  assumes rep: "heap_rep h m (own_pages A (insert db S))" and k: "k < 1024"
    and fr: "\<And>a. owned_byte (block_addr h) (own_pages A (insert db S)) a \<Longrightarrow>
      \<not> in_range (block_addr h db + of_nat (4 * k)) 4 a \<Longrightarrow> m' a = m a"
    and c: "c \<in> insert db S" and j: "j < 1024" and cj: "c = db \<Longrightarrow> j \<noteq> k"
  shows "load32 m' (block_addr h c + of_nat (4 * j)) = load32 m (block_addr h c + of_nat (4 * j))"
proof (rule load32_cong)
  fix a assume a: "in_range (block_addr h c + of_nat (4 * j)) 4 a"
  have "disj_range (block_addr h c + of_nat (4 * j)) 4 (block_addr h db + of_nat (4 * k)) 4"
  proof (cases "c = db")
    case True
    then show ?thesis using cj j k by (simp only:) (rule word_index_disj; simp)
  next
    case False
    then show ?thesis using pages_disj [OF rep c _ False] j k
      by (intro words_of_pages_disj) simp_all
  qed
  moreover have "owned_byte (block_addr h) (own_pages A (insert db S)) a"
    using owned_byteI [of "own_pages A (insert db S)" c 1] c word_in_page [OF j a] by simp
  ultimately show "m' a = m a" using fr disj_rangeD a by blast
qed

lemma pgd_word_not_owned:
  assumes rep: "heap_rep h m (own_pages A (insert db S))" and none: "\<forall>b \<in> insert db S. A b = None"
    and a: "owned_byte (block_addr h) A a" and k: "k < 1024"
  shows "\<not> in_range (block_addr h db + of_nat (4 * k)) 4 a"
proof
  assume "in_range (block_addr h db + of_nat (4 * k)) 4 a"
  then have "in_range (block_addr h db) (4096 * 1) a" using word_in_page [OF k] by simp
  moreover from a obtain c n where c: "A c = Some n" "in_range (block_addr h c) (4096 * n) a"
    by (auto simp: owned_byte_def)
  moreover have "disj_range (block_addr h db) (4096 * 1) (block_addr h c) (4096 * n)"
    by (rule heap_rep_disj [OF rep]) (use c none in \<open>auto simp: own_pages_def\<close>)
  ultimately show False using disj_rangeD by blast
qed

lemma pgd_turns_step:
  assumes t: "pgd_turns h flags m0 A db bs m" and len: "length bs < 1024" and av: "0 < avail h m"
  obtains b m' where "page_directory_turn h (block_addr h db) flags (length bs)
      (of_nat (4194304 * length bs), m) = (of_nat (4194304 * Suc (length bs)), m')"
    "pgd_turns h flags m0 A db (bs @ [b]) m'"
proof -
  let ?S = "insert db (set bs)" and ?B = "own_pages A (insert db (set bs))" and ?k = "length bs"
  have rep: "heap_rep h m ?B" and dist: "distinct (db # bs)" and none: "\<forall>b \<in> ?S. A b = None"
    and avl: "avail h m + ?k = avail h m0" and dw: "dir_words h flags m db bs"
    and tw: "table_words h flags m bs" and fr: "\<And>a. owned_byte (block_addr h) A a \<Longrightarrow> m a = m0 a"
    using t by (auto simp: pgd_turns_def)
  obtain b m' where b: "page_directory_turn h (block_addr h db) flags ?k (of_nat (4194304 * ?k), m) =
        (of_nat (4194304 * ?k) + 4194304, m')"
    "?B b = None" "heap_rep h m' (?B(b \<mapsto> 1))" "Suc (avail h m') = avail h m"
    "\<And>a. owned_byte (block_addr h) ?B a \<Longrightarrow> \<not> in_range (block_addr h db + of_nat (4 * ?k)) 4 a \<Longrightarrow> m' a = m a"
    "load32 m' (block_addr h db + of_nat (4 * ?k)) = block_addr h b OR ucast flags OR 2"
    "\<And>j. j < 1024 \<Longrightarrow> load32 m' (block_addr h b + of_nat (4 * j)) =
       (of_nat (4194304 * ?k) + of_nat (j * 4096)) OR ucast flags"
    using page_directory_turn_step [OF rep _ av len, of db] by (metis insertI1 own_pages_simps(3))
  have new: "b \<notin> ?S" "A b = None" using b(2) by (auto simp: own_pages_def split: if_splits)
  note word = pgd_old_word [OF rep len b(5)]
  have dwk: "dir_words h flags m' db (bs @ [b])"
    unfolding dir_words_def
  proof (intro allI impI)
    fix i assume "i < length (bs @ [b])"
    then show "load32 m' (block_addr h db + of_nat (4 * i)) = block_addr h ((bs @ [b]) ! i) OR ucast flags OR 2"
      using b(6) word [of db i] dw len
      by (cases "i = ?k") (auto simp: nth_append dir_words_def simp del: of_nat_mult)
  qed
  have twk: "table_words h flags m' (bs @ [b])"
    unfolding table_words_def
  proof (intro allI impI)
    fix i j :: nat assume i: "i < length (bs @ [b])" and j: "j < 1024"
    show "load32 m' (block_addr h ((bs @ [b]) ! i) + of_nat (4 * j)) =
        of_nat (4096 * (1024 * i + j)) OR ucast flags"
    proof (cases "i = ?k")
      case True
      then show ?thesis using b(7) [OF j] by (simp add: algebra_simps)
    next
      case False
      then have "bs ! i \<noteq> db" "bs ! i \<in> ?S" using i dist by (auto simp: nth_append)
      then show ?thesis using word [of "bs ! i" j] tw i j False
        by (auto simp: nth_append table_words_def simp del: of_nat_mult)
    qed
  qed
  have "m' a = m0 a" if a: "owned_byte (block_addr h) A a" for a
    using b(5) [OF owned_byte_own_pages [OF a none] pgd_word_not_owned [OF rep none a len]] fr [OF a] by simp
  moreover have "insert db (set (bs @ [b])) = insert b ?S" by auto
  ultimately have "pgd_turns h flags m0 A db (bs @ [b]) m'"
    unfolding pgd_turns_def using b(3) [unfolded own_pages_simps(2)] b(4) dist new none avl dwk twk by auto
  moreover have "of_nat (4194304 * ?k) + 4194304 = (of_nat (4194304 * Suc ?k) :: u32)" by simp
  ultimately show thesis using that b(1) by simp
qed

lemma pgd_turns_all:
  assumes "pgd_turns h flags m1 A db [] m1" and "k \<le> 1024" and "k \<le> avail h m1"
  shows "\<exists>bs m'. length bs = k \<and> pgd_turns h flags m1 A db bs m'
    \<and> fold (page_directory_turn h (block_addr h db) flags) [0..<k] (0, m1) = (of_nat (4194304 * k), m')"
  using assms(2,3)
proof (induction k)
  case 0
  show ?case using assms(1) by auto
next
  case (Suc k)
  then obtain bs m' where IH: "length bs = k" "pgd_turns h flags m1 A db bs m'"
      "fold (page_directory_turn h (block_addr h db) flags) [0..<k] (0, m1) = (of_nat (4194304 * k), m')"
    by auto
  have "0 < avail h m'" using IH(1,2) Suc.prems by (simp add: pgd_turns_def)
  then obtain b m'' where "page_directory_turn h (block_addr h db) flags k
      (of_nat (4194304 * k), m') = (of_nat (4194304 * Suc k), m'')"
    "pgd_turns h flags m1 A db (bs @ [b]) m''"
    using pgd_turns_step [OF IH(2)] IH(1) Suc.prems(1) by (metis Suc_le_lessD)
  then show ?case using IH
    by (intro exI [of _ "bs @ [b]"] exI [of _ m'']) (simp del: of_nat_mult of_nat_Suc mult_Suc_right)
qed

lemma block_addr_aligned: "wf_heap h \<Longrightarrow> is_page_aligned (block_addr h b)"
  unfolding block_addr_def
  by (rule is_page_aligned_add) (simp add: wf_heap_def heap_validate_alignment_def is_page_aligned_def)

lemma ucast_flags_lt: "(ucast (f :: u8) :: u32) OR 2 < 4096" "(ucast f :: u32) < 4096"
proof -
  have b: "(ucast (g :: u8) :: u32) < 4096" for g
    using unat_lt_u8 [of g] by (simp add: word_less_nat_alt)
  show "(ucast f :: u32) < 4096" by (rule b)
  have "(ucast f :: u32) OR 2 = ucast (f OR 2)" by (simp add: unsigned_or_eq)
  then show "(ucast f :: u32) OR 2 < 4096" using b by simp
qed

lemma dir_words_table:
  assumes "dir_words h flags m db bs" and "wf_heap h" and "i < length bs"
  shows "table_of m (block_addr h db) i = block_addr h (bs ! i)"
  using assms page_mask_or [OF block_addr_aligned [OF assms(2), unfolded is_page_aligned_def] ucast_flags_lt(1)]
  unfolding dir_words_def table_of_def by (simp add: or.assoc del: of_nat_mult)

lemma directory_block:
  fixes h m S A v
  assumes rep: "heap_rep h m (own_pages A S)" and av: "0 < avail h m"
  obtains ob where "fst (kzalloc h 4 m) = block_addr h ob" "ob \<notin> S" "A ob = None"
    "heap_rep h (store32 (snd (kzalloc h 4 m)) (block_addr h ob) v) (own_pages A (insert ob S))"
    "Suc (avail h (store32 (snd (kzalloc h 4 m)) (block_addr h ob) v)) = avail h m"
    "\<And>a. owned_byte (block_addr h) (own_pages A S) a \<Longrightarrow> store32 (snd (kzalloc h 4 m)) (block_addr h ob) v a = m a"
proof -
  have n: "0 < unat (4 :: u32)" "unat (4 :: u32) \<le> 4096" by simp_all
  obtain ob where ob: "fst (kzalloc h 4 m) = block_addr h ob" "own_pages A S ob = None"
      "\<And>b' k'. own_pages A S b' = Some k' \<Longrightarrow> disj_range (block_addr h ob) 4096 (block_addr h b') (4096 * k')"
      "heap_rep h (snd (kzalloc h 4 m)) ((own_pages A S)(ob \<mapsto> 1))"
      "Suc (avail h (snd (kzalloc h 4 m))) = avail h m"
      "\<And>a. owned_byte (block_addr h) (own_pages A S) a \<Longrightarrow> snd (kzalloc h 4 m) a = m a"
    using kz.alloc_page [OF rep av n] by metis
  define m' where "m' = store32 (snd (kzalloc h 4 m)) (block_addr h ob) v"
  have obpage: "in_range (block_addr h ob) (4096 * 1) a" if "in_range (block_addr h ob) 4 a" for a
    using in_range_mono [OF that] by simp
  have out: "m' a = snd (kzalloc h 4 m) a" if "\<not> owned_byte (block_addr h) ((own_pages A S)(ob \<mapsto> 1)) a" for a
    using that obpage owned_byteI [of "(own_pages A S)(ob \<mapsto> 1)" ob 1] unfolding m'_def
    by (intro store32_other) auto
  have fr: "m' a = m a" if "owned_byte (block_addr h) (own_pages A S) a" for a
  proof -
    from that obtain c k where "own_pages A S c = Some k" "in_range (block_addr h c) (4096 * k) a"
      by (auto simp: owned_byte_def)
    then have "\<not> in_range (block_addr h ob) 4 a" using disj_rangeD2 [OF ob(3)] obpage by fastforce
    then show ?thesis using ob(6) [OF that] by (simp add: m'_def store32_other)
  qed
  have "heap_rep h m' (own_pages A (insert ob S))"
    by (rule heap_rep_write [OF ob(4) [unfolded own_pages_simps(2)]])
      (use out [unfolded own_pages_simps(2)] in blast)
  moreover have "ob \<notin> S" "A ob = None" using ob(2) by (auto simp: own_pages_def split: if_splits)
  moreover have "Suc (avail h m') = avail h m" using kz.avail_write [OF ob(4) out] ob(5) by simp
  ultimately show thesis using that [OF ob(1)] fr unfolding m'_def by blast
qed

lemma create_new_page_directoryE:
  assumes rep: "heap_rep h m A" and av: "1026 \<le> avail h m"
  obtains ob db bs m' where "create_new_page_directory h flags m = (block_addr h ob, m')"
    "pgd_at h m' A ob db bs" "table_words h flags m' bs" "dir_words h flags m' db bs"
    "avail h m' + 1026 = avail h m" "\<And>a. owned_byte (block_addr h) A a \<Longrightarrow> m' a = m a"
proof -
  have n: "0 < unat (4096 :: u32)" "unat (4096 :: u32) \<le> 4096" by simp_all
  obtain db where db: "fst (kzalloc h 4096 m) = block_addr h db" "A db = None"
      "heap_rep h (snd (kzalloc h 4096 m)) (A(db \<mapsto> 1))" "Suc (avail h (snd (kzalloc h 4096 m))) = avail h m"
      "\<And>a. owned_byte (block_addr h) A a \<Longrightarrow> snd (kzalloc h 4096 m) a = m a"
    using kz.alloc_page [OF rep _ n(1,2)] av by (metis Suc_le_D zero_less_Suc numeral_eq_Suc)
  define m1 where "m1 = snd (kzalloc h 4096 m)"
  have "A(db \<mapsto> 1) = own_pages A {db}" by (auto simp: own_pages_def)
  then have "pgd_turns h flags m1 A db [] m1"
    using db by (simp add: pgd_turns_def m1_def dir_words_def table_words_def)
  moreover have av1: "1025 \<le> avail h m1" using db(4) av by (simp add: m1_def)
  ultimately obtain bs m2 where m2: "length bs = 1024" "pgd_turns h flags m1 A db bs m2"
      "fold (page_directory_turn h (block_addr h db) flags) [0..<1024] (0, m1) = (of_nat (4194304 * 1024), m2)"
    using pgd_turns_all [of h flags m1 A db 1024] by auto
  let ?S = "insert db (set bs)"
  have rep2: "heap_rep h m2 (own_pages A ?S)" and av2: "avail h m2 + 1024 = avail h m1"
    and none: "\<forall>b\<in>?S. A b = None" and fr: "\<And>a. owned_byte (block_addr h) A a \<Longrightarrow> m2 a = m1 a"
    and dw: "dir_words h flags m2 db bs" and tw: "table_words h flags m2 bs" and dist: "distinct (db # bs)"
    using m2(1,2) by (auto simp: pgd_turns_def)
  have "0 < avail h m2" using av1 av2 by simp
  then obtain ob where ob: "fst (kzalloc h 4 m2) = block_addr h ob" "ob \<notin> ?S" "A ob = None"
      "heap_rep h (store32 (snd (kzalloc h 4 m2)) (block_addr h ob) (block_addr h db)) (own_pages A (insert ob ?S))"
      "Suc (avail h (store32 (snd (kzalloc h 4 m2)) (block_addr h ob) (block_addr h db))) = avail h m2"
      "\<And>a. owned_byte (block_addr h) (own_pages A ?S) a \<Longrightarrow> store32 (snd (kzalloc h 4 m2)) (block_addr h ob) (block_addr h db) a = m2 a"
    by (rule directory_block [OF rep2]) (rule that; assumption)
  define m' where "m' = store32 (snd (kzalloc h 4 m2)) (block_addr h ob) (block_addr h db)"
  note ob = ob(1-3) ob(4-6) [folded m'_def]
  have word: "load32 m' (block_addr h c + of_nat (4 * j)) = load32 m2 (block_addr h c + of_nat (4 * j))"
    if "c \<in> ?S" "j < 1024" for c j
    by (rule owned_word [where B = "own_pages A ?S", OF own_pages_simps(3) [OF that(1)] that(2) ob(6)])
  have dw': "dir_words h flags m' db bs" and tw': "table_words h flags m' bs"
    using dw tw word m2(1) unfolding dir_words_def table_words_def by (simp_all del: of_nat_mult)
  show thesis
  proof
    show "create_new_page_directory h flags m = (block_addr h ob, m')"
      using db(1) ob(1) m2(3) by (simp add: create_new_page_directory_def m'_def m1_def split_beta)
    show "pgd_at h m' A ob db bs"
      using ob(2-4) dist none m2(1) dir_words_table [OF dw' heap_repD(1) [OF rep]]
      by (auto simp: pgd_at_def m'_def load32_store32)
    show "avail h m' + 1026 = avail h m"
      using ob(5) av2 db(4) by (simp add: m1_def)
    show "m' a = m a" if "owned_byte (block_addr h) A a" for a
      using ob(6) [OF owned_byte_own_pages [OF that none]] fr [OF that] db(5) [OF that] by (simp add: m1_def)
  qed (rule tw' dw')+
qed

subsection \<open>Use and release\<close>

text \<open>Writes of page table entries keep the directory in place.\<close>

lemma pgd_at_table_write:
  assumes p: "pgd_at h m A ob db bs" and i: "i < 1024" and j: "j < 1024"
  shows "pgd_at h (store32 m (block_addr h (bs ! i) + of_nat (4 * j)) v) A ob db bs"
    and "avail h (store32 m (block_addr h (bs ! i) + of_nat (4 * j)) v) = avail h m"
proof -
  note d = pgd_atD [OF p]
  let ?S = "insert ob (insert db (set bs))" and ?p = "block_addr h (bs ! i) + of_nat (4 * j)"
  have own: "store32 m ?p v a = m a" if "\<not> owned_byte (block_addr h) (own_pages A ?S) a" for a
  proof (rule store32_other)
    show "\<not> in_range ?p 4 a"
      using that owned_byteI [of "own_pages A ?S" "bs ! i" 1] word_in_page [OF j] d(12) [OF i] by auto
  qed
  have word: "load32 (store32 m ?p v) (block_addr h c + of_nat (4 * k)) = load32 m (block_addr h c + of_nat (4 * k))"
    if "c = ob \<or> c = db" "k < 1024" for c k
  proof -
    have "disj_range (block_addr h (bs ! i)) 4096 (block_addr h c) 4096"
      by (rule pages_disj [OF d(1)]) (use d(3,4) d(12) [OF i] that(1) in auto)
    then show ?thesis by (intro load32_store32_disj words_of_pages_disj j that(2))
  qed
  show "avail h (store32 m ?p v) = avail h m" by (rule kz.avail_write [OF d(1) own])
  show "pgd_at h (store32 m ?p v) A ob db bs"
    unfolding pgd_at_def
  proof (intro conjI)
    show "heap_rep h (store32 m ?p v) (own_pages A ?S)" by (rule heap_rep_write [OF d(1) own])
    show "load32 (store32 m ?p v) (block_addr h ob) = block_addr h db" using word [of ob 0] d(10) by simp
    show "\<forall>i'<1024. table_of (store32 m ?p v) (block_addr h db) i' = block_addr h (bs ! i')"
      using word [of db] d(11) by (simp add: table_of_def del: of_nat_mult)
  qed (use p in \<open>auto simp: pgd_at_def\<close>)
qed

lemma pgd_at_paging_set:
  assumes "pgd_at h m A ob db bs"
  shows "pgd_at h (snd (paging_set (block_addr h db) v x m)) A ob db bs"
    and "avail h (snd (paging_set (block_addr h db) v x m)) = avail h m"
proof -
  have "pte_addr m (block_addr h db) v = block_addr h (bs ! pde_index v) + of_nat (4 * pte_index v)"
    using pgd_atD(11) [OF assms pde_index_lt] by (simp add: pte_addr_def)
  then show "pgd_at h (snd (paging_set (block_addr h db) v x m)) A ob db bs"
    "avail h (snd (paging_set (block_addr h db) v x m)) = avail h m"
    using pgd_at_table_write [OF assms pde_index_lt pte_index_lt] assms
    by (cases "is_page_aligned v"; simp add: paging_set_eq; simp add: paging_set_def)+
qed

lemma pgd_at_map_range_loop:
  "pgd_at h m A ob db bs \<Longrightarrow>
    pgd_at h (snd (paging_map_range_loop (block_addr h db) virt phys n flags res m)) A ob db bs
    \<and> avail h (snd (paging_map_range_loop (block_addr h db) virt phys n flags res m)) = avail h m"
proof (induction n arbitrary: virt phys res m)
  case (Suc n)
  let ?r = "paging_map (block_addr h db) virt phys flags m"
  have "pgd_at h (snd ?r) A ob db bs" "avail h (snd ?r) = avail h m"
    using Suc.prems pgd_at_paging_set [OF Suc.prems] by (simp_all add: paging_map_def)
  then show ?case using Suc.IH by (simp add: split_beta Let_def)
qed simp

text \<open>The state of \<^verbatim>\<open>paging_free_4gb\<close> after \<open>k\<close> tables are gone.\<close>

definition free_turn :: "heap \<Rightarrow> ptr \<Rightarrow> nat \<Rightarrow> mem \<Rightarrow> mem" where
  "free_turn h chunk i m = kfree h (load32 m (load32 m chunk + of_nat (4 * i)) AND 0xfffff000) m"

lemma paging_free_turns:
  assumes p: "pgd_at h m A ob db bs" and "k \<le> 1024"
  shows "let m' = fold (free_turn h (block_addr h ob)) [0..<k] m in
    heap_rep h m' (own_pages A (insert ob (insert db (set (drop k bs)))))
    \<and> avail h m' = avail h m + k \<and> load32 m' (block_addr h ob) = block_addr h db
    \<and> (\<forall>i<1024. table_of m' (block_addr h db) i = block_addr h (bs ! i))
    \<and> (\<forall>a. \<not> in_range (hp_entries h) (hp_total h) a \<longrightarrow> m' a = m a)"
  using assms(2)
proof (induction k)
  case 0
  show ?case using p by (simp add: pgd_at_def)
next
  case (Suc k)
  note d = pgd_atD [OF p]
  let ?B = "own_pages A (insert ob (insert db (set (drop k bs))))" and ?b = "bs ! k"
  define m1 where "m1 = fold (free_turn h (block_addr h ob)) [0..<k] m"
  have IH: "heap_rep h m1 ?B" "avail h m1 = avail h m + k" "load32 m1 (block_addr h ob) = block_addr h db"
      "\<forall>i<1024. table_of m1 (block_addr h db) i = block_addr h (bs ! i)"
      "\<forall>a. \<not> in_range (hp_entries h) (hp_total h) a \<longrightarrow> m1 a = m a"
    using Suc by (simp_all add: Let_def m1_def)
  have k: "k < length bs" using Suc.prems d(9) by simp
  then have dr: "drop k bs = ?b # drop (Suc k) bs" by (rule Cons_nth_drop_Suc [symmetric])
  have B: "?B ?b = Some 1" using dr by simp
  have b: "A ?b = None" "?b \<noteq> ob" "?b \<noteq> db" "?b \<notin> set (drop (Suc k) bs)"
    using d(2-4,8) k dr distinct_drop [OF d(2), of k] by auto
  then have B': "?B(?b := None) = own_pages A (insert ob (insert db (set (drop (Suc k) bs))))"
    using dr by (auto simp: own_pages_def)
  let ?m2 = "kfree h (block_addr h ?b) m1"
  have fr: "?m2 a = m1 a" if "owned_byte (block_addr h) ?B a" for a
    by (rule kz.release_frame [OF IH(1) B that])
  have word: "load32 ?m2 (block_addr h c + of_nat (4 * i)) = load32 m1 (block_addr h c + of_nat (4 * i))"
    if "c = ob \<or> c = db" "i < 1024" for c i
    by (rule owned_word [where B = ?B, OF _ that(2) fr]) (use that(1) in auto)
  have "fold (free_turn h (block_addr h ob)) [0..<Suc k] m = ?m2"
    using IH(3,4) Suc.prems by (simp add: free_turn_def table_of_def m1_def [symmetric])
  moreover have "heap_rep h ?m2 (own_pages A (insert ob (insert db (set (drop (Suc k) bs)))))"
    using kz.release_rep [OF IH(1) B] by (simp only: B')
  moreover have "avail h ?m2 = avail h m + Suc k" using kz.avail_release [OF IH(1) B] IH(2) by simp
  moreover have "load32 ?m2 (block_addr h ob) = block_addr h db" using word [of ob 0] IH(3) by simp
  moreover have "\<forall>i<1024. table_of ?m2 (block_addr h db) i = block_addr h (bs ! i)"
    using word [of db] IH(4) by (simp add: table_of_def del: of_nat_mult)
  moreover have "\<forall>a. \<not> in_range (hp_entries h) (hp_total h) a \<longrightarrow> ?m2 a = m a"
    using heap_free_frame [OF IH(1) B] IH(5) by (simp add: kfree_def)
  ultimately show ?case by (simp only: Let_def)
qed

lemma paging_free_4gb_rep:
  assumes p: "pgd_at h m A ob db bs"
  shows "heap_rep h (paging_free_4gb h (block_addr h ob) m) A"
    and "avail h (paging_free_4gb h (block_addr h ob) m) = avail h m + 1026"
    and "\<not> in_range (hp_entries h) (hp_total h) a \<Longrightarrow> paging_free_4gb h (block_addr h ob) m a = m a"
proof -
  note d = pgd_atD [OF p]
  define m1 where "m1 = fold (free_turn h (block_addr h ob)) [0..<1024] m"
  have r: "heap_rep h m1 (own_pages A {ob, db})" "avail h m1 = avail h m + 1024"
      "load32 m1 (block_addr h ob) = block_addr h db"
      "\<forall>a. \<not> in_range (hp_entries h) (hp_total h) a \<longrightarrow> m1 a = m a"
    using paging_free_turns [OF p order_refl] d(9) by (simp_all add: m1_def Let_def)
  have eq: "paging_free_4gb h (block_addr h ob) m = kfree h (block_addr h ob) (kfree h (block_addr h db) m1)"
    using r(3) by (simp add: paging_free_4gb_def Let_def m1_def free_turn_def [abs_def])
  have e1: "(own_pages A {ob, db})(db := None) = own_pages A {ob}"
    and e2: "(own_pages A {ob})(ob := None) = A"
    using d(5-7) by (auto simp: own_pages_def)
  have r2: "heap_rep h (kfree h (block_addr h db) m1) (own_pages A {ob})"
    using kz.release_rep [OF r(1), of db 1] by (simp add: e1)
  show "heap_rep h (paging_free_4gb h (block_addr h ob) m) A"
    using kz.release_rep [OF r2, of ob 1] by (simp add: eq e2)
  show "avail h (paging_free_4gb h (block_addr h ob) m) = avail h m + 1026"
    using kz.avail_release [OF r2, of ob 1] kz.avail_release [OF r(1), of db 1] r(2) by (simp add: eq)
  show "paging_free_4gb h (block_addr h ob) m a = m a" if "\<not> in_range (hp_entries h) (hp_total h) a"
    using heap_free_frame [OF r2, of ob 1 a] heap_free_frame [OF r(1), of db 1 a] r(4) that by (simp add: eq kfree_def)
qed

section \<open>Properties of page directories\<close>

lemma page_of_indices:
  assumes "is_page_aligned v"
  shows "of_nat (4096 * (1024 * pde_index v + pte_index v)) = v"
proof -
  have "unat v mod 4194304 mod 4096 = 0" using assms by (simp add: is_page_aligned_unat mod_mod_cancel)
  then have "4096 * pte_index v = unat v mod 4194304"
    using mult_div_mod_eq [of 4096 "unat v mod 4194304"] unfolding pte_index_def by (metis add_0_right)
  moreover have "4194304 * pde_index v + unat v mod 4194304 = unat v" by (simp add: pde_index_def)
  moreover have "4096 * (1024 * x + y) = 4194304 * x + 4096 * y" for x y :: nat by simp
  ultimately have "4096 * (1024 * pde_index v + pte_index v) = unat v" by metis
  then show ?thesis by (simp only: word_nat_cases unat_of_nat of_nat_unat ucast_id)
qed

lemma table_words_get:
  assumes p: "pgd_at h m A ob db bs" and t: "table_words h flags m bs" and v: "is_page_aligned v"
  shows "paging_get (block_addr h db) v m = v OR ucast flags"
proof -
  have "pte_addr m (block_addr h db) v = block_addr h (bs ! pde_index v) + of_nat (4 * pte_index v)"
    using pgd_atD(11) [OF p pde_index_lt] by (simp add: pte_addr_def)
  then show ?thesis
    using t pde_index_lt [of v] pte_index_lt [of v] pgd_atD(9) [OF p] page_of_indices [OF v]
    by (simp add: paging_get_eq [OF v] table_words_def del: of_nat_mult)
qed

text \<open>C9. A new page directory maps every address to itself with the flags asked for, its tables
  are disjoint, it takes 1026 blocks and leaves every owned byte as it was.\<close>

theorem create_new_page_directory_identity:
  assumes "heap_rep h m A" and "1026 \<le> avail h m" and "create_new_page_directory h flags m = (p, m')"
  shows "wf_pgd (get_page_directory_entry p m') m'
    \<and> (\<forall>v. paging_get_physical_address (get_page_directory_entry p m') v m' = v)
    \<and> (\<forall>v. is_page_aligned v \<longrightarrow> paging_get (get_page_directory_entry p m') v m' = v OR ucast flags)
    \<and> avail h m' + 1026 = avail h m
    \<and> (\<forall>a. owned_byte (block_addr h) A a \<longrightarrow> m' a = m a)"
proof (rule create_new_page_directoryE [OF assms(1,2), of flags])
  fix ob db bs m2
  assume eq: "create_new_page_directory h flags m = (block_addr h ob, m2)"
    and p: "pgd_at h m2 A ob db bs" and t: "table_words h flags m2 bs"
    and rest: "avail h m2 + 1026 = avail h m" "\<And>a. owned_byte (block_addr h) A a \<Longrightarrow> m2 a = m a"
  have e: "p = block_addr h ob" "m' = m2" using eq assms(3) by simp_all
  have dir: "get_page_directory_entry p m' = block_addr h db"
    using pgd_atD(10) [OF p] by (simp add: e get_page_directory_entry_def)
  have get: "paging_get (block_addr h db) v m' = v OR ucast flags" if "is_page_aligned v" for v
    using table_words_get [OF p t that] by (simp add: e)
  have "paging_get_physical_address (block_addr h db) v m' = v" for v
    using physical_of_entry [OF lower_page_aligned ucast_flags_lt(2) get [OF lower_page_aligned]]
    by simp
  then show ?thesis unfolding dir using wf_pgd_pgd_at [OF p] get rest by (simp add: e(2))
qed

text \<open>The calls that change a page directory, in any order.\<close>

datatype mapping_call =
    Set_entry ptr u32
  | Map_page ptr ptr u32
  | Map_range ptr ptr int u32
  | Map_to ptr ptr ptr u32

fun mapping_run :: "ptr \<Rightarrow> mapping_call \<Rightarrow> mem \<Rightarrow> mem" where
  "mapping_run directory (Set_entry virt v) m = snd (paging_set directory virt v m)"
| "mapping_run directory (Map_page virt phys flags) m = snd (paging_map directory virt phys flags m)"
| "mapping_run directory (Map_range virt phys count flags) m = snd (paging_map_range directory virt phys count flags m)"
| "mapping_run directory (Map_to virt phys phys_end flags) m = snd (paging_map_to directory virt phys phys_end flags m)"

lemma pgd_at_mapping_run:
  "pgd_at h m A ob db bs \<Longrightarrow> pgd_at h (mapping_run (block_addr h db) c m) A ob db bs
    \<and> avail h (mapping_run (block_addr h db) c m) = avail h m"
  by (cases c) (simp_all add: paging_map_def paging_map_to_def paging_map_range_def Let_def pgd_at_map_range_loop pgd_at_paging_set)

lemma pgd_at_mapping_runs:
  "pgd_at h m A ob db bs \<Longrightarrow> pgd_at h (fold (mapping_run (block_addr h db)) cs m) A ob db bs
    \<and> avail h (fold (mapping_run (block_addr h db)) cs m) = avail h m"
  by (induction cs arbitrary: m) (simp_all add: pgd_at_mapping_run)

text \<open>C19. Whatever was mapped in between, by any sequence of calls of the four functions that change a directory,
  failed ones included, \<^verbatim>\<open>paging_free_4gb\<close> gives back exactly the blocks \<^verbatim>\<open>create_new_page_directory\<close> took: the
  heap owns what it owned before.\<close>

theorem page_directory_create_free:
  assumes "heap_rep h m A" and "1026 \<le> avail h m" and "create_new_page_directory h flags m = (p, m1)"
    and "m2 = fold (mapping_run (get_page_directory_entry p m1)) cs m1"
  shows "heap_rep h (paging_free_4gb h p m2) A \<and> avail h (paging_free_4gb h p m2) = avail h m"
proof (rule create_new_page_directoryE [OF assms(1,2), of flags])
  fix ob db bs m'
  assume eq: "create_new_page_directory h flags m = (block_addr h ob, m')"
    and p: "pgd_at h m' A ob db bs" and av: "avail h m' + 1026 = avail h m"
  have e: "p = block_addr h ob" "m1 = m'" using eq assms(3) by simp_all
  have dir: "get_page_directory_entry p m1 = block_addr h db"
    using pgd_atD(10) [OF p] by (simp add: e get_page_directory_entry_def)
  have "pgd_at h m2 A ob db bs" "avail h m2 = avail h m'"
    using pgd_at_mapping_runs [OF p] assms(4) unfolding dir by (simp_all add: e(2))
  then show ?thesis using paging_free_4gb_rep av by (simp add: e)
qed

lemma kernel_heap_1026: "1026 \<le> avail kernel_heap (\<lambda>_. 0)"
  by (simp add: kernel_heap_avail_zero)

theorem create_new_page_directory_identity_witness:
  "case create_new_page_directory kernel_heap 7 (\<lambda>_. 0) of (p, m) \<Rightarrow>
     wf_pgd (get_page_directory_entry p m) m
     \<and> paging_get_physical_address (get_page_directory_entry p m) 0x400123 m = 0x400123
     \<and> avail kernel_heap m + 1026 = 25600"
proof -
  obtain p m where c: "create_new_page_directory kernel_heap 7 (\<lambda>_. 0) = (p, m)" by force
  from create_new_page_directory_identity [OF kernel_heap_rep_zero kernel_heap_1026 c]
  show ?thesis by (simp add: c kernel_heap_avail_zero)
qed

theorem page_directory_create_free_witness:
  "case create_new_page_directory kernel_heap 7 (\<lambda>_. 0) of (p, m1) \<Rightarrow>
     heap_rep kernel_heap (paging_free_4gb kernel_heap p (fold (mapping_run (get_page_directory_entry p m1))
       [Map_range 0x400000 0x1000000 3 7, Map_to 0x3FB000 0x1004000 0x1008000 7, Set_entry 0x400000 0] m1)) Map.empty"
proof -
  obtain p m1 where c: "create_new_page_directory kernel_heap 7 (\<lambda>_. 0) = (p, m1)" by force
  from page_directory_create_free [OF kernel_heap_rep_zero kernel_heap_1026 c refl] show ?thesis by (simp only: c prod.case)
qed

text \<open>A well-formed directory to instantiate the translation theorems with.\<close>

lemma wf_pgd_example:
  obtains dir m where "wf_pgd dir m"
  by (rule create_new_page_directoryE [OF kernel_heap_rep_zero kernel_heap_1026])
    (blast dest: wf_pgd_pgd_at)

theorem paging_map_to_translates_witness:
  "\<exists>dir m. wf_pgd dir m
     \<and> paging_map_to dir 0x400000 0x1000001 0x1002000 7 m = (- EINVARG, m)
     \<and> paging_get_physical_address dir 0x400010
         (snd (paging_map_to dir 0x400000 0x1000000 0x1002000 7 m)) = 0x1000010"
proof -
  obtain dir m where w: "wf_pgd dir m" by (rule wf_pgd_example)
  have "paging_map_to dir 0x400000 0x1000001 0x1002000 7 m = (- EINVARG, m)"
    using paging_map_to_translates [OF w, of 7 "0x400000" "0x1000001" "0x1002000"]
    by (simp add: is_page_aligned_def)
  moreover have "\<forall>a. 0x1000000 \<le> a \<and> a < 0x1002000 \<longrightarrow> paging_get_physical_address dir (0x400000 + (a - 0x1000000))
      (snd (paging_map_to dir 0x400000 0x1000000 0x1002000 7 m)) = a"
    using paging_map_to_translates [OF w, of 7 "0x400000" "0x1000000" "0x1002000"]
    by (simp add: is_page_aligned_def)
  from this [rule_format, of "0x1000010"] have "paging_get_physical_address dir 0x400010
      (snd (paging_map_to dir 0x400000 0x1000000 0x1002000 7 m)) = 0x1000010" by simp
  ultimately show ?thesis using w by blast
qed

end
