(* ===== verification/Disk.thy ===== *)
theory Disk
  imports Paging "HOL-Library.Monad_Syntax"
begin

text \<open>
  \<^verbatim>\<open>src/src/disk/disk.c\<close> and \<^verbatim>\<open>streamer.c\<close>: the ATA driver, the single disk object, and byte streams
  over the sectors of a disk.

  The controller is not part of the program. It is the parameter \<open>dev\<close> of the definitions: what
  words it delivers at the data port after a series of port writes. A drive that keeps \<open>ata_drive\<close>
  delivers the words of the sectors named by its registers; the busy-waiting on the status port has
  no effect of its own and is left out.
\<close>

section \<open>State\<close>

text \<open>The global \<^verbatim>\<open>disk_obj\<close>, the kernel's memory and its heap. The linker's address of
  \<^verbatim>\<open>disk_obj\<close> is a field.\<close>

record disk =
  dk_type :: u32
  sector_size :: int
  dk_id :: int
  filesystem :: ptr
  fs_private :: ptr

record kstate =
  km :: mem
  kheap :: heap
  disk_obj :: disk
  disk_obj_at :: ptr

text \<open>A \<^verbatim>\<open>struct disk_stream\<close> in memory: position and disk.\<close>

definition ds_pos :: "mem \<Rightarrow> ptr \<Rightarrow> int" where
  "ds_pos m stream = c_int (load32 m stream)"

definition ds_disk :: "mem \<Rightarrow> ptr \<Rightarrow> ptr" where
  "ds_disk m stream = load32 m (stream + 4)"

section \<open>The driver\<close>

type_synonym ata_device = "(u16 \<times> u8) list \<Rightarrow> nat \<Rightarrow> u16"

text \<open>The port writes that start a read of \<open>tot\<close> sectors.\<close>

definition ata_read_command :: "u32 \<Rightarrow> int \<Rightarrow> (u16 \<times> u8) list" where
  "ata_read_command lba tot =
     [(0x1F6, ucast (signed_drop_bit 24 lba OR 0xE0)), (0x1F2, word_of_int tot),
      (0x1F3, ucast (lba AND 0xFF)), (0x1F4, ucast (signed_drop_bit 8 lba)),
      (0x1F5, ucast (signed_drop_bit 16 lba)), (0x1F7, 0x20)]"

text \<open>The words read from the data port, as the bytes they become in the buffer.\<close>

definition word_bytes :: "u16 \<Rightarrow> u8 list" where
  "word_bytes w = [ucast w, ucast (drop_bit 8 w)]"

definition disk_read_sector :: "ata_device \<Rightarrow> u32 \<Rightarrow> int \<Rightarrow> int \<times> u8 list" where
  "disk_read_sector dev lba tot =
     (0, concat (map (\<lambda>b. concat (map (\<lambda>i. word_bytes (dev (ata_read_command lba tot) (256 * b + i)))
        [0..<256])) [0..<nat tot]))"

definition disk_get :: "int \<Rightarrow> 'a kstate_scheme \<Rightarrow> ptr" where
  "disk_get index s = (if index \<noteq> 0 then 0 else disk_obj_at s)"

text \<open>\<^verbatim>\<open>disk_read_block\<close> returns the status and the bytes it puts into the buffer.\<close>

definition disk_read_block :: "ata_device \<Rightarrow> ptr \<Rightarrow> u32 \<Rightarrow> int \<Rightarrow> 'a kstate_scheme \<Rightarrow> int \<times> u8 list" where
  "disk_read_block dev idisk lba tot s =
     (if idisk \<noteq> disk_obj_at s then (- EIO, []) else disk_read_sector dev lba tot)"

section \<open>Streams\<close>

definition get_new_disk_stream :: "int \<Rightarrow> 'a kstate_scheme \<Rightarrow> ptr \<times> 'a kstate_scheme" where
  "get_new_disk_stream disk_id s =
     (let disk = disk_get disk_id s
      in if disk = 0 then (0, s)
         else
           let (stream, m) = kzalloc (kheap s) 8 (km s);
               m = store32 m stream 0;
               m = store32 m (stream + 4) disk
           in (stream, s\<lparr>km := m\<rparr>))"

definition diskstreamer_seek :: "ptr \<Rightarrow> int \<Rightarrow> 'a kstate_scheme \<Rightarrow> int \<times> 'a kstate_scheme" where
  "diskstreamer_seek stream pos s = (0, s\<lparr>km := store32 (km s) stream (c_uint pos)\<rparr>)"

text \<open>The bytes \<open>bs\<close> written to memory from \<open>p\<close> on.\<close>

fun write_bytes :: "ptr \<Rightarrow> u8 list \<Rightarrow> mem \<Rightarrow> mem" where
  "write_bytes p [] m = m"
| "write_bytes p (b # bs) m = write_bytes (p + 1) bs (m(p := b))"

lemma sector_overflow_pos: "512 \<le> pos smod 512 + tot \<Longrightarrow> 0 < tot" for pos tot :: int
  using smod_int_range [of 512 pos] by auto

text \<open>
  \<^verbatim>\<open>diskstreamer_read\<close> is defined twice. \<open>diskstreamer_read\<close> returns the bytes that reach
  \<^verbatim>\<open>out\<close> in order: it is the call whose destination is a local of the caller.
  \<open>diskstreamer_read_to\<close> is the call whose destination is in memory: every sector's bytes are stored
  before the position of the stream is advanced and the next sector is read, so that a destination
  that overlaps the stream is seen by the rest of the read. \<open>diskstreamer_read_to_bytes\<close> shows that
  they agree when it does not. Only the recursive call is for the length
  \<^verbatim>\<open>total - LIEBE_OS_SECTOR_SIZE\<close>. For a negative position that is not a multiple of 512 the C code
  reads before its buffer, which the definitions do not describe.
\<close>

function diskstreamer_read ::
    "ata_device \<Rightarrow> ptr \<Rightarrow> int \<Rightarrow> 'a kstate_scheme \<Rightarrow> int \<times> u8 list \<times> 'a kstate_scheme" where
  "diskstreamer_read dev stream tot s =
     (let pos = ds_pos (km s) stream;
          sector = pos sdiv LIEBE_OS_SECTOR_SIZE;
          offset = pos smod LIEBE_OS_SECTOR_SIZE;
          overflow = LIEBE_OS_SECTOR_SIZE \<le> offset + tot;
          total_to_read = (if overflow then tot - (offset + tot - LIEBE_OS_SECTOR_SIZE) else tot);
          (res, buffer) = disk_read_block dev (ds_disk (km s) stream) (c_uint sector) 1 s
      in if res < 0 then (res, [], s)
         else
           let bs = map (\<lambda>i. buffer ! nat (offset + int i)) [0..<nat total_to_read];
               s = s\<lparr>km := store32 (km s) stream (c_uint (pos + total_to_read))\<rparr>
           in if overflow then
                let (res, bs', s) = diskstreamer_read dev stream (tot - LIEBE_OS_SECTOR_SIZE) s
                in (res, bs @ bs', s)
              else (res, bs, s))"
  by pat_completeness auto
termination
  by (relation "measure (\<lambda>(dev, stream, tot, s). nat tot)") (auto dest: sector_overflow_pos)

declare diskstreamer_read.simps [simp del]

function diskstreamer_read_to ::
    "ata_device \<Rightarrow> ptr \<Rightarrow> ptr \<Rightarrow> int \<Rightarrow> 'a kstate_scheme \<Rightarrow> int \<times> 'a kstate_scheme" where
  "diskstreamer_read_to dev stream out tot s =
     (let pos = ds_pos (km s) stream;
          sector = pos sdiv LIEBE_OS_SECTOR_SIZE;
          offset = pos smod LIEBE_OS_SECTOR_SIZE;
          overflow = LIEBE_OS_SECTOR_SIZE \<le> offset + tot;
          total_to_read = (if overflow then tot - (offset + tot - LIEBE_OS_SECTOR_SIZE) else tot);
          (res, buffer) = disk_read_block dev (ds_disk (km s) stream) (c_uint sector) 1 s
      in if res < 0 then (res, s)
         else
           let bs = map (\<lambda>i. buffer ! nat (offset + int i)) [0..<nat total_to_read];
               s = s\<lparr>km := write_bytes out bs (km s)\<rparr>;
               s = s\<lparr>km := store32 (km s) stream (c_uint (ds_pos (km s) stream + total_to_read))\<rparr>
           in if overflow
              then diskstreamer_read_to dev stream (out + of_nat (length bs)) (tot - LIEBE_OS_SECTOR_SIZE) s
              else (res, s))"
  by pat_completeness auto
termination
  by (relation "measure (\<lambda>(dev, stream, out, tot, s). nat tot)") (auto dest: sector_overflow_pos)

declare diskstreamer_read_to.simps [simp del]

definition free_diskstreamer :: "ptr \<Rightarrow> 'a kstate_scheme \<Rightarrow> 'a kstate_scheme" where
  "free_diskstreamer stream s = s\<lparr>km := kfree (kheap s) stream (km s)\<rparr>"

section \<open>A destination beside the stream\<close>

lemma write_bytes_append: "write_bytes p (as @ bs) m = write_bytes (p + of_nat (length as)) bs (write_bytes p as m)"
  by (induction as arbitrary: p m) (simp_all add: add.assoc)

lemma disj_range_tail: "disj_range p (Suc n) q k \<Longrightarrow> disj_range (p + 1) n q k"
proof (rule disj_rangeI)
  fix a assume d: "disj_range p (Suc n) q k" and a: "in_range (p + 1) n a" "in_range q k a"
  have "in_range p (Suc n) a" using a(1) by (cases "a = p") (auto simp: in_range_Suc unat_eq_zero)
  then show False using disj_rangeD [OF d] a(2) by simp
qed

lemma disj_range_append: "disj_range p (n + n') q k \<Longrightarrow> disj_range p n q k \<and> disj_range (p + of_nat n) n' q k"
proof (induction n arbitrary: p)
  case 0
  then show ?case by (simp add: disj_range_def in_range_zero)
next
  case (Suc n)
  have "disj_range p (Suc n) q k"
    using disj_range_mono [OF Suc.prems, of "Suc n" k] by simp
  then show ?case using Suc.IH [of "p + 1"] disj_range_tail [of p "n + n'" q k] Suc.prems by (simp add: add.assoc)
qed

lemma write_bytes_outside: "disj_range p (length bs) q k \<Longrightarrow> in_range q k a \<Longrightarrow> write_bytes p bs m a = m a"
proof (induction bs arbitrary: p m)
  case (Cons b bs)
  have "a \<noteq> p" using disj_rangeD [OF Cons.prems(1), of p] Cons.prems(2) by (auto simp: in_range_start)
  then show ?case using Cons.IH [OF disj_range_tail] Cons.prems by simp
qed simp

lemma write_bytes_store32:
  "disj_range p (length bs) q 4 \<Longrightarrow> write_bytes p bs (store32 m q v) = store32 (write_bytes p bs m) q v"
proof (induction bs arbitrary: p m)
  case (Cons b bs)
  have "\<not> in_range q 4 p" using disj_rangeD [OF Cons.prems, of p] by (simp add: in_range_start)
  then have "(store32 m q v)(p := b) = store32 (m(p := b)) q v"
    by (auto simp: store32_def fun_eq_iff in_range_4)
  moreover have "write_bytes (p + 1) bs (store32 (m(p := b)) q v) = store32 (write_bytes (p + 1) bs (m(p := b))) q v"
    using Cons.prems by (intro Cons.IH disj_range_tail) simp
  ultimately show ?case by (simp only: write_bytes.simps)
qed simp

lemma stream_range: "disj_range p n stream 8 \<Longrightarrow> disj_range p n stream 4 \<and> disj_range p n (stream + 4) 4"
  using disj_range_append [of stream 4 4 p n] by (simp add: disj_range_sym)

text \<open>The fields of the stream survive a store beside it, and the read takes no other part of the
  memory into account.\<close>

lemma stream_write_bytes:
  assumes "disj_range out (length ws) stream 8"
  shows "ds_pos (write_bytes out ws m) stream = ds_pos m stream" "ds_disk (write_bytes out ws m) stream = ds_disk m stream"
  using assms write_bytes_outside stream_range [OF assms]
  by (auto simp: ds_pos_def ds_disk_def intro!: arg_cong [where f = c_int] load32_cong)

lemma diskstreamer_read_write_bytes:
  assumes d: "disj_range out (length ws) stream 8"
  shows "diskstreamer_read dev stream tot (s\<lparr>km := write_bytes out ws (km s)\<rparr>) =
    (let (res, bs, s') = diskstreamer_read dev stream tot s in (res, bs, s'\<lparr>km := write_bytes out ws (km s')\<rparr>))"
  using d
proof (induction dev stream tot s rule: diskstreamer_read.induct)
  case (1 dev stream tot s)
  note fields = stream_write_bytes [OF "1.prems"]
    and store = write_bytes_store32 [OF conjunct1 [OF stream_range [OF "1.prems"]], symmetric]
  have block: "disk_read_block dev d l n (s\<lparr>km := m\<rparr>) = disk_read_block dev d l n s" for d l n m
    by (simp add: disk_read_block_def)
  show ?case
    using "1.IH" [OF refl refl refl refl refl refl prod.collapse _ refl refl _ "1.prems"]
    unfolding diskstreamer_read.simps [of dev stream tot]
    by (simp add: Let_def fields block store split_beta)
qed

text \<open>The two reads agree: sector by sector, or all the bytes at the end.\<close>

lemma diskstreamer_read_to_bytes:
  "disj_range out (length (fst (snd (diskstreamer_read dev stream tot s)))) stream 8 \<Longrightarrow>
    diskstreamer_read_to dev stream out tot s =
      (let (res, bs, s') = diskstreamer_read dev stream tot s in (res, s'\<lparr>km := write_bytes out bs (km s')\<rparr>))"
proof (induction dev stream out tot s rule: diskstreamer_read_to.induct)
  case (1 dev stream out tot s)
  let ?pos = "ds_pos (km s) stream"
  let ?off = "?pos smod 512" and ?blk = "disk_read_block dev (ds_disk (km s) stream) (c_uint (?pos sdiv 512)) 1 s"
  let ?n = "if 512 \<le> ?off + tot then tot - (?off + tot - 512) else tot"
  let ?bs = "map (\<lambda>i. snd ?blk ! nat (?off + int i)) [0..<nat ?n]"
  let ?s1 = "s\<lparr>km := store32 (km s) stream (c_uint (?pos + ?n))\<rparr>"
  let ?s2 = "?s1\<lparr>km := write_bytes out ?bs (km ?s1)\<rparr>"
  let ?rest = "diskstreamer_read dev stream (tot - 512) ?s1"
  have read: "diskstreamer_read dev stream tot s =
      (if fst ?blk < 0 then (fst ?blk, [], s)
       else if 512 \<le> ?off + tot then (fst ?rest, ?bs @ fst (snd ?rest), snd (snd ?rest))
       else (fst ?blk, ?bs, ?s1))"
    unfolding diskstreamer_read.simps [of dev stream tot s] by (simp add: Let_def split_beta)
  show ?case
  proof (cases "fst ?blk < 0")
    case True
    then show ?thesis
      unfolding diskstreamer_read_to.simps [of dev stream out tot s] read by (simp add: Let_def split_beta)
  next
    case False
    have d: "disj_range out (length ?bs + (if 512 \<le> ?off + tot then length (fst (snd ?rest)) else 0)) stream 8"
      using "1.prems" False unfolding read by (simp split: if_splits)
    note d1 = conjunct1 [OF disj_range_append [OF d]] and d2 = conjunct2 [OF disj_range_append [OF d]]
    have step: "diskstreamer_read_to dev stream out tot s =
        (if 512 \<le> ?off + tot then diskstreamer_read_to dev stream (out + of_nat (length ?bs)) (tot - 512) ?s2
         else (fst ?blk, ?s2))"
      unfolding diskstreamer_read_to.simps [of dev stream out tot s]
      using False stream_write_bytes [OF d1] write_bytes_store32 [OF conjunct1 [OF stream_range [OF d1]], symmetric]
      by (cases "512 \<le> ?off + tot") (simp_all add: Let_def split_beta)
    show ?thesis
    proof (cases "512 \<le> ?off + tot")
      case True
      let ?to = "diskstreamer_read_to dev stream (out + of_nat (length ?bs)) (tot - 512) ?s2"
      have rest: "diskstreamer_read dev stream (tot - 512) ?s2 =
          (fst ?rest, fst (snd ?rest), snd (snd ?rest)\<lparr>km := write_bytes out ?bs (km (snd (snd ?rest)))\<rparr>)"
        using diskstreamer_read_write_bytes [OF d1, of dev "tot - 512" ?s1] by (simp add: split_beta)
      have "?to = (fst ?rest, (snd (snd ?rest))\<lparr>km := write_bytes (out + of_nat (length ?bs)) (fst (snd ?rest))
          (write_bytes out ?bs (km (snd (snd ?rest))))\<rparr>)"
      proof -
        let ?s0 = "s\<lparr>km := write_bytes out ?bs (km s)\<rparr>"
        have st: "?s0\<lparr>km := store32 (km ?s0) stream (c_uint (ds_pos (km ?s0) stream + ?n))\<rparr> = ?s2"
          using stream_write_bytes(1) [OF d1, of "km s"] True
            write_bytes_store32 [OF conjunct1 [OF stream_range [OF d1]], symmetric, of "km s"] by simp
        have "disj_range (out + of_nat (length ?bs)) (length (fst (snd (diskstreamer_read dev stream (tot - 512) ?s2)))) stream 8"
          using d2 True unfolding rest by simp
        then show ?thesis
          using "1.IH" [OF refl refl refl refl refl refl prod.collapse False refl refl refl True]
          unfolding st rest by simp
      qed
      then show ?thesis
        unfolding step read using True False by (simp add: write_bytes_append del: write_bytes.simps)
    next
      case no: False
      then show ?thesis unfolding step read using False by simp
    qed
  qed
qed

section \<open>The drive\<close>

text \<open>
  What a drive does, from the register file a series of port writes leaves: after the read command,
  the data port delivers the words of the sectors from the addressed one on. The image \<open>img\<close> is the
  contents of the disk, byte by byte.
\<close>

definition ata_reg :: "(u16 \<times> u8) list \<Rightarrow> u16 \<Rightarrow> u8" where
  "ata_reg cmds port = (case map_of (rev cmds) port of Some v \<Rightarrow> v | None \<Rightarrow> 0)"

definition ata_lba :: "(u16 \<times> u8) list \<Rightarrow> nat" where
  "ata_lba cmds = unat (ata_reg cmds 0x1F3) + 256 * unat (ata_reg cmds 0x1F4)
     + 65536 * unat (ata_reg cmds 0x1F5) + 16777216 * unat (ata_reg cmds 0x1F6 AND 0x0F)"

definition image_word :: "(nat \<Rightarrow> u8) \<Rightarrow> nat \<Rightarrow> u16" where
  "image_word img k = ucast (img k) OR push_bit 8 (ucast (img (k + 1)))"

definition ata_drive :: "ata_device \<Rightarrow> (nat \<Rightarrow> u8) \<Rightarrow> bool" where
  "ata_drive dev img \<longleftrightarrow> (\<forall>cmds i. cmds \<noteq> [] \<and> last cmds = (0x1F7, 0x20)
     \<and> i < 256 * unat (ata_reg cmds 0x1F2) \<longrightarrow> dev cmds i = image_word img (512 * ata_lba cmds + 2 * i))"

text \<open>A drive that keeps this contract, for concrete images.\<close>

definition drive_of :: "(nat \<Rightarrow> u8) \<Rightarrow> ata_device" where
  "drive_of img cmds i = image_word img (512 * ata_lba cmds + 2 * i)"

lemma ata_drive_drive_of: "ata_drive (drive_of img) img"
  by (simp add: ata_drive_def drive_of_def)

definition disk_bytes :: "(nat \<Rightarrow> u8) \<Rightarrow> nat \<Rightarrow> nat \<Rightarrow> u8 list" where
  "disk_bytes img pos n = map (\<lambda>i. img (pos + i)) [0..<n]"

lemma length_disk_bytes [simp]: "length (disk_bytes img pos n) = n"
  by (simp add: disk_bytes_def)

lemma disk_bytes_append: "disk_bytes img pos n @ disk_bytes img (pos + n) k = disk_bytes img pos (n + k)"
  by (rule nth_equalityI) (auto simp: disk_bytes_def nth_append)

lemma word_bytes_image: "word_bytes (image_word img k) = [img k, img (k + 1)]"
proof -
  have "ucast (image_word img k) = img k"
    by (rule bit_word_eqI) (simp add: image_word_def bit_simps)
  moreover have "ucast (drop_bit 8 (image_word img k)) = img (k + 1)"
    by (rule bit_word_eqI) (auto simp: image_word_def bit_simps dest: bit_imp_le_length)
  ultimately show ?thesis by (simp add: word_bytes_def)
qed

lemma concat_pairs: "concat (map (\<lambda>i. [f (2 * i), f (2 * i + 1)]) [0..<n]) = map f [0..<2 * n]"
  by (induction n) simp_all

text \<open>The registers hold the 28 bits of the sector number.\<close>

lemma ucast_signed_drop_bit:
  "n \<le> 24 \<Longrightarrow> ucast (signed_drop_bit n w) = (ucast (drop_bit n w) :: u8)" for w :: u32
  by (rule bit_word_eqI) (auto simp: bit_simps)

lemma lba_top_nibble: "ucast (signed_drop_bit 24 w OR 0xE0) AND 0x0F = (ucast (drop_bit 24 w) AND 0x0F :: u8)"
  for w :: u32
proof -
  have "(ucast (signed_drop_bit 24 w OR 0xE0) :: u8) = ucast (drop_bit 24 w) OR 0xE0"
    by (simp add: unsigned_or_eq ucast_signed_drop_bit)
  moreover have "(x OR 0xE0) AND 0x0F = x AND 0x0F" for x :: u8
    by (simp add: bit.conj_disj_distrib2)
  ultimately show ?thesis by simp
qed

lemma unat_byte_of: "unat (ucast (drop_bit n w) :: u8) = unat w div 2 ^ n mod 256" for w :: u32
proof -
  have "unat (drop_bit n w) = unat w div 2 ^ n"
    unfolding unat_drop_bit_eq by (rule drop_bit_eq_div)
  then show ?thesis by (simp add: unsigned_ucast_eq take_bit_eq_mod)
qed

lemma ata_lba_read_command:
  assumes "unat lba < 268435456"
  shows "ata_lba (ata_read_command lba tot) = unat lba"
proof -
  let ?n = "unat lba"
  have "unat (ucast (lba AND 0xFF) :: u8) = ?n mod 256"
  proof -
    have "lba AND 0xFF = take_bit 8 lba" by (simp add: take_bit_eq_mask mask_eq_exp_minus_1)
    then show ?thesis by (simp add: unsigned_ucast_eq take_bit_eq_mod unat_mod)
  qed
  moreover have "unat (ucast (drop_bit 24 lba) AND 0x0F :: u8) = ?n div 16777216"
  proof -
    have "(ucast (drop_bit 24 lba) AND 0x0F :: u8) = take_bit 4 (ucast (drop_bit 24 lba))"
      by (simp add: take_bit_eq_mask mask_eq_exp_minus_1)
    then have "unat (ucast (drop_bit 24 lba) AND 0x0F :: u8) = ?n div 16777216 mod 256 mod 16"
      by (simp add: unat_mod take_bit_eq_mod unat_byte_of)
    moreover have "?n div 16777216 < 16" using assms by (simp add: div_less_iff_less_mult)
    ultimately show ?thesis by simp
  qed
  ultimately have "ata_lba (ata_read_command lba tot) =
      ?n mod 256 + 256 * (?n div 256 mod 256) + 65536 * (?n div 65536 mod 256) + 16777216 * (?n div 16777216)"
    by (simp add: ata_lba_def ata_reg_def ata_read_command_def lba_top_nibble ucast_signed_drop_bit unat_byte_of)
  also have "\<dots> = ?n"
  proof -
    have "?n div 65536 = ?n div 256 div 256" "?n div 16777216 = ?n div 65536 div 256"
      by (simp_all add: div_mult2_eq [symmetric])
    then show ?thesis
      using mult_div_mod_eq [of 256 ?n] mult_div_mod_eq [of 256 "?n div 256"]
        mult_div_mod_eq [of 256 "?n div 65536"] by linarith
  qed
  finally show ?thesis .
qed

lemma disk_read_sector_image:
  assumes "ata_drive dev img" and "unat lba < 268435456"
  shows "disk_read_sector dev lba 1 = (0, disk_bytes img (512 * unat lba) 512)"
proof -
  let ?c = "ata_read_command lba 1"
  have "?c \<noteq> []" "last ?c = (0x1F7, 0x20)" "ata_reg ?c 0x1F2 = 1"
    by (simp_all add: ata_read_command_def ata_reg_def)
  then have w: "word_bytes (dev ?c i) = [img (512 * unat lba + 2 * i), img (512 * unat lba + (2 * i + 1))]"
    if "i < 256" for i
    using assms(1) that ata_lba_read_command [OF assms(2)] by (simp add: ata_drive_def word_bytes_image)
  have "concat (map (\<lambda>i. word_bytes (dev ?c i)) [0..<256])
      = concat (map (\<lambda>i. [img (512 * unat lba + 2 * i), img (512 * unat lba + (2 * i + 1))]) [0..<256])"
    using w by (intro arg_cong [where f = concat] map_cong) auto
  also have "\<dots> = disk_bytes img (512 * unat lba) 512"
    using concat_pairs [of "\<lambda>j. img (512 * unat lba + j)" 256] by (simp add: disk_bytes_def)
  finally show ?thesis by (simp add: disk_read_sector_def)
qed

section \<open>Streams over a drive\<close>

definition at_pos :: "ptr \<Rightarrow> int \<Rightarrow> 'a kstate_scheme \<Rightarrow> 'a kstate_scheme" where
  "at_pos stream pos s = s\<lparr>km := store32 (km s) stream (c_uint pos)\<rparr>"

definition stream_on :: "ptr \<Rightarrow> 'a kstate_scheme \<Rightarrow> bool" where
  "stream_on stream s \<longleftrightarrow> ds_disk (km s) stream = disk_obj_at s"

lemma diskstreamer_seek_eq: "diskstreamer_seek stream pos s = (0, at_pos stream pos s)"
  by (simp add: diskstreamer_seek_def at_pos_def)

lemma stream_words_disj: "disj_range p 4 (p + 4) 4"
  by (simp add: disj_range_def)

lemma stream_on_at_pos [simp]: "stream_on stream (at_pos stream pos s) = stream_on stream s"
  by (simp add: stream_on_def at_pos_def ds_disk_def load32_store32_disj [OF stream_words_disj])

lemma ds_pos_at_pos:
  "- 2147483648 \<le> pos \<Longrightarrow> pos < 2147483648 \<Longrightarrow> ds_pos (km (at_pos stream pos s)) stream = pos"
  by (simp add: ds_pos_def at_pos_def load32_store32 signed_of_int signed_take_bit_int_eq_self)

lemma store32_twice: "store32 (store32 m p v) p w = store32 m p w"
  by (auto simp: store32_def fun_eq_iff)

lemma at_pos_twice [simp]: "at_pos stream p (at_pos stream q s) = at_pos stream p s"
  by (simp add: at_pos_def store32_twice)

lemma buffer_slice:
  assumes "off + n \<le> 512"
  shows "map (\<lambda>i. disk_bytes img p 512 ! nat (int off + int i)) [0..<n] = disk_bytes img (p + off) n"
proof -
  have "nat (int off + int i) = off + i" for i by simp
  then show ?thesis using assms by (auto simp: disk_bytes_def add.assoc intro!: map_cong)
qed

lemma disk_read_block_image:
  assumes "ata_drive dev img" and "stream_on stream s" and "k < 4194304"
  shows "disk_read_block dev (ds_disk (km s) stream) (c_uint (int k)) 1 s = (0, disk_bytes img (512 * k) 512)"
proof -
  have "unat (c_uint (int k)) = k" using assms(3) unat_of_nat_u32 [of k] by simp
  then show ?thesis using assms disk_read_sector_image [OF assms(1), of "c_uint (int k)"]
    by (simp add: disk_read_block_def stream_on_def)
qed

lemma sector_split: "int (512 * k + off) sdiv 512 = int k" "int (512 * k + off) smod 512 = int off"
  if "off < 512"
proof -
  have "(512 * k + off) div 512 = k" "(512 * k + off) mod 512 = off" using that by simp_all
  then show "int (512 * k + off) sdiv 512 = int k" "int (512 * k + off) smod 512 = int off"
    by (simp_all add: signed_divide_int_def signed_modulo_int_def zdiv_int [symmetric] zmod_int [symmetric]
        sgn_if del: of_nat_add of_nat_mult) auto
qed

text \<open>One sector of a read.\<close>

lemma diskstreamer_read_step:
  assumes "ata_drive dev img" and "stream_on stream s" and "ds_pos (km s) stream = int (512 * k + off)"
    and "off < 512" and "k < 4194304"
  shows "diskstreamer_read dev stream tot s =
    (if 512 \<le> int off + tot then
       let (res, bs, s') = diskstreamer_read dev stream (tot - 512) (at_pos stream (int (512 * Suc k)) s)
       in (res, disk_bytes img (512 * k + off) (512 - off) @ bs, s')
     else (0, disk_bytes img (512 * k + off) (nat tot), at_pos stream (int (512 * k + off) + tot) s))"
proof (cases "512 \<le> int off + tot")
  case True
  have n: "nat (tot - (int off + tot - 512)) = 512 - off" using assms(4) by simp
  have p: "int (512 * k + off) + (tot - (int off + tot - 512)) = int (512 * Suc k)" by simp
  show ?thesis
    using True buffer_slice [of off "512 - off" img "512 * k"] assms(4)
      disk_read_block_image [OF assms(1,2,5)]
    unfolding diskstreamer_read.simps [of dev stream tot s] assms(3) sector_split [OF assms(4)] Let_def
    by (simp only: n p at_pos_def [symmetric] split_beta prod.case if_True) simp
next
  case False
  have "off + nat tot \<le> 512" using False assms(4) by (cases "0 \<le> tot") auto
  then show ?thesis
    using False buffer_slice [of off "nat tot" img "512 * k"] disk_read_block_image [OF assms(1,2,5)]
    unfolding diskstreamer_read.simps [of dev stream tot s] assms(3) sector_split [OF assms(4)] Let_def
    by (simp add: at_pos_def)
qed

lemma diskstreamer_read_aligned:
  "ata_drive dev img \<Longrightarrow> stream_on stream s \<Longrightarrow> ds_pos (km s) stream = int (512 * k) \<Longrightarrow>
    int (512 * k) + tot < 2147483648 \<Longrightarrow> - 2147483648 \<le> tot \<Longrightarrow> k < 4194304 \<Longrightarrow>
    diskstreamer_read dev stream tot s = (0, disk_bytes img (512 * k) (nat tot), at_pos stream (int (512 * k) + tot) s)"
proof (induction "nat tot" arbitrary: tot k s rule: less_induct)
  case less
  note step = diskstreamer_read_step [OF less.prems(1,2), of k 0 tot, simplified, OF less.prems(3) [simplified] less.prems(6)]
  show ?case
  proof (cases "512 \<le> tot")
    case True
    let ?s = "at_pos stream (int (512 * Suc k)) s"
    have k: "Suc k < 4194304" using True less.prems(4) by simp
    have "diskstreamer_read dev stream (tot - 512) ?s =
        (0, disk_bytes img (512 * Suc k) (nat (tot - 512)), at_pos stream (int (512 * Suc k) + (tot - 512)) ?s)"
      using less.prems True k by (intro less.hyps) (auto simp: ds_pos_at_pos)
    then show ?thesis
      using True step disk_bytes_append [of img "512 * k" 512 "nat (tot - 512)"]
      by (simp add: nat_diff_distrib add.commute)
  next
    case False
    then show ?thesis using step by simp
  qed
qed

lemma write_bytes_apply:
  "length bs \<le> 4294967296 \<Longrightarrow>
    write_bytes p bs m a = (if in_range p (length bs) a then bs ! unat (a - p) else m a)"
proof (induction bs arbitrary: p m)
  case Nil
  show ?case by (simp add: in_range_zero)
next
  case (Cons b bs)
  have IH: "write_bytes (p + 1) bs (m(p := b)) a =
      (if in_range (p + 1) (length bs) a then bs ! unat (a - (p + 1)) else (m(p := b)) a)"
    using Cons by simp
  show ?case
  proof (cases "a = p")
    case True
    moreover have "unat (- 1 :: u32) = 4294967295" by (simp add: unsigned_minus_1_eq_mask mask_eq_exp_minus_1)
    ultimately have "\<not> in_range (p + 1) (length bs) a" using Cons.prems by (simp add: in_range_def)
    then show ?thesis using IH True by (simp add: in_range_start)
  next
    case False
    then have "unat (a - p) \<noteq> 0" by (simp add: unat_eq_0)
    then have "unat (a - p) = Suc (unat (a - (p + 1)))"
      using unat_diff_Suc [OF False] by simp
    then show ?thesis using IH False by (simp add: in_range_def)
  qed
qed

section \<open>Properties\<close>

text \<open>A sector read through the driver is the addressed sector of the drive, for all sector
  numbers of 28 bits; a pointer that is not the kernel's disk is refused.\<close>

lemma disk_read_block_sector:
  assumes "ata_drive dev img" and "unat lba < 268435456"
  shows "disk_read_block dev (disk_obj_at s) lba 1 s = (0, map (\<lambda>i. img (512 * unat lba + i)) [0..<512])
    \<and> (\<forall>d. d \<noteq> disk_obj_at s \<longrightarrow> disk_read_block dev d lba 1 s = (- EIO, []))"
  using disk_read_sector_image [OF assms] by (simp add: disk_read_block_def disk_bytes_def)

lemma diskstreamer_read_result:
  assumes "ata_drive dev img" and "stream_on stream s" and "ds_pos (km s) stream = int (512 * k + off)"
    and "off < 512" and "0 \<le> tot" and "int (512 * Suc k) + tot < 2147483648"
  shows "diskstreamer_read dev stream tot s =
    (if off = 0 \<or> int off + tot < 512
     then (0, disk_bytes img (512 * k + off) (nat tot), at_pos stream (int (512 * k + off) + tot) s)
     else (0, disk_bytes img (512 * k + off) (max (512 - off) (nat tot - off)),
           at_pos stream (int (512 * k + off) + tot - int off) s))"
proof (cases "int off + tot < 512")
  case True
  then show ?thesis using diskstreamer_read_step [OF assms(1-4)] assms(5,6) by simp
next
  case False
  let ?s = "at_pos stream (int (512 * Suc k)) s"
  have k: "Suc k < 4194304" using assms(5,6) by simp
  have rec: "diskstreamer_read dev stream (tot - 512) ?s =
      (0, disk_bytes img (512 * Suc k) (nat (tot - 512)), at_pos stream (int (512 * Suc k) + (tot - 512)) ?s)"
    using assms k by (intro diskstreamer_read_aligned) (auto simp: ds_pos_at_pos)
  have e: "512 * k + off + (512 - off) = 512 * Suc k" using assms(4) by simp
  have l: "512 - off + nat (tot - 512) = max (512 - off) (nat tot - off)" using assms(4) by auto
  have "disk_bytes img (512 * k + off) (512 - off) @ disk_bytes img (512 * Suc k) (nat (tot - 512))
      = disk_bytes img (512 * k + off) (max (512 - off) (nat tot - off))"
    using disk_bytes_append [of img "512 * k + off" "512 - off" "nat (tot - 512)"] unfolding e l .
  then have "diskstreamer_read dev stream tot s =
      (0, disk_bytes img (512 * k + off) (max (512 - off) (nat tot - off)),
       at_pos stream (int (512 * Suc k) + (tot - 512)) s)"
    using diskstreamer_read_step [OF assms(1-4), of tot] False rec k by simp
  then show ?thesis using False by (cases "off = 0") auto
qed

text \<open>C28. What \<^verbatim>\<open>diskstreamer_read\<close> delivers: the bytes of the disk from the position on, and the
  position moved by their number, when the position is at a sector boundary or the read ends before
  the next one. In every other case the recursive call asks for the offset in the sector too few
  bytes: the position moves by the length less the offset, and only that many bytes (or the rest
  of the sector) arrive.\<close>

theorem diskstreamer_read_exact:
  assumes "ata_drive dev img" and "stream_on stream s" and "ds_pos (km s) stream = int (512 * k + off)"
    and "off < 512" and "0 \<le> tot" and "int (512 * Suc k) + tot < 2147483648"
  shows "diskstreamer_read dev stream tot s =
    (if off = 0 \<or> int off + tot < 512
     then (0, disk_bytes img (512 * k + off) (nat tot), at_pos stream (int (512 * k + off) + tot) s)
     else (0, disk_bytes img (512 * k + off) (max (512 - off) (nat tot - off)),
           at_pos stream (int (512 * k + off) + tot - int off) s))"
  using diskstreamer_read_result [OF assms] .

text \<open>A state with a stream at 480 over a disk with byte \<open>i mod 256\<close> at offset \<open>i\<close>.\<close>

definition example_disk :: "nat \<Rightarrow> u8" where
  "example_disk i = of_nat i"

definition example_kstate :: kstate where
  "example_kstate = \<lparr>km = store32 (store32 (\<lambda>_. 0) 0x100 480) 0x104 0x2000, kheap = kernel_heap,
     disk_obj = \<lparr>dk_type = 0, sector_size = 512, dk_id = 0, filesystem = 0, fs_private = 0\<rparr>,
     disk_obj_at = 0x2000\<rparr>"

lemma example_kstate_stream: "stream_on 0x100 example_kstate" "ds_pos (km example_kstate) 0x100 = 480"
  by (simp_all add: stream_on_def ds_disk_def ds_pos_def example_kstate_def load32_store32
      load32_store32_disj disj_range_def)

theorem diskstreamer_read_exact_witness:
  "diskstreamer_read (drive_of example_disk) 0x100 32 example_kstate =
     (0, disk_bytes example_disk 480 32, at_pos 0x100 32 example_kstate)"
  using diskstreamer_read_exact [OF ata_drive_drive_of [of example_disk] example_kstate_stream(1), of 0 480 32]
    example_kstate_stream(2) by simp

end
