(* ===== verification/CString.thy ===== *)
theory CString
  imports Memory
begin

text \<open>
  \<^verbatim>\<open>src/src/string/string.c\<close>: the string functions of the kernel on the flat memory. A \<^verbatim>\<open>char\<close> is
  signed on the i386 target; the loops that stop only at a zero byte are partial, the counted ones
  recurse on the \<^verbatim>\<open>int\<close> they count with. The lemmas read a string as the list of its bytes
  (\<open>cstr\<close>).
\<close>

section \<open>Operations\<close>

partial_function (option) strlen_loop :: "mem \<Rightarrow> ptr \<Rightarrow> u32 \<Rightarrow> u32 option" where
  "strlen_loop m ptr len = (if m ptr \<noteq> 0 then strlen_loop m (ptr + 1) (len + 1) else Some len)"

definition strlen :: "mem \<Rightarrow> ptr \<Rightarrow> u32 option" where
  "strlen m ptr = strlen_loop m ptr 0"

function strnlen_loop :: "mem \<Rightarrow> ptr \<Rightarrow> int \<Rightarrow> int \<Rightarrow> u32 \<Rightarrow> u32" where
  "strnlen_loop m ptr mx i len =
     (if i < mx then
        if m (ptr + c_uint i) = 0 then len else strnlen_loop m ptr mx (i + 1) (len + 1)
      else len)"
  by pat_completeness auto
termination by (relation "measure (\<lambda>(m, ptr, mx, i, len). nat (mx - i))") auto

definition strnlen :: "mem \<Rightarrow> ptr \<Rightarrow> int \<Rightarrow> u32" where
  "strnlen m ptr mx = strnlen_loop m ptr mx 0 0"

definition is_digit :: "u8 \<Rightarrow> bool" where
  "is_digit c \<longleftrightarrow> 48 \<le> sint c \<and> sint c \<le> 57"

definition atoi :: "u8 \<Rightarrow> int" where
  "atoi c = sint c - 48"

partial_function (option) strcpy_loop :: "mem \<Rightarrow> ptr \<Rightarrow> ptr \<Rightarrow> mem option" where
  "strcpy_loop m dest src =
     (if m src \<noteq> 0 then strcpy_loop (m(dest := m src)) (dest + 1) (src + 1) else Some m)"

definition strcpy :: "mem \<Rightarrow> ptr \<Rightarrow> ptr \<Rightarrow> (ptr \<times> mem) option" where
  "strcpy m dest src = map_option (Pair dest) (strcpy_loop m dest src)"

function strncpy_loop :: "mem \<Rightarrow> ptr \<Rightarrow> ptr \<Rightarrow> int \<Rightarrow> int \<Rightarrow> int \<times> mem" where
  "strncpy_loop m dest src count i =
     (if i < count - 1 then
        if m (src + c_uint i) = 0 then (i, m)
        else strncpy_loop (m(dest + c_uint i := m (src + c_uint i))) dest src count (i + 1)
      else (i, m))"
  by pat_completeness auto
termination by (relation "measure (\<lambda>(m, dest, src, count, i). nat (count - 1 - i))") auto

definition strncpy :: "mem \<Rightarrow> ptr \<Rightarrow> ptr \<Rightarrow> int \<Rightarrow> ptr \<times> mem" where
  "strncpy m dest src count =
     (let (i, m) = strncpy_loop m dest src count 0 in (dest, m(dest + c_uint i := 0)))"

function strncmp :: "mem \<Rightarrow> ptr \<Rightarrow> ptr \<Rightarrow> int \<Rightarrow> int" where
  "strncmp m str1 str2 n =
     (if 0 < n then
        if m str1 \<noteq> m str2 then uint (m str1) - uint (m str2)
        else if m str1 = 0 then 0
        else strncmp m (str1 + 1) (str2 + 1) (n - 1)
      else 0)"
  by pat_completeness auto
termination by (relation "measure (\<lambda>(m, p, q, n). nat n)") auto

definition to_lower :: "u8 \<Rightarrow> u8" where
  "to_lower c = (if 65 \<le> sint c \<and> sint c \<le> 90 then c + 32 else c)"

function istrncmp :: "mem \<Rightarrow> ptr \<Rightarrow> ptr \<Rightarrow> int \<Rightarrow> int" where
  "istrncmp m str1 str2 n =
     (if 0 < n then
        if m str1 \<noteq> m str2 \<and> to_lower (m str1) \<noteq> to_lower (m str2)
        then uint (m str1) - uint (m str2)
        else if m str1 = 0 then 0
        else istrncmp m (str1 + 1) (str2 + 1) (n - 1)
      else 0)"
  by pat_completeness auto
termination by (relation "measure (\<lambda>(m, p, q, n). nat n)") auto

function strnlen_terminator_loop :: "mem \<Rightarrow> ptr \<Rightarrow> int \<Rightarrow> u8 \<Rightarrow> int \<Rightarrow> int" where
  "strnlen_terminator_loop m str mx terminator i =
     (if i \<le> mx then
        if m (str + c_uint i) = 0 \<or> m (str + c_uint i) = terminator then i
        else strnlen_terminator_loop m str mx terminator (i + 1)
      else i)"
  by pat_completeness auto
termination by (relation "measure (\<lambda>(m, str, mx, t, i). nat (mx + 1 - i))") auto

definition strnlen_terminator :: "mem \<Rightarrow> ptr \<Rightarrow> int \<Rightarrow> u8 \<Rightarrow> int" where
  "strnlen_terminator m str mx terminator = strnlen_terminator_loop m str mx terminator 0"

declare strnlen_loop.simps [simp del] strncpy_loop.simps [simp del] strncmp.simps [simp del]
  istrncmp.simps [simp del] strnlen_terminator_loop.simps [simp del]

section \<open>Strings as lists\<close>

text \<open>The zero-terminated bytes at an address.\<close>

fun cstr :: "mem \<Rightarrow> ptr \<Rightarrow> u8 list \<Rightarrow> bool" where
  "cstr m p [] \<longleftrightarrow> m p = 0"
| "cstr m p (c # cs) \<longleftrightarrow> m p = c \<and> c \<noteq> 0 \<and> cstr m (p + 1) cs"

lemma cstr_unique: "cstr m p s \<Longrightarrow> cstr m p t \<Longrightarrow> s = t"
proof (induction s arbitrary: p t)
  case Nil
  then show ?case by (cases t) auto
next
  case (Cons c s)
  then show ?case by (cases t) auto
qed

lemma cstr_cong:
  "(\<And>a. in_range p (Suc (length s)) a \<Longrightarrow> m a = m' a) \<Longrightarrow> length s < 4294967295 \<Longrightarrow>
    cstr m p s = cstr m' p s"
proof (induction s arbitrary: p)
  case Nil
  show ?case using Nil(1) [of p] by (simp add: in_range_start)
next
  case (Cons c s)
  have "m p = m' p" using Cons.prems(1) [of p] by (simp add: in_range_start)
  moreover have "cstr m (p + 1) s = cstr m' (p + 1) s"
  proof (rule Cons.IH)
    fix a assume a: "in_range (p + 1) (Suc (length s)) a"
    have "in_range p (Suc (Suc (length s))) a"
      by (rule in_range_offset [OF in_range_mono [of p 2] _ a])
        (use Cons.prems(2) in \<open>simp_all add: in_range_2\<close>)
    then show "m a = m' a" using Cons.prems(1) by simp
  qed (use Cons.prems(2) in simp)
  ultimately show ?case by simp
qed

lemma strlen_loop_cstr: "cstr m p s \<Longrightarrow> strlen_loop m p len = Some (len + of_nat (length s))"
proof (induction s arbitrary: p len)
  case Nil
  then show ?case by (subst strlen_loop.simps) simp
next
  case (Cons c s)
  then show ?case by (subst strlen_loop.simps) (simp add: add.assoc)
qed

lemma strlen_loop_returns:
  assumes "strlen_loop m p len = Some r"
  shows "\<exists>k. m (p + of_nat k) = 0"
  using assms
proof (rule strlen_loop.raw_induct [rotated, where P = "\<lambda>m p len r. \<exists>k. m (p + of_nat k) = 0"])
  fix f :: "mem \<Rightarrow> ptr \<Rightarrow> u32 \<Rightarrow> u32 option" and m :: mem and p :: ptr and len r :: u32
  assume IH: "\<And>m p len r. f m p len = Some r \<Longrightarrow> \<exists>k. m (p + of_nat k) = 0"
    and f: "(if m p \<noteq> 0 then f m (p + 1) (len + 1) else Some len) = Some r"
  show "\<exists>k. m (p + of_nat k) = 0"
  proof (cases "m p = 0")
    case True
    then show ?thesis by (intro exI [of _ 0]) simp
  next
    case False
    then obtain k where "m (p + 1 + of_nat k) = 0" using f IH by (metis (no_types))
    then show ?thesis by (intro exI [of _ "Suc k"]) (simp add: algebra_simps)
  qed
qed

section \<open>Comparison and copy\<close>

text \<open>The first \<open>n\<close> bytes, up to a terminator.\<close>

lemma strncmp_eq_zero:
  "cstr m p s \<Longrightarrow> cstr m q t \<Longrightarrow> 0 \<le> n \<Longrightarrow>
    strncmp m p q n = 0 \<longleftrightarrow> take (nat n) s = take (nat n) t"
proof (induction s arbitrary: p q t n)
  case Nil
  then show ?case by (cases t; subst strncmp.simps) (auto simp: take_Cons')
next
  case (Cons c s)
  show ?case
  proof (cases "0 < n")
    case True
    then have n: "nat n = Suc (nat (n - 1))" by simp
    show ?thesis
    proof (cases t)
      case Nil
      then show ?thesis using Cons.prems True n by (subst strncmp.simps) auto
    next
      case (Cons d t')
      then show ?thesis
        using Cons.prems True n Cons.IH [of "p + 1" "q + 1" t' "n - 1"]
        by (subst strncmp.simps) auto
    qed
  next
    case False
    then show ?thesis by (subst strncmp.simps) simp
  qed
qed

text \<open>Case-insensitive comparison: zero also for strings whose letters differ in case only.\<close>

lemma to_lower_zero: "to_lower c = 0 \<longleftrightarrow> c = 0"
proof
  assume "to_lower c = 0"
  show "c = 0"
  proof (cases "65 \<le> sint c \<and> sint c \<le> 90")
    case True
    then have "c = - 32" using \<open>to_lower c = 0\<close> by (simp add: to_lower_def eq_neg_iff_add_eq_0)
    then have "sint c = - 32" by simp
    then show ?thesis using True by simp
  qed (use \<open>to_lower c = 0\<close> in \<open>auto simp: to_lower_def split: if_splits\<close>)
qed (simp add: to_lower_def)

lemma istrncmp_eq_zero:
  "cstr m p s \<Longrightarrow> cstr m q t \<Longrightarrow> 0 \<le> n \<Longrightarrow>
    istrncmp m p q n = 0 \<longleftrightarrow> map to_lower (take (nat n) s) = map to_lower (take (nat n) t)"
proof (induction s arbitrary: p q t n)
  case Nil
  show ?case
  proof (cases t)
    case (Cons d t')
    then show ?thesis using Nil.prems to_lower_zero [of d]
      by (subst istrncmp.simps) (auto simp: to_lower_def take_Cons')
  qed (use Nil.prems in \<open>subst istrncmp.simps, simp\<close>)
next
  case (Cons c s)
  show ?case
  proof (cases "0 < n")
    case True
    then have n: "nat n = Suc (nat (n - 1))" by simp
    show ?thesis
    proof (cases t)
      case Nil
      then show ?thesis using Cons.prems True n to_lower_zero [of c]
        by (subst istrncmp.simps) (auto simp: to_lower_def)
    next
      case (Cons d t')
      then show ?thesis
        using Cons.prems True n Cons.IH [of "p + 1" "q + 1" t' "n - 1"]
        by (subst istrncmp.simps) auto
    qed
  next
    case False
    then show ?thesis by (subst istrncmp.simps) simp
  qed
qed

lemma cstr_nth:
  "cstr m p s \<Longrightarrow> i < length s \<Longrightarrow> m (p + of_nat i) = s ! i \<and> s ! i \<noteq> 0"
proof (induction s arbitrary: p i)
  case (Cons c s)
  show ?case
  proof (cases i)
    case (Suc j)
    then show ?thesis using Cons.IH [of "p + 1" j] Cons.prems by (simp add: add.assoc)
  qed (use Cons.prems in simp)
qed simp

lemma cstr_end: "cstr m p s \<Longrightarrow> m (p + of_nat (length s)) = 0"
proof (induction s arbitrary: p)
  case (Cons c s)
  then show ?case using Cons.IH [of "p + 1"] by (simp add: add.assoc)
qed simp

lemma cstrI:
  "(\<And>i. i < length s \<Longrightarrow> m (p + of_nat i) = s ! i \<and> s ! i \<noteq> 0) \<Longrightarrow> m (p + of_nat (length s)) = 0 \<Longrightarrow>
    cstr m p s"
proof (induction s arbitrary: p)
  case (Cons c s)
  have "cstr m (p + 1) s"
  proof (rule Cons.IH)
    fix i assume "i < length s"
    then show "m (p + 1 + of_nat i) = s ! i \<and> s ! i \<noteq> 0"
      using Cons.prems(1) [of "Suc i"] by (simp add: algebra_simps)
  next
    show "m (p + 1 + of_nat (length s)) = 0" using Cons.prems(2) by (simp add: algebra_simps)
  qed
  then show ?case using Cons.prems(1) [of 0] by simp
qed simp

lemma cstr_outside:
  assumes "cstr m p s" and "\<And>i. i \<le> length s \<Longrightarrow> m' (p + of_nat i) = m (p + of_nat i)"
  shows "cstr m' p s"
  by (rule cstrI) (use assms cstr_nth [OF assms(1)] cstr_end [OF assms(1)] in auto)

lemma cstr_suffix: "cstr m p (xs @ ys) \<Longrightarrow> cstr m (p + of_nat (length xs)) ys"
  by (induction xs arbitrary: p) (simp_all add: add.assoc [symmetric])

lemma cstr_disj:
  assumes "cstr m p s" and "Suc (length s) \<le> n" and "n \<le> 4294967295"
    and "disj_range p n q k" and "\<And>a. \<not> in_range q k a \<Longrightarrow> m' a = m a"
  shows "cstr m' p s"
proof -
  have "cstr m p s = cstr m' p s"
  proof (rule cstr_cong)
    fix a assume "in_range p (Suc (length s)) a"
    then have "in_range p n a" using assms(2) by (rule in_range_mono)
    then show "m a = m' a" using disj_rangeD [OF assms(4)] assms(5) by simp
  qed (use assms(2,3) in simp)
  then show ?thesis using assms(1) by simp
qed

lemma strnlen_loop_cstr:
  "cstr m (p + of_nat i) s \<Longrightarrow> strnlen_loop m p mx (int i) len = len + of_nat (min (length s) (nat (mx - int i)))"
proof (induction s arbitrary: i len)
  case Nil
  then show ?case by (subst strnlen_loop.simps) simp
next
  case (Cons c s)
  have "cstr m (p + of_nat (Suc i)) s" using Cons.prems by (simp add: algebra_simps)
  moreover have "nat (mx - int i) = Suc (nat (mx - int (Suc i)))" if "int i < mx" using that by simp
  ultimately show ?case using Cons.prems Cons.IH [of "Suc i"] by (subst strnlen_loop.simps) (simp add: add.commute)
qed

lemma strnlen_cstr: "cstr m p s \<Longrightarrow> strnlen m p mx = of_nat (min (length s) (nat mx))"
  using strnlen_loop_cstr [of m p 0 s mx 0] by (simp add: strnlen_def)

text \<open>The memory with the first \<open>k\<close> bytes of \<open>s\<close> written at \<open>d\<close>.\<close>

definition copied :: "mem \<Rightarrow> ptr \<Rightarrow> u8 list \<Rightarrow> nat \<Rightarrow> mem" where
  "copied m d s k = (\<lambda>a. if unat (a - d) < k then s ! unat (a - d) else m a)"

lemma copied_Suc:
  assumes "k < 4294967296"
  shows "(copied m d s k)(d + of_nat k := s ! k) = copied m d s (Suc k)"
proof
  fix a
  have "a = d + of_nat k \<longleftrightarrow> unat (a - d) = k"
  proof
    assume "unat (a - d) = k"
    then have "of_nat (unat (a - d)) = (of_nat k :: u32)" by simp
    then have "a - d = of_nat k" by simp
    then show "a = d + of_nat k" by (simp add: algebra_simps)
  qed (use assms in \<open>simp add: unat_of_nat_u32\<close>)
  then show "((copied m d s k)(d + of_nat k := s ! k)) a = copied m d s (Suc k) a"
    by (auto simp: copied_def less_Suc_eq fun_upd_def)
qed

lemma strncpy_loop_copied:
  assumes s: "cstr m src s" and dj: "disj_range dest (nat count) src (Suc (length s))"
    and c: "1 \<le> count" "count < 2147483648" and i: "i \<le> min (length s) (nat (count - 1))"
    and len: "length s < 4294967295"
  shows "strncpy_loop (copied m dest s i) dest src count (int i)
    = (int (min (length s) (nat (count - 1))), copied m dest s (min (length s) (nat (count - 1))))"
  using i
proof (induction "min (length s) (nat (count - 1)) - i" arbitrary: i)
  let ?k = "min (length s) (nat (count - 1))"
  have src: "copied m dest s i (src + of_nat j) = m (src + of_nat j)" if "i \<le> ?k" "j \<le> length s" for i j
  proof -
    have "in_range src (Suc (length s)) (src + of_nat j)" using that len by (intro in_range_of_nat) simp_all
    then have "\<not> in_range dest (nat count) (src + of_nat j)" using disj_rangeD2 [OF dj] by blast
    then show ?thesis using that c by (auto simp: copied_def in_range_def)
  qed
  case 0
  then have i: "i = ?k" by simp
  show ?case
  proof (cases "i = length s")
    case True
    then have "copied m dest s i (src + of_nat i) = 0" using src [of i i] 0 cstr_end [OF s] by simp
    moreover have "?k = length s" using i True by simp
    ultimately show ?thesis using True by (subst strncpy_loop.simps) simp
  next
    case False
    then have "\<not> int i < count - 1" using i by simp
    then show ?thesis using i by (subst strncpy_loop.simps) simp
  qed
next
  let ?k = "min (length s) (nat (count - 1))"
  case (Suc x)
  have i: "i < length s" "int i < count - 1" "i < ?k" using Suc(2) by auto
  have "in_range src (Suc (length s)) (src + of_nat i)" using i len by (intro in_range_of_nat) simp_all
  then have "\<not> in_range dest (nat count) (src + of_nat i)" using disj_rangeD2 [OF dj] by blast
  then have "copied m dest s i (src + of_nat i) = s ! i" "s ! i \<noteq> 0"
    using cstr_nth [OF s i(1)] i(2) by (auto simp: copied_def in_range_def)
  moreover have "strncpy_loop (copied m dest s (Suc i)) dest src count (int (Suc i)) = (int ?k, copied m dest s ?k)"
    by (rule Suc(1)) (use Suc(2) i in auto)
  ultimately show ?case
    using i copied_Suc [of i m dest s] c by (subst strncpy_loop.simps) (simp add: algebra_simps)
qed

text \<open>\<^verbatim>\<open>strncpy\<close> writes a terminated prefix of the source and nothing else.\<close>

lemma strncpy_copies:
  assumes s: "cstr m src s" and dj: "disj_range dest (nat count) src (Suc (length s))"
    and c: "1 \<le> count" "count < 2147483648" and len: "length s < 4294967295"
  shows "fst (strncpy m dest src count) = dest"
    and "cstr (snd (strncpy m dest src count)) dest (take (nat (count - 1)) s)"
    and "\<not> in_range dest (nat count) a \<Longrightarrow> snd (strncpy m dest src count) a = m a"
proof -
  let ?k = "min (length s) (nat (count - 1))"
  have k: "?k < nat count" "?k < 4294967296" using c by auto
  have "copied m dest s 0 = m" by (simp add: copied_def)
  then have eq: "strncpy m dest src count = (dest, (copied m dest s ?k)(dest + of_nat ?k := 0))"
    using strncpy_loop_copied [OF s dj c _ len, of 0] by (simp add: strncpy_def)
  show "fst (strncpy m dest src count) = dest" by (simp add: eq)
  show "cstr (snd (strncpy m dest src count)) dest (take (nat (count - 1)) s)"
  proof (rule cstrI)
    fix i assume i: "i < length (take (nat (count - 1)) s)"
    then have "i < ?k" by simp
    moreover from this have u: "unat (of_nat i :: u32) = i" using k by (intro unat_of_nat_u32) linarith
    moreover have "dest + of_nat i \<noteq> dest + of_nat ?k"
      using calculation k unat_of_nat_u32 [of ?k] by (metis add_left_imp_eq less_irrefl)
    ultimately show "snd (strncpy m dest src count) (dest + of_nat i) = take (nat (count - 1)) s ! i
        \<and> take (nat (count - 1)) s ! i \<noteq> 0"
      using cstr_nth [OF s, of i] by (simp add: eq copied_def)
  qed (simp add: eq)
  assume a: "\<not> in_range dest (nat count) a"
  moreover have "in_range dest (nat count) (dest + of_nat ?k)" using k c by (intro in_range_of_nat) auto
  ultimately show "snd (strncpy m dest src count) a = m a"
    using k by (auto simp: eq copied_def in_range_def)
qed

text \<open>\<^verbatim>\<open>strcpy\<close> copies the bytes of the source but not its terminator.\<close>

lemma strcpy_loop_copied:
  assumes s: "cstr m src s" and dj: "disj_range dest (length s) src (Suc (length s))"
    and len: "length s < 4294967295" and i: "i \<le> length s"
  shows "strcpy_loop (copied m dest s i) (dest + of_nat i) (src + of_nat i) = Some (copied m dest s (length s))"
  using i
proof (induction "length s - i" arbitrary: i)
  case 0
  have "in_range src (Suc (length s)) (src + of_nat (length s))" using len by (intro in_range_of_nat) simp_all
  then have "copied m dest s (length s) (src + of_nat (length s)) = 0"
    using disj_rangeD2 [OF dj] cstr_end [OF s] by (auto simp: copied_def in_range_def)
  then show ?case using 0 by (subst strcpy_loop.simps) simp
next
  case (Suc x)
  have i: "i < length s" using Suc(2) by simp
  have "in_range src (Suc (length s)) (src + of_nat i)" using i len by (intro in_range_of_nat) simp_all
  then have "\<not> in_range dest (length s) (src + of_nat i)" using disj_rangeD2 [OF dj] by blast
  then have "copied m dest s i (src + of_nat i) = s ! i" "s ! i \<noteq> 0"
    using cstr_nth [OF s i] i by (auto simp: copied_def in_range_def)
  moreover have "strcpy_loop (copied m dest s (Suc i)) (dest + of_nat (Suc i)) (src + of_nat (Suc i))
      = Some (copied m dest s (length s))"
    by (rule Suc(1)) (use Suc(2) i in auto)
  ultimately show ?case
    using i len copied_Suc [of i m dest s] by (subst strcpy_loop.simps) (simp add: algebra_simps)
qed

lemma strcpy_copied:
  assumes "cstr m src s" and "disj_range dest (length s) src (Suc (length s))" and "length s < 4294967295"
  shows "strcpy m dest src = Some (dest, copied m dest s (length s))"
proof -
  have "copied m dest s 0 = m" by (simp add: copied_def)
  then show ?thesis using strcpy_loop_copied [OF assms, of 0] by (simp add: strcpy_def)
qed

section \<open>Properties\<close>

text \<open>\<^verbatim>\<open>strlen\<close> of a zero-terminated string returns its length, and it returns at all only where
  memory holds a zero byte.\<close>

lemma strlen_terminates:
  "(cstr m p s \<longrightarrow> strlen m p = Some (of_nat (length s)))
   \<and> ((\<forall>k. m (p + of_nat k) \<noteq> 0) \<longrightarrow> strlen m p = None)"
  using strlen_loop_cstr [of m p s 0] strlen_loop_returns [of m p 0]
  by (cases "strlen m p") (auto simp: strlen_def)

text \<open>\<^verbatim>\<open>strncpy\<close> writes at the destination the longest prefix of the source that fits, terminated,
  and no byte outside of the destination.\<close>

lemma strncpy_prefix:
  assumes "cstr m src s" and "disj_range dest (nat count) src (Suc (length s))"
    and "1 \<le> count" and "count < 2147483648" and "length s < 4294967295"
  shows "cstr (snd (strncpy m dest src count)) dest (take (nat (count - 1)) s)
    \<and> (\<forall>a. \<not> in_range dest (nat count) a \<longrightarrow> snd (strncpy m dest src count) a = m a)"
  using strncpy_copies [OF assms] by blast

text \<open>\<^verbatim>\<open>strcpy\<close> copies no terminator: behind the copied bytes the destination keeps what it held,
  so over old contents the copy is not the source string.\<close>

lemma strcpy_unterminated:
  assumes "cstr m src s" and "disj_range dest (Suc (length s)) src (Suc (length s))"
    and "length s < 4294967295"
  shows "\<exists>m'. strcpy m dest src = Some (dest, m')
    \<and> (\<forall>i<length s. m' (dest + of_nat i) = s ! i)
    \<and> m' (dest + of_nat (length s)) = m (dest + of_nat (length s))
    \<and> (m (dest + of_nat (length s)) \<noteq> 0 \<longrightarrow> \<not> cstr m' dest s)"
proof -
  let ?m = "copied m dest s (length s)"
  have u: "unat (of_nat i :: u32) = i" if "i \<le> length s" for i
    using that assms(3) by (intro unat_of_nat_u32) simp
  have e: "?m (dest + of_nat (length s)) = m (dest + of_nat (length s))"
    using u [of "length s"] by (simp add: copied_def)
  have "strcpy m dest src = Some (dest, ?m)"
    by (rule strcpy_copied [OF assms(1) disj_range_mono [OF assms(2)] assms(3)]) simp_all
  moreover have "?m (dest + of_nat i) = s ! i" if "i < length s" for i
    using that u [of i] by (simp add: copied_def)
  moreover have "\<not> cstr ?m dest s" if "m (dest + of_nat (length s)) \<noteq> 0"
    using that e cstr_end by metis
  ultimately show ?thesis using e by blast
qed

end
