(* ===== verification/Fat16.thy ===== *)
theory Fat16
  imports Disk CString
begin

text \<open>
  \<^verbatim>\<open>src/src/fs/fat/fat16.c\<close> and \<^verbatim>\<open>fat16.h\<close>: the FAT16 driver. Its structures live in kernel memory at
  the offsets the packed declarations give them; the records below are their views, and a field is
  written with a store at its offset. The disk argument of the C functions is always the one
  \<^verbatim>\<open>disk_obj\<close> and is left out. \<open>None\<close> is a call that does not return: an endless loop, or the
  division trap of a disk with clusters of no bytes.
\<close>

section \<open>Structures\<close>

definition bytes_at :: "mem \<Rightarrow> ptr \<Rightarrow> nat \<Rightarrow> u8 list" where
  "bytes_at m p n = map (\<lambda>i. m (p + of_nat i)) [0..<n]"

record fat_header =
  short_jmp_ins :: "u8 list"
  oem_identifier :: "u8 list"
  bytes_per_sector :: u16
  sectors_per_cluster :: u8
  reserved_sectors :: u16
  fat_copies :: u8
  root_dir_entries :: u16
  number_of_sectors :: u16
  media_type :: u8
  sectors_per_fat :: u16
  sectors_per_track :: u16
  number_of_heads :: u16
  hidden_setors :: u32
  sectors_big :: u32

definition fat_header_at :: "mem \<Rightarrow> ptr \<Rightarrow> fat_header" where
  "fat_header_at m p = \<lparr>short_jmp_ins = bytes_at m p 3, oem_identifier = bytes_at m (p + 3) 8,
     bytes_per_sector = load16 m (p + 11), sectors_per_cluster = m (p + 13),
     reserved_sectors = load16 m (p + 14), fat_copies = m (p + 16), root_dir_entries = load16 m (p + 17),
     number_of_sectors = load16 m (p + 19), media_type = m (p + 21), sectors_per_fat = load16 m (p + 22),
     sectors_per_track = load16 m (p + 24), number_of_heads = load16 m (p + 26),
     hidden_setors = load32 m (p + 28), sectors_big = load32 m (p + 32)\<rparr>"

record fat_header_extended =
  fe_drive_number :: u8
  win_nt_bit :: u8
  fe_signature :: u8
  volume_id :: u32
  volume_id_string :: "u8 list"
  system_id_string :: "u8 list"

text \<open>The extended header follows the primary one in \<^verbatim>\<open>struct fat_h\<close>.\<close>

definition fat_header_extended_at :: "mem \<Rightarrow> ptr \<Rightarrow> fat_header_extended" where
  "fat_header_extended_at m p = \<lparr>fe_drive_number = m (p + 36), win_nt_bit = m (p + 37), fe_signature = m (p + 38),
     volume_id = load32 m (p + 39), volume_id_string = bytes_at m (p + 43) 11,
     system_id_string = bytes_at m (p + 54) 8\<rparr>"

record fat_directory_item =
  di_filename :: "u8 list"
  di_ext :: "u8 list"
  di_attribute :: u8
  di_reserved :: u8
  di_creation_time_tenths_of_a_sec :: u8
  di_creation_time :: u16
  di_creation_date :: u16
  di_last_access :: u16
  di_high_16_bits_first_cluster :: u16
  di_last_mod_time :: u16
  di_last_mod_date :: u16
  di_low_16_bits_first_cluster :: u16
  di_filesize :: u32

definition fat_directory_item_at :: "mem \<Rightarrow> ptr \<Rightarrow> fat_directory_item" where
  "fat_directory_item_at m p = \<lparr>di_filename = bytes_at m p 8, di_ext = bytes_at m (p + 8) 3,
     di_attribute = m (p + 11), di_reserved = m (p + 12), di_creation_time_tenths_of_a_sec = m (p + 13),
     di_creation_time = load16 m (p + 14), di_creation_date = load16 m (p + 16),
     di_last_access = load16 m (p + 18), di_high_16_bits_first_cluster = load16 m (p + 20),
     di_last_mod_time = load16 m (p + 22), di_last_mod_date = load16 m (p + 24),
     di_low_16_bits_first_cluster = load16 m (p + 26), di_filesize = load32 m (p + 28)\<rparr>"

record fat_directory =
  fd_item :: ptr
  fd_total :: int
  fd_sector_pos :: int
  fd_ending_sector_pos :: int

definition fat_directory_at :: "mem \<Rightarrow> ptr \<Rightarrow> fat_directory" where
  "fat_directory_at m p = \<lparr>fd_item = load32 m p, fd_total = c_int (load32 m (p + 4)),
     fd_sector_pos = c_int (load32 m (p + 8)), fd_ending_sector_pos = c_int (load32 m (p + 12))\<rparr>"

text \<open>The union of \<^verbatim>\<open>fat_item\<close> is one word, read as item or directory according to the type.\<close>

record fat_item =
  fi_union :: ptr
  fi_type :: u32

definition fat_item_at :: "mem \<Rightarrow> ptr \<Rightarrow> fat_item" where
  "fat_item_at m p = \<lparr>fi_union = load32 m p, fi_type = load32 m (p + 4)\<rparr>"

record fat_file_descriptor =
  ff_item :: ptr
  ff_pos :: u32

definition fat_file_descriptor_at :: "mem \<Rightarrow> ptr \<Rightarrow> fat_file_descriptor" where
  "fat_file_descriptor_at m p = \<lparr>ff_item = load32 m p, ff_pos = load32 m (p + 4)\<rparr>"

text \<open>\<^verbatim>\<open>struct fat_private\<close>: the header of 62 bytes, the packed root directory, then three streams.\<close>

record fat_private =
  root_directory :: ptr
  cluster_read_stream :: ptr
  fat_read_stream :: ptr
  directory_stream :: ptr

definition fat_private_at :: "mem \<Rightarrow> ptr \<Rightarrow> fat_private" where
  "fat_private_at m p = \<lparr>root_directory = p + 62, cluster_read_stream = load32 m (p + 80),
     fat_read_stream = load32 m (p + 84), directory_stream = load32 m (p + 88)\<rparr>"

abbreviation (input) FAT16_SIGNATURE :: u8 where "FAT16_SIGNATURE \<equiv> 0x29"
abbreviation (input) LIEBE_OS_FAT16_ENTRY_SIZE :: "'a::numeral" where "LIEBE_OS_FAT16_ENTRY_SIZE \<equiv> 2"
abbreviation (input) LIEBE_OS_FAT16_BAD_SECTOR :: int where "LIEBE_OS_FAT16_BAD_SECTOR \<equiv> 0xFF7"
abbreviation (input) FAT_FILE_READ_ONLY :: u8 where "FAT_FILE_READ_ONLY \<equiv> 0x01"
abbreviation (input) FAT_FILE_SUBDIRECTORY :: u8 where "FAT_FILE_SUBDIRECTORY \<equiv> 0x10"
abbreviation (input) FAT_ITEM_TYPE_DIRECTORY :: u32 where "FAT_ITEM_TYPE_DIRECTORY \<equiv> 0"
abbreviation (input) FAT_ITEM_TYPE_FILE :: u32 where "FAT_ITEM_TYPE_FILE \<equiv> 1"
abbreviation (input) FILE_MODE_READ :: u32 where "FILE_MODE_READ \<equiv> 0"

text \<open>The private data and the size of a cluster of the disk.\<close>

definition disk_private :: "'a kstate_scheme \<Rightarrow> fat_private" where
  "disk_private s = fat_private_at (km s) (fs_private (disk_obj s))"

definition disk_header :: "'a kstate_scheme \<Rightarrow> fat_header" where
  "disk_header s = fat_header_at (km s) (fs_private (disk_obj s))"

definition size_of_cluster_bytes :: "'a kstate_scheme \<Rightarrow> int" where
  "size_of_cluster_bytes s = uint (sectors_per_cluster (disk_header s)) * sector_size (disk_obj s)"

section \<open>Mounting\<close>

definition fat16_init_private :: "ptr \<Rightarrow> 'a kstate_scheme \<Rightarrow> 'a kstate_scheme" where
  "fat16_init_private private_obj s =
     (let s = s\<lparr>km := snd (memset (km s) private_obj 0 92)\<rparr>;
          (st, s) = get_new_disk_stream (dk_id (disk_obj s)) s;
          s = s\<lparr>km := store32 (km s) (private_obj + 80) st\<rparr>;
          (st, s) = get_new_disk_stream (dk_id (disk_obj s)) s;
          s = s\<lparr>km := store32 (km s) (private_obj + 84) st\<rparr>;
          (st, s) = get_new_disk_stream (dk_id (disk_obj s)) s
      in s\<lparr>km := store32 (km s) (private_obj + 88) st\<rparr>)"

definition fat16_sector_to_absolute :: "int \<Rightarrow> 'a kstate_scheme \<Rightarrow> int" where
  "fat16_sector_to_absolute sector s = sector * sector_size (disk_obj s)"

text \<open>The counting loop: 32 bytes at a time until an entry starts with a zero byte.\<close>

partial_function (option) total_items_loop ::
    "ata_device \<Rightarrow> ptr \<Rightarrow> int \<Rightarrow> 'a kstate_scheme \<Rightarrow> (int \<times> 'a kstate_scheme) option" where
  "total_items_loop dev stream count s =
     (let (res, item, s) = diskstreamer_read dev stream 32 s
      in if res \<noteq> OK then Some (- EIO, s)
         else if item ! 0 = 0x00 then Some (count, s)
         else if item ! 0 = 0xE5 then total_items_loop dev stream count s
         else total_items_loop dev stream (count + 1) s)"

definition fat16_get_total_items_for_directory ::
    "ata_device \<Rightarrow> u32 \<Rightarrow> 'a kstate_scheme \<Rightarrow> (int \<times> 'a kstate_scheme) option" where
  "fat16_get_total_items_for_directory dev directory_start_sector s =
     (let directory_start_pos = c_int (directory_start_sector * c_uint (sector_size (disk_obj s)));
          stream = directory_stream (disk_private s);
          (res, s) = diskstreamer_seek stream directory_start_pos s
      in if res \<noteq> OK then Some (- EIO, s) else total_items_loop dev stream 0 s)"

definition fat16_get_root_directory ::
    "ata_device \<Rightarrow> ptr \<Rightarrow> ptr \<Rightarrow> 'a kstate_scheme \<Rightarrow> (int \<times> 'a kstate_scheme) option" where
  "fat16_get_root_directory dev fat_private_obj directory s =
     (let header = fat_header_at (km s) fat_private_obj;
          root_directory_pos = uint (fat_copies header) * uint (sectors_per_fat header)
            + uint (reserved_sectors header);
          root_dir_size = uint (root_dir_entries header) * 32
      in if sector_size (disk_obj s) = 0 then None
         else do {
           (total_items, s) \<leftarrow> fat16_get_total_items_for_directory dev (c_uint root_directory_pos) s;
           let (dir, m) = kzalloc (kheap s) (c_uint root_dir_size) (km s);
               s = s\<lparr>km := m\<rparr>
           in if dir = 0 then Some (- ENOMEM, s)
              else
                let stream = directory_stream (fat_private_at (km s) fat_private_obj);
                    (res, s) = diskstreamer_seek stream (fat16_sector_to_absolute root_directory_pos s) s
                in if res \<noteq> OK then Some (- EIO, s)
                   else
                     let (res, s) = diskstreamer_read_to dev stream dir root_dir_size s
                     in if res \<noteq> OK then Some (- EIO, s)
                        else
                          let m = store32 (km s) directory dir;
                              m = store32 m (directory + 4) (c_uint total_items);
                              m = store32 m (directory + 8) (c_uint root_directory_pos);
                              m = store32 m (directory + 12)
                                (c_uint (root_directory_pos + root_dir_size sdiv sector_size (disk_obj s)))
                          in Some (0, s\<lparr>km := m\<rparr>)
         })"

text \<open>The address of \<^verbatim>\<open>fat16_fs\<close>, which the disk points to once the file system is resolved, is an
  argument.\<close>

definition fat16_resolve :: "ata_device \<Rightarrow> ptr \<Rightarrow> 'a kstate_scheme \<Rightarrow> (int \<times> 'a kstate_scheme) option" where
  "fat16_resolve dev fat16_fs s =
     (let (fat_private_obj, m) = kzalloc (kheap s) 92 (km s);
          s = fat16_init_private fat_private_obj (s\<lparr>km := m\<rparr>);
          s = s\<lparr>disk_obj := (disk_obj s)\<lparr>fs_private := fat_private_obj, filesystem := fat16_fs\<rparr>\<rparr>;
          (stream, s) = get_new_disk_stream (dk_id (disk_obj s)) s
      in if stream = 0 then Some (- ENOMEM, s)
         else
           let (res, s) = diskstreamer_read_to dev stream fat_private_obj 62 s
           in if res \<noteq> OK then Some (- EIO, s)
              else if fe_signature (fat_header_extended_at (km s) fat_private_obj) \<noteq> FAT16_SIGNATURE
              then Some (- EFSNOTUS, s)
              else do {
                (res, s) \<leftarrow> fat16_get_root_directory dev fat_private_obj (fat_private_obj + 62) s;
                if res \<noteq> OK then Some (- EIO, s) else Some (0, s)
              })"

section \<open>File names\<close>

partial_function (option) fat16_to_proper_string :: "ptr \<Rightarrow> ptr \<Rightarrow> mem \<Rightarrow> (ptr \<times> mem) option" where
  "fat16_to_proper_string out inp m =
     (if m inp \<noteq> 0x00 \<and> m inp \<noteq> 0x20
      then fat16_to_proper_string (out + 1) (inp + 1) (m(out := m inp))
      else if m inp = 0x20 then Some (out, m(out := 0x00))
      else Some (out, m))"

definition fat16_get_full_relative_filename :: "ptr \<Rightarrow> ptr \<Rightarrow> u32 \<Rightarrow> mem \<Rightarrow> mem option" where
  "fat16_get_full_relative_filename item out max_len m =
     (let m = snd (memset m out 0x00 max_len)
      in do {
        (out_tmp, m) \<leftarrow> fat16_to_proper_string out item m;
        if m (item + 8) \<noteq> 0x00 \<and> m (item + 8) \<noteq> 0x20
        then do {
          (_, m) \<leftarrow> fat16_to_proper_string (out_tmp + 1) (item + 8) (m(out_tmp := 46));
          Some m
        }
        else Some m
      })"

section \<open>Clusters\<close>

definition fat16_clone_direcotry_item :: "ptr \<Rightarrow> 'a kstate_scheme \<Rightarrow> ptr \<times> 'a kstate_scheme" where
  "fat16_clone_direcotry_item item s =
     (let (copy, m) = kzalloc (kheap s) 32 (km s)
      in if copy = 0 then (0, s\<lparr>km := m\<rparr>) else (copy, s\<lparr>km := snd (memcpy m copy item 32)\<rparr>))"

definition fat16_cluster_to_sector :: "int \<Rightarrow> 'a kstate_scheme \<Rightarrow> int" where
  "fat16_cluster_to_sector cluster s =
     fd_ending_sector_pos (fat_directory_at (km s) (root_directory (disk_private s)))
       + (cluster - 2) * uint (sectors_per_cluster (disk_header s))"

definition fat16_get_first_cluster :: "ptr \<Rightarrow> 'a kstate_scheme \<Rightarrow> u32" where
  "fat16_get_first_cluster item s =
     (let it = fat_directory_item_at (km s) item
      in ucast (di_high_16_bits_first_cluster it OR di_low_16_bits_first_cluster it))"

definition fat16_get_first_fat_sector :: "'a kstate_scheme \<Rightarrow> u32" where
  "fat16_get_first_fat_sector s = ucast (reserved_sectors (disk_header s))"

text \<open>The 16-bit local that the bytes of an entry are read into, zero at first.\<close>

definition u16_of_bytes :: "u8 list \<Rightarrow> u16" where
  "u16_of_bytes bs = ucast ((bs @ [0, 0]) ! 0) OR push_bit 8 (ucast ((bs @ [0, 0]) ! 1))"

definition fat16_get_fat_entry :: "ata_device \<Rightarrow> int \<Rightarrow> 'a kstate_scheme \<Rightarrow> int \<times> 'a kstate_scheme" where
  "fat16_get_fat_entry dev cluster s =
     (let stream = fat_read_stream (disk_private s)
      in if stream = 0 then (- 1, s)
         else
           let fat_table_position = fat16_get_first_fat_sector s * c_uint (sector_size (disk_obj s));
               (res, s) = diskstreamer_seek stream
                 (c_int (fat_table_position + c_uint (cluster * LIEBE_OS_FAT16_ENTRY_SIZE))) s
           in if res < 0 then (res, s)
              else
                let (res, bs, s) = diskstreamer_read dev stream 2 s
                in if res < 0 then (res, s) else (uint (u16_of_bytes bs), s))"

fun cluster_loop :: "ata_device \<Rightarrow> nat \<Rightarrow> int \<Rightarrow> 'a kstate_scheme \<Rightarrow> int \<times> 'a kstate_scheme" where
  "cluster_loop dev 0 cluster_to_use s = (cluster_to_use, s)"
| "cluster_loop dev (Suc cluster_ahead) cluster_to_use s =
     (let (entry, s) = fat16_get_fat_entry dev cluster_to_use s
      in if entry = 0xFF8 \<or> entry = 0xFFF then (- EIO, s)
         else if entry = LIEBE_OS_FAT16_BAD_SECTOR then (- EIO, s)
         else if entry = 0xFF0 \<or> entry = 0xFF6 then (- EIO, s)
         else if entry = 0x00 then (- EIO, s)
         else cluster_loop dev cluster_ahead entry s)"

definition fat16_get_cluster_for_offset ::
    "ata_device \<Rightarrow> int \<Rightarrow> int \<Rightarrow> 'a kstate_scheme \<Rightarrow> (int \<times> 'a kstate_scheme) option" where
  "fat16_get_cluster_for_offset dev starting_cluster offset s =
     (if size_of_cluster_bytes s = 0 then None
      else Some (cluster_loop dev (nat (offset sdiv size_of_cluster_bytes s)) starting_cluster s))"

partial_function (option) fat16_read_internal_from_stream ::
    "ata_device \<Rightarrow> ptr \<Rightarrow> int \<Rightarrow> int \<Rightarrow> int \<Rightarrow> ptr \<Rightarrow> 'a kstate_scheme \<Rightarrow> (int \<times> 'a kstate_scheme) option" where
  "fat16_read_internal_from_stream dev stream cluster offset tot out s =
     do {
       (cluster_to_use, s) \<leftarrow> fat16_get_cluster_for_offset dev cluster offset s;
       if cluster_to_use < 0 then Some (cluster_to_use, s)
       else
         let size = size_of_cluster_bytes s;
             offset_from_cluster = offset smod size;
             starting_sector = fat16_cluster_to_sector cluster_to_use s;
             starting_pos = starting_sector * sector_size (disk_obj s) + offset_from_cluster;
             total_to_read = (if size < tot then size else tot);
             (res, s) = diskstreamer_seek stream starting_pos s
         in if res \<noteq> 0 then Some (res, s)
            else
              let (res, s) = diskstreamer_read_to dev stream out total_to_read s
              in if res \<noteq> OK then Some (res, s)
                 else if 0 < tot - total_to_read
                 then fat16_read_internal_from_stream dev stream cluster (offset + total_to_read)
                        (tot - total_to_read) (out + c_uint total_to_read) s
                 else Some (res, s)
     }"

definition fat16_read_internal ::
    "ata_device \<Rightarrow> int \<Rightarrow> int \<Rightarrow> int \<Rightarrow> ptr \<Rightarrow> 'a kstate_scheme \<Rightarrow> (int \<times> 'a kstate_scheme) option" where
  "fat16_read_internal dev starting_cluster offset tot out s =
     fat16_read_internal_from_stream dev (cluster_read_stream (disk_private s)) starting_cluster offset tot out s"

section \<open>Directories\<close>

definition fat16_free_directory :: "ptr \<Rightarrow> 'a kstate_scheme \<Rightarrow> 'a kstate_scheme" where
  "fat16_free_directory directory s =
     (if directory = 0 then s
      else
        let item = fd_item (fat_directory_at (km s) directory);
            s = (if item \<noteq> 0 then s\<lparr>km := kfree (kheap s) item (km s)\<rparr> else s)
        in s\<lparr>km := kfree (kheap s) directory (km s)\<rparr>)"

text \<open>The result of reading the directory is computed and dropped, as in the source.\<close>

definition fat16_load_fat_directory ::
    "ata_device \<Rightarrow> ptr \<Rightarrow> 'a kstate_scheme \<Rightarrow> (ptr \<times> 'a kstate_scheme) option" where
  "fat16_load_fat_directory dev item s =
     (if di_attribute (fat_directory_item_at (km s) item) AND FAT_FILE_SUBDIRECTORY = 0 then Some (0, s)
      else
        let (directory, m) = kzalloc (kheap s) 16 (km s);
            s = s\<lparr>km := m\<rparr>
        in if directory = 0 then Some (0, s)
           else
             let cluster = c_int (fat16_get_first_cluster item s);
                 cluster_sector = fat16_cluster_to_sector cluster s
             in do {
               (total_items, s) \<leftarrow> fat16_get_total_items_for_directory dev (c_uint cluster_sector) s;
               let s = s\<lparr>km := store32 (km s) (directory + 4) (c_uint total_items)\<rparr>;
                   directory_size = total_items * 32;
                   (items, m) = kzalloc (kheap s) (c_uint directory_size) (km s);
                   s = s\<lparr>km := store32 m directory items\<rparr>
               in if items = 0 then Some (directory, s)
                  else do {
                    (res, s) \<leftarrow> fat16_read_internal dev cluster 0 directory_size items s;
                    Some (directory, s)
                  }
             })"

definition fat16_new_fat_item_for_directory_item ::
    "ata_device \<Rightarrow> ptr \<Rightarrow> 'a kstate_scheme \<Rightarrow> (ptr \<times> 'a kstate_scheme) option" where
  "fat16_new_fat_item_for_directory_item dev item s =
     (let (item_copy, m) = kzalloc (kheap s) 8 (km s);
          s = s\<lparr>km := m\<rparr>
      in if item_copy = 0 then Some (0, s)
         else if di_attribute (fat_directory_item_at (km s) item) AND FAT_FILE_SUBDIRECTORY \<noteq> 0
         then do {
           (directory, s) \<leftarrow> fat16_load_fat_directory dev item s;
           let m = store32 (km s) item_copy directory;
               m = store32 m (item_copy + 4) FAT_ITEM_TYPE_DIRECTORY
           in Some (item_copy, s\<lparr>km := m\<rparr>)
         }
         else
           let s = s\<lparr>km := store32 (km s) (item_copy + 4) FAT_ITEM_TYPE_FILE\<rparr>;
               (clone, s) = fat16_clone_direcotry_item item s
           in Some (item_copy, s\<lparr>km := store32 (km s) item_copy clone\<rparr>))"

text \<open>The search runs over all entries and keeps the item of the last match. The array
  \<^verbatim>\<open>tmp_filename\<close> of the C function is on the stack, at an address that is an argument here.\<close>

partial_function (option) find_item_loop ::
    "ata_device \<Rightarrow> ptr \<Rightarrow> ptr \<Rightarrow> ptr \<Rightarrow> int \<Rightarrow> ptr \<Rightarrow> 'a kstate_scheme \<Rightarrow> (ptr \<times> 'a kstate_scheme) option" where
  "find_item_loop dev tmp_filename directory name i tmp_item s =
     (let dir = fat_directory_at (km s) directory
      in if i < fd_total dir then
           let item = fd_item dir + 32 * c_uint i
           in do {
             m \<leftarrow> fat16_get_full_relative_filename item tmp_filename LIEBE_OS_MAX_PATH_LEN (km s);
             let s = s\<lparr>km := m\<rparr>
             in if istrncmp (km s) tmp_filename name LIEBE_OS_MAX_PATH_LEN = 0
                then do {
                  (tmp_item, s) \<leftarrow> fat16_new_fat_item_for_directory_item dev item s;
                  find_item_loop dev tmp_filename directory name (i + 1) tmp_item s
                }
                else find_item_loop dev tmp_filename directory name (i + 1) tmp_item s
           }
         else Some (tmp_item, s))"

definition fat16_find_item_in_directory ::
    "ata_device \<Rightarrow> ptr \<Rightarrow> ptr \<Rightarrow> ptr \<Rightarrow> 'a kstate_scheme \<Rightarrow> (ptr \<times> 'a kstate_scheme) option" where
  "fat16_find_item_in_directory dev tmp_filename directory name s =
     find_item_loop dev tmp_filename directory name 0 0 s"

definition fat16_fat_item_free :: "ptr \<Rightarrow> 'a kstate_scheme \<Rightarrow> 'a kstate_scheme" where
  "fat16_fat_item_free item s =
     (let it = fat_item_at (km s) item;
          s = (if FAT_ITEM_TYPE_DIRECTORY = fi_type it then fat16_free_directory (fi_union it) s
               else if fi_type it = FAT_ITEM_TYPE_FILE then s\<lparr>km := kfree (kheap s) (fi_union it) (km s)\<rparr>
               else s)
      in s\<lparr>km := kfree (kheap s) item (km s)\<rparr>)"

text \<open>The walk along the parts of a path. A part whose predecessor was not found is looked up
  through the null item, as in the source: its type reads as the word at address 4.\<close>

partial_function (option) directory_entry_loop ::
    "ata_device \<Rightarrow> ptr \<Rightarrow> ptr \<Rightarrow> ptr \<Rightarrow> 'a kstate_scheme \<Rightarrow> (ptr \<times> 'a kstate_scheme) option" where
  "directory_entry_loop dev tmp_filename current_item next_part s =
     (if next_part \<noteq> 0 then
        let it = fat_item_at (km s) current_item
        in if fi_type it \<noteq> FAT_ITEM_TYPE_DIRECTORY then Some (0, s)
           else do {
             (tmp_item, s) \<leftarrow> fat16_find_item_in_directory dev tmp_filename (fi_union it) (load32 (km s) next_part) s;
             let s = fat16_fat_item_free current_item s
             in directory_entry_loop dev tmp_filename tmp_item (load32 (km s) (next_part + 4)) s
           }
      else Some (current_item, s))"

definition fat16_get_directory_entry ::
    "ata_device \<Rightarrow> ptr \<Rightarrow> ptr \<Rightarrow> 'a kstate_scheme \<Rightarrow> (ptr \<times> 'a kstate_scheme) option" where
  "fat16_get_directory_entry dev tmp_filename path s =
     do {
       (root_item, s) \<leftarrow> fat16_find_item_in_directory dev tmp_filename (root_directory (disk_private s))
         (load32 (km s) path) s;
       if root_item = 0 then Some (0, s)
       else directory_entry_loop dev tmp_filename root_item (load32 (km s) (path + 4)) s
     }"

section \<open>File operations\<close>

text \<open>A pointer result is an error when it is negative as an \<^verbatim>\<open>int\<close> (\<^verbatim>\<open>ERROR\<close>, \<^verbatim>\<open>ISERR\<close> of
  \<^verbatim>\<open>macros.h\<close>).\<close>

definition ERROR :: "int \<Rightarrow> ptr" where
  "ERROR v = c_uint v"

definition ISERR :: "ptr \<Rightarrow> bool" where
  "ISERR v \<longleftrightarrow> c_int v < 0"

definition fat16_open ::
    "ata_device \<Rightarrow> ptr \<Rightarrow> ptr \<Rightarrow> u32 \<Rightarrow> 'a kstate_scheme \<Rightarrow> (ptr \<times> 'a kstate_scheme) option" where
  "fat16_open dev tmp_filename path mode s =
     (if mode \<noteq> FILE_MODE_READ then Some (ERROR (- ERDONLY), s)
      else
        let (descriptor, m) = kzalloc (kheap s) 8 (km s);
            s = s\<lparr>km := m\<rparr>
        in if descriptor = 0 then Some (ERROR (- ENOMEM), s)
           else do {
             (item, s) \<leftarrow> fat16_get_directory_entry dev tmp_filename path s;
             let s = s\<lparr>km := store32 (km s) descriptor item\<rparr>
             in if item = 0 then Some (ERROR (- EIO), s)
                else Some (descriptor, s\<lparr>km := store32 (km s) (descriptor + 4) 0\<rparr>)
           })"

fun fat16_read_loop ::
    "ata_device \<Rightarrow> ptr \<Rightarrow> u32 \<Rightarrow> int \<Rightarrow> nat \<Rightarrow> ptr \<Rightarrow> 'a kstate_scheme \<Rightarrow> (int \<times> 'a kstate_scheme) option" where
  "fat16_read_loop dev item sz offset 0 out_ptr s = Some (0, s)"
| "fat16_read_loop dev item sz offset (Suc n) out_ptr s =
     do {
       (res, s) \<leftarrow> fat16_read_internal dev (c_int (fat16_get_first_cluster item s)) offset (c_int sz) out_ptr s;
       if res < 0 then Some (res, s)
       else fat16_read_loop dev item sz (c_int (c_uint offset + sz)) n (out_ptr + sz) s
     }"

definition fat16_read ::
    "ata_device \<Rightarrow> ptr \<Rightarrow> u32 \<Rightarrow> u32 \<Rightarrow> ptr \<Rightarrow> 'a kstate_scheme \<Rightarrow> (int \<times> 'a kstate_scheme) option" where
  "fat16_read dev descriptor sz nmemb out_ptr s =
     (let fat_desc = fat_file_descriptor_at (km s) descriptor;
          item = fi_union (fat_item_at (km s) (ff_item fat_desc));
          offset = c_int (ff_pos fat_desc)
      in do {
        (res, s) \<leftarrow> fat16_read_loop dev item sz offset (unat nmemb) out_ptr s;
        Some (if res < 0 then res else c_int nmemb, s)
      })"

text \<open>\<^verbatim>\<open>SEEK_SET\<close>, \<^verbatim>\<open>SEEK_CUR\<close> and \<^verbatim>\<open>SEEK_END\<close> are 0, 1 and 2.\<close>

definition fat16_seek :: "ptr \<Rightarrow> u32 \<Rightarrow> u32 \<Rightarrow> 'a kstate_scheme \<Rightarrow> int \<times> 'a kstate_scheme" where
  "fat16_seek pvt offset seek_mode s =
     (let desc = fat_file_descriptor_at (km s) pvt;
          desc_item = fat_item_at (km s) (ff_item desc)
      in if fi_type desc_item \<noteq> FAT_ITEM_TYPE_FILE then (- EINVARG, s)
         else
           let ritem = fat_directory_item_at (km s) (fi_union desc_item)
           in if di_filesize ritem \<le> offset then (- EIO, s)
              else if seek_mode = 0 then (0, s\<lparr>km := store32 (km s) (pvt + 4) offset\<rparr>)
              else if seek_mode = 2 then (c_int (di_filesize ritem - offset), s)
              else if seek_mode = 1 then (0, s\<lparr>km := store32 (km s) (pvt + 4) (ff_pos desc + offset)\<rparr>)
              else (- EINVARG, s))"

text \<open>The result of a stat request, \<^verbatim>\<open>struct file_stat\<close> of \<^verbatim>\<open>file.h\<close>.\<close>

record file_stat =
  st_flags :: u32
  st_filesize :: u32

definition fat16_stat :: "ptr \<Rightarrow> file_stat \<Rightarrow> 'a kstate_scheme \<Rightarrow> int \<times> file_stat" where
  "fat16_stat private stat s =
     (let desc_item = fat_item_at (km s) (ff_item (fat_file_descriptor_at (km s) private))
      in if fi_type desc_item \<noteq> FAT_ITEM_TYPE_FILE then (- EINVARG, stat)
         else
           let ritem = fat_directory_item_at (km s) (fi_union desc_item);
               stat = stat\<lparr>st_filesize := di_filesize ritem, st_flags := 0x00\<rparr>;
               stat = (if di_attribute ritem AND FAT_FILE_READ_ONLY \<noteq> 0
                       then stat\<lparr>st_flags := st_flags stat OR 1\<rparr> else stat)
           in (0, stat))"

definition fat16_free_file_descriptor :: "ptr \<Rightarrow> 'a kstate_scheme \<Rightarrow> 'a kstate_scheme" where
  "fat16_free_file_descriptor desc s =
     (let s = fat16_fat_item_free (ff_item (fat_file_descriptor_at (km s) desc)) s
      in s\<lparr>km := kfree (kheap s) desc (km s)\<rparr>)"

definition fat16_close :: "ptr \<Rightarrow> 'a kstate_scheme \<Rightarrow> int \<times> 'a kstate_scheme" where
  "fat16_close private s = (0, fat16_free_file_descriptor private s)"

end
