(* ===== verification/Fat16Props.thy ===== *)
theory Fat16Props
  imports Fat16
begin

text \<open>
  Properties of the FAT16 driver over a drive that keeps \<open>ata_drive\<close>: counting directory entries,
  following cluster chains, reading files, file names and positions.
\<close>

section \<open>Counting directory entries\<close>

text \<open>The first byte of entry \<open>j\<close> of the directory that starts at sector \<open>k\<close>.\<close>

definition entry_mark :: "(nat \<Rightarrow> u8) \<Rightarrow> nat \<Rightarrow> nat \<Rightarrow> u8" where
  "entry_mark img k j = img (512 * k + 32 * j)"




lemma read_entry:
  assumes "ata_drive dev img" and "stream_on stream s" and "j \<le> 15" and "k < 4194302"
  defines "s' \<equiv> at_pos stream (int (512 * k + 32 * j)) s"
  shows "diskstreamer_read dev stream 32 s' =
    (0, disk_bytes img (512 * k + 32 * j) 32,
     at_pos stream (int (512 * k + 32 * (if j = 15 then 1 else Suc j))) s)"
proof -
  have "ds_pos (km s') stream = int (512 * k + 32 * j)"
    using assms(3,4) unfolding s'_def by (intro ds_pos_at_pos) simp_all
  moreover have "stream_on stream s'" using assms(2) by (simp add: s'_def)
  ultimately show ?thesis
    using diskstreamer_read_result [OF assms(1), of stream s' k "32 * j" 32] assms(3,4)
    by (cases "j = 15") (auto simp: s'_def ac_simps)
qed

lemma entry_first_byte: "disk_bytes img p 32 ! 0 = img p"
  by (simp add: disk_bytes_def)

lemma total_items_loop_step:
  assumes "ata_drive dev img" and "stream_on stream s" and "j \<le> 15" and "k < 4194302"
  shows "total_items_loop dev stream count (at_pos stream (int (512 * k + 32 * j)) s) =
    (let s' = at_pos stream (int (512 * k + 32 * (if j = 15 then 1 else Suc j))) s in
     if entry_mark img k j = 0 then Some (count, s')
     else if entry_mark img k j = 0xE5 then total_items_loop dev stream count s'
     else total_items_loop dev stream (count + 1) s')"
  unfolding total_items_loop.simps [of dev stream count "at_pos _ _ _"] read_entry [OF assms]
  by (simp add: entry_first_byte entry_mark_def)

lemma total_items_loop_counts:
  assumes "ata_drive dev img" and "stream_on stream s" and "k < 4194302" and "n \<le> 15"
    and "\<forall>j<n. entry_mark img k j \<noteq> 0" and "entry_mark img k n = 0" and "j \<le> n"
  shows "\<exists>p. total_items_loop dev stream count (at_pos stream (int (512 * k + 32 * j)) s) =
    Some (count + int (length (filter (\<lambda>i. entry_mark img k i \<noteq> 0xE5) [j..<n])), at_pos stream p s)"
  using assms(7)
proof (induction "n - j" arbitrary: j count)
  case 0
  then have "j = n" by simp
  then show ?case using total_items_loop_step [OF assms(1,2) _ assms(3), of n] assms(4,6)
    by (auto simp: Let_def)
next
  case (Suc x)
  then have j: "j < n" "j < 15" "[j..<n] = j # [Suc j..<n]" using assms(4) by (auto simp: upt_conv_Cons)
  have IH: "\<exists>p. total_items_loop dev stream c (at_pos stream (int (512 * k + 32 * Suc j)) s) =
      Some (c + int (length (filter (\<lambda>i. entry_mark img k i \<noteq> 0xE5) [Suc j..<n])), at_pos stream p s)" for c
    by (rule Suc(1)) (use Suc(2) j in auto)
  show ?case
    using total_items_loop_step [OF assms(1,2) _ assms(3), of j count] j IH [of count] IH [of "count + 1"] assms(5)
    by (auto simp: Let_def add.assoc)
qed

text \<open>If no entry of the first sector starts with a zero byte, the position goes from 480 back to
  32 and the loop goes round for ever.\<close>

lemma total_items_loop_returns:
  assumes drive: "ata_drive dev img" and k: "k < 4194302" and nz: "\<forall>j\<le>15. entry_mark img k j \<noteq> 0"
    and "total_items_loop dev stream count s0 = Some r"
  shows "\<not> (\<exists>s j. s0 = at_pos stream (int (512 * k + 32 * j)) s \<and> stream_on stream s \<and> j \<le> 15)"
  using assms(4)
proof (rule total_items_loop.raw_induct [rotated, where P = "\<lambda>dev' stream count s0 r. dev' = dev \<longrightarrow>
    \<not> (\<exists>s j. s0 = at_pos stream (int (512 * k + 32 * j)) s \<and> stream_on stream s \<and> j \<le> 15)", rule_format])
  fix f :: "ata_device \<Rightarrow> ptr \<Rightarrow> int \<Rightarrow> 'a kstate_scheme \<Rightarrow> (int \<times> 'a kstate_scheme) option"
    and dev' stream count and s0 :: "'a kstate_scheme" and r
  assume IH: "\<And>dev' stream count s0 r. f dev' stream count s0 = Some r \<Longrightarrow> dev' = dev \<Longrightarrow>
      \<not> (\<exists>s j. s0 = at_pos stream (int (512 * k + 32 * j)) s \<and> stream_on stream s \<and> j \<le> 15)"
    and f: "(let (res, item, s) = diskstreamer_read dev' stream 32 s0
      in if res \<noteq> 0 then Some (- 1, s) else if item ! 0 = 0 then Some (count, s)
         else if item ! 0 = 0xE5 then f dev' stream count s else f dev' stream (count + 1) s) = Some r"
    and [simp]: "dev' = dev"
  show "\<not> (\<exists>s j. s0 = at_pos stream (int (512 * k + 32 * j)) s \<and> stream_on stream s \<and> j \<le> 15)"
  proof
    assume "\<exists>s j. s0 = at_pos stream (int (512 * k + 32 * j)) s \<and> stream_on stream s \<and> j \<le> 15"
    then obtain s j where s: "s0 = at_pos stream (int (512 * k + 32 * j)) s" "stream_on stream s" "j \<le> 15"
      by blast
    let ?j = "if j = 15 then 1 else Suc j"
    let ?s = "at_pos stream (int (512 * k + 32 * ?j)) s"
    have "img (512 * k + 32 * j) \<noteq> 0" using nz s(3) by (simp add: entry_mark_def)
    then have "\<exists>c. f dev stream c ?s = Some r"
      using f read_entry [OF drive s(2,3) k] unfolding s(1)
      by (auto simp: entry_first_byte split: if_splits)
    moreover have "?j \<le> 15" using s(3) by auto
    ultimately show False using IH [of dev stream _ ?s r] s(2) by blast
  qed
qed simp

text \<open>C33. Counting the entries of a directory: if its end mark is among the first 16 entries, the
  count is the number of used entries before it. If the first sector has no end mark, the count
  does not return, because reading its last entry sets the stream back into the same sector.\<close>

theorem fat16_total_items_first_sector:
  assumes "ata_drive dev img" and "stream_on (directory_stream (disk_private s)) s"
    and "unat sector < 4194302" and "sector_size (disk_obj s) = 512"
  shows "(\<forall>n\<le>15. (\<forall>j<n. entry_mark img (unat sector) j \<noteq> 0) \<and> entry_mark img (unat sector) n = 0 \<longrightarrow>
      (\<exists>s'. fat16_get_total_items_for_directory dev sector s =
         Some (int (length (filter (\<lambda>j. entry_mark img (unat sector) j \<noteq> 0xE5) [0..<n])), s')))
    \<and> ((\<forall>j\<le>15. entry_mark img (unat sector) j \<noteq> 0) \<longrightarrow>
         fat16_get_total_items_for_directory dev sector s = None)"
proof -
  let ?st = "directory_stream (disk_private s)" and ?k = "unat sector"
  have u: "unat (sector * 512) = 512 * ?k" using assms(3) by (simp add: unat_word_ariths)
  have "c_int (sector * 512) = int (512 * ?k + 32 * 0)"
    using c_int_small [of "sector * 512"] assms(3) unfolding u by simp
  then have eq: "fat16_get_total_items_for_directory dev sector s =
      total_items_loop dev ?st 0 (at_pos ?st (int (512 * ?k + 32 * 0)) s)"
    using assms(4) by (simp add: fat16_get_total_items_for_directory_def diskstreamer_seek_eq Let_def)
  have "\<exists>s'. fat16_get_total_items_for_directory dev sector s =
      Some (int (length (filter (\<lambda>j. entry_mark img ?k j \<noteq> 0xE5) [0..<n])), s')"
    if "n \<le> 15" "\<forall>j<n. entry_mark img ?k j \<noteq> 0" "entry_mark img ?k n = 0" for n
    using total_items_loop_counts [OF assms(1-3) that le0, of 0] unfolding eq by auto
  moreover have "fat16_get_total_items_for_directory dev sector s = None"
    if nz: "\<forall>j\<le>15. entry_mark img ?k j \<noteq> 0"
  proof (cases "fat16_get_total_items_for_directory dev sector s")
    case (Some r)
    then show ?thesis
      using total_items_loop_returns [OF assms(1,3) nz, of ?st 0 _ r] assms(2) unfolding eq by blast
  qed
  ultimately show ?thesis by blast
qed

text \<open>A mounted disk of one-sector clusters: private data at \<^verbatim>\<open>0x200\<close>, its three streams, one
  reserved sector, the data area from sector 8 on, and the descriptor at \<^verbatim>\<open>0x300\<close> of a file of
  700 bytes that starts at cluster 2.\<close>

definition example_mem :: mem where
  "example_mem = fold (\<lambda>(p, v) m. store32 m p v)
     [(0x100, 0), (0x104, 0x2000), (0x110, 0), (0x114, 0x2000), (0x120, 0), (0x124, 0x2000),
      (0x250, 0x110), (0x254, 0x120), (0x258, 0x100), (0x24A, 8), (0x20D, 0x101),
      (0x300, 0x310), (0x304, 0), (0x310, 0x320), (0x314, 1), (0x33A, 2), (0x33C, 700)] (\<lambda>_. 0)"

definition example_mounted :: kstate where
  "example_mounted = \<lparr>km = example_mem, kheap = kernel_heap,
     disk_obj = \<lparr>dk_type = 0, sector_size = 512, dk_id = 0, filesystem = 0, fs_private = 0x200\<rparr>,
     disk_obj_at = 0x2000\<rparr>"

lemma example_mounted_simps [simp]:
  "sector_size (disk_obj example_mounted) = 512" "disk_obj_at example_mounted = 0x2000"
  "fs_private (disk_obj example_mounted) = 0x200" "km example_mounted = example_mem"
  by (simp_all add: example_mounted_def)

lemma example_mem_words:
  "load32 example_mem 0x250 = 0x110" "load32 example_mem 0x254 = 0x120" "load32 example_mem 0x258 = 0x100"
  "load32 example_mem 0x104 = 0x2000" "load32 example_mem 0x114 = 0x2000" "load32 example_mem 0x124 = 0x2000"
  "load32 example_mem 0x24A = 8" "example_mem 0x20D = 1" "load16 example_mem 0x20E = 1"
  "load32 example_mem 0x300 = 0x310" "load32 example_mem 0x304 = 0" "load32 example_mem 0x310 = 0x320"
  "load32 example_mem 0x314 = 1" "load16 example_mem 0x334 = 0" "load16 example_mem 0x33A = 2"
  "load32 example_mem 0x33C = 700"
  by (simp_all add: example_mem_def load32_def load16_def store32_def)

theorem fat16_total_items_first_sector_witness:
  "(\<exists>s'. fat16_get_total_items_for_directory (drive_of (\<lambda>i. if i < 544 then 0xE5 else if i < 576 then 65 else 0))
      1 example_mounted = Some (1, s'))
   \<and> fat16_get_total_items_for_directory (drive_of (\<lambda>_. 65)) 1 example_mounted = None"
proof
  have st: "stream_on (directory_stream (disk_private example_mounted)) example_mounted"
    by (simp add: stream_on_def ds_disk_def disk_private_def fat_private_at_def example_mem_words)
  note cnt = fat16_total_items_first_sector [OF ata_drive_drive_of st, of 1]
  show "fat16_get_total_items_for_directory (drive_of (\<lambda>_. 65)) 1 example_mounted = None"
    using cnt by (simp add: entry_mark_def)
  let ?img = "\<lambda>i::nat. if i < 544 then 0xE5 else if i < 576 then 65 else 0 :: u8"
  have "\<forall>j<2. entry_mark ?img 1 j \<noteq> 0" "entry_mark ?img 1 2 = 0"
    "length (filter (\<lambda>j. entry_mark ?img 1 j \<noteq> 0xE5) [0..<2]) = 1"
    by (auto simp: entry_mark_def upt_rec)
  then show "\<exists>s'. fat16_get_total_items_for_directory (drive_of ?img) 1 example_mounted = Some (1, s')"
    using cnt [of ?img, OF _ example_mounted_simps(1), THEN conjunct1, rule_format, of 2] by simp
qed

section \<open>Cluster chains\<close>

text \<open>
  The mounted state the reading functions rely on: sectors of 512 bytes, the private data and the
  two streams in separate bytes, both streams on the disk.
\<close>

definition mounted :: "'a kstate_scheme \<Rightarrow> bool" where
  "mounted s \<longleftrightarrow> (let p = fs_private (disk_obj s); cs = cluster_read_stream (disk_private s);
       fs = fat_read_stream (disk_private s) in
     sector_size (disk_obj s) = 512 \<and> fs \<noteq> 0 \<and> 0 < uint (sectors_per_cluster (disk_header s))
     \<and> stream_on cs s \<and> stream_on fs s
     \<and> disj_range cs 8 fs 8 \<and> disj_range cs 8 p 92 \<and> disj_range fs 8 p 92)"

text \<open>The steps of a read: only the positions of the two streams and \<open>n\<close> bytes of the destination
  change.\<close>

definition fs_step :: "ptr \<Rightarrow> nat \<Rightarrow> 'a kstate_scheme \<Rightarrow> 'a kstate_scheme \<Rightarrow> bool" where
  "fs_step out n s s' \<longleftrightarrow> s' = s\<lparr>km := km s'\<rparr> \<and>
     (\<forall>a. \<not> in_range (cluster_read_stream (disk_private s)) 4 a
       \<and> \<not> in_range (fat_read_stream (disk_private s)) 4 a \<and> \<not> in_range out n a \<longrightarrow> km s' a = km s a)"

definition clear_of_fs :: "ptr \<Rightarrow> nat \<Rightarrow> 'a kstate_scheme \<Rightarrow> bool" where
  "clear_of_fs out n s \<longleftrightarrow> disj_range out n (fs_private (disk_obj s)) 92
     \<and> disj_range out n (cluster_read_stream (disk_private s)) 8
     \<and> disj_range out n (fat_read_stream (disk_private s)) 8"

lemma fs_step_refl: "fs_step out n s s"
  by (simp add: fs_step_def)

lemma fs_step_mono:
  "fs_step out n s s' \<Longrightarrow> n \<le> k \<Longrightarrow> fs_step out k s s'"
  unfolding fs_step_def using in_range_mono by blast

lemma load16_priv:
  assumes "\<And>a. in_range p 92 a \<Longrightarrow> m' a = m a" and "i \<le> 90"
  shows "load16 m' (p + of_nat i) = load16 m (p + of_nat i)"
proof (rule load16_cong)
  fix a assume "in_range (p + of_nat i) 2 a"
  then have "in_range p 92 a"
    by (rule in_range_offset [OF in_range_of_nat, rotated 3]) (use assms(2) in \<open>simp_all add: unat_of_nat_u32\<close>)
  then show "m' a = m a" by (rule assms(1))
qed

lemma load32_priv:
  assumes "\<And>a. in_range p 92 a \<Longrightarrow> m' a = m a" and "i \<le> 88"
  shows "load32 m' (p + of_nat i) = load32 m (p + of_nat i)"
proof (rule load32_cong)
  fix a assume "in_range (p + of_nat i) 4 a"
  then have "in_range p 92 a"
    by (rule in_range_offset [OF in_range_of_nat, rotated 3]) (use assms(2) in \<open>simp_all add: unat_of_nat_u32\<close>)
  then show "m' a = m a" by (rule assms(1))
qed

text \<open>What the reading functions look at is the same before and after such a step.\<close>

definition root_end :: "'a kstate_scheme \<Rightarrow> int" where
  "root_end s = fd_ending_sector_pos (fat_directory_at (km s) (root_directory (disk_private s)))"

lemma fs_step_private:
  assumes mt: "mounted s" and cl: "clear_of_fs out n s" and st: "fs_step out n s s'"
  shows "disk_obj s' = disk_obj s" "disk_obj_at s' = disk_obj_at s" "disk_private s' = disk_private s"
    "sectors_per_cluster (disk_header s') = sectors_per_cluster (disk_header s)"
    "reserved_sectors (disk_header s') = reserved_sectors (disk_header s)"
    "root_end s' = root_end s"
proof -
  let ?p = "fs_private (disk_obj s)"
  have s': "s' = s\<lparr>km := km s'\<rparr>" using st by (simp add: fs_step_def)
  show d: "disk_obj s' = disk_obj s" "disk_obj_at s' = disk_obj_at s" by (subst s', simp)+
  have eq: "km s' a = km s a" if "in_range ?p 92 a" for a
  proof -
    have "\<not> in_range out n a" using cl that disj_rangeD2 unfolding clear_of_fs_def by blast
    moreover have "\<not> in_range (cluster_read_stream (disk_private s)) 8 a"
      "\<not> in_range (fat_read_stream (disk_private s)) 8 a"
      using mt that disj_rangeD2 unfolding mounted_def Let_def by blast+
    ultimately show ?thesis using st in_range_mono [of _ 4 a 8] unfolding fs_step_def by auto
  qed
  have w: "load32 (km s') (?p + 80) = load32 (km s) (?p + 80)" "load32 (km s') (?p + 84) = load32 (km s) (?p + 84)"
    "load32 (km s') (?p + 88) = load32 (km s) (?p + 88)" "load32 (km s') (?p + 74) = load32 (km s) (?p + 74)"
    using load32_priv [where p = ?p and i = 80, OF eq] load32_priv [where p = ?p and i = 84, OF eq]
      load32_priv [where p = ?p and i = 88, OF eq] load32_priv [where p = ?p and i = 74, OF eq] by simp_all
  show "disk_private s' = disk_private s" by (simp add: disk_private_def fat_private_at_def d w)
  show "sectors_per_cluster (disk_header s') = sectors_per_cluster (disk_header s)"
    using eq [of "?p + 13"] by (simp add: disk_header_def fat_header_at_def d in_range_def)
  show "reserved_sectors (disk_header s') = reserved_sectors (disk_header s)"
    using load16_priv [where p = ?p and i = 14, OF eq] by (simp add: disk_header_def fat_header_at_def d)
  show "root_end s' = root_end s"
    using w(4) by (simp add: root_end_def disk_private_def fat_private_at_def fat_directory_at_def d
        add.commute [of 74])
qed

lemma fs_step_stream_on:
  assumes "mounted s" and "clear_of_fs out n s" and "fs_step out n s s'"
    and "st = cluster_read_stream (disk_private s) \<or> st = fat_read_stream (disk_private s)"
  shows "stream_on st s'"
proof -
  let ?cs = "cluster_read_stream (disk_private s)" and ?fs = "fat_read_stream (disk_private s)"
  have sub: "in_range st 8 a \<and> \<not> in_range st 4 a" if "in_range (st + 4) 4 a" for a
  proof
    show "in_range st 8 a"
      by (rule in_range_offset [OF _ _ that]) (simp_all add: in_range_def)
    show "\<not> in_range st 4 a" using disj_rangeD [OF stream_words_disj] that by blast
  qed
  have "km s' a = km s a" if "in_range (st + 4) 4 a" for a
  proof -
    note a = sub [OF that]
    have "\<not> in_range out n a" using assms(2,4) a disj_rangeD2 unfolding clear_of_fs_def by blast
    moreover have "disj_range ?cs 8 ?fs 8" using assms(1) by (simp add: mounted_def Let_def)
    then have "\<not> in_range ?cs 4 a" "\<not> in_range ?fs 4 a"
      using assms(4) a disj_rangeD [of ?cs 8 ?fs 8 a] in_range_mono [of _ 4 a 8] by auto
    ultimately show ?thesis using assms(3) unfolding fs_step_def by blast
  qed
  then have "load32 (km s') (st + 4) = load32 (km s) (st + 4)" by (rule load32_cong)
  moreover have "stream_on st s" using assms(1,4) by (auto simp: mounted_def Let_def)
  ultimately show ?thesis using fs_step_private(2) [OF assms(1-3)] by (simp add: stream_on_def ds_disk_def)
qed

lemma fs_step_mounted:
  assumes "mounted s" and "clear_of_fs out n s" and "fs_step out n s s'"
  shows "mounted s'" and "clear_of_fs q k s' = clear_of_fs q k s"
    and "size_of_cluster_bytes s' = size_of_cluster_bytes s"
proof -
  note p = fs_step_private [OF assms]
  show "mounted s'"
    using assms(1) fs_step_stream_on [OF assms] unfolding mounted_def Let_def by (simp add: p)
  show "clear_of_fs q k s' = clear_of_fs q k s" by (simp add: clear_of_fs_def p)
  show "size_of_cluster_bytes s' = size_of_cluster_bytes s" by (simp add: size_of_cluster_bytes_def p)
qed

lemma fs_step_trans:
  assumes "mounted s" and "clear_of_fs out n s" and "fs_step out n s s'" and "fs_step out n s' s''"
  shows "fs_step out n s s''"
proof -
  have "disk_private s' = disk_private s" by (rule fs_step_private [OF assms(1-3)])
  moreover have "s'' = s\<lparr>km := km s''\<rparr>"
  proof -
    have "s'' = s'\<lparr>km := km s''\<rparr>" using assms(4) by (simp add: fs_step_def)
    also have "\<dots> = (s\<lparr>km := km s'\<rparr>)\<lparr>km := km s''\<rparr>" using assms(3) by (simp add: fs_step_def)
    finally show ?thesis by simp
  qed
  ultimately show ?thesis using assms(3,4) unfolding fs_step_def by auto
qed

lemma fs_step_at_pos:
  "st = cluster_read_stream (disk_private s) \<or> st = fat_read_stream (disk_private s) \<Longrightarrow>
    fs_step out n s (at_pos st p s)"
  by (auto simp: fs_step_def at_pos_def store32_other)

text \<open>The entry of a cluster in the first allocation table.\<close>

definition fat_entry :: "(nat \<Rightarrow> u8) \<Rightarrow> 'a kstate_scheme \<Rightarrow> int \<Rightarrow> int" where
  "fat_entry img s c = uint (image_word img (512 * unat (reserved_sectors (disk_header s)) + 2 * nat c))"

lemma unat_lt_u16: "unat (a :: u16) < 65536"
  using unsigned_less [of a, where 'a = nat] by simp

lemma u16_of_bytes_image: "u16_of_bytes (disk_bytes img p 2) = image_word img p"
  by (simp add: u16_of_bytes_def image_word_def disk_bytes_def upt_rec)

lemma fat16_get_fat_entry_image:
  assumes drive: "ata_drive dev img" and mt: "mounted s" and c: "0 \<le> c" "c < 65536"
  shows "\<exists>p. fat16_get_fat_entry dev c s = (fat_entry img s c, at_pos (fat_read_stream (disk_private s)) p s)"
proof -
  let ?st = "fat_read_stream (disk_private s)" and ?r = "unat (reserved_sectors (disk_header s))"
  define P where "P = 512 * ?r + 2 * nat c"
  have m: "sector_size (disk_obj s) = 512" "?st \<noteq> 0" "stream_on ?st s"
    using mt by (auto simp: mounted_def Let_def)
  have P: "P < 33947648" using c unat_lt_u16 [of "reserved_sectors (disk_header s)"] unfolding P_def by linarith
  have w: "fat16_get_first_fat_sector s * c_uint (sector_size (disk_obj s)) + c_uint (c * 2) = of_nat P"
  proof -
    have "fat16_get_first_fat_sector s = (of_nat ?r :: u32)"
      unfolding fat16_get_first_fat_sector_def by (simp add: of_nat_unat)
    moreover have "c * 2 = int (2 * nat c)" using c by simp
    then have "c_uint (c * 2) = (of_nat (2 * nat c) :: u32)" by (simp only: of_int_of_nat_eq)
    ultimately show ?thesis by (simp add: m(1) P_def mult.commute)
  qed
  have pos: "c_int (of_nat P) = int P"
    using c_int_small [of "of_nat P"] unat_of_nat_u32 [of P] P by (simp del: of_nat_add of_nat_mult)
  let ?s = "at_pos ?st (int P) s"
  have ds: "ds_pos (km ?s) ?st = int (512 * (P div 512) + P mod 512)"
    using ds_pos_at_pos [of "int P" ?st s] P by simp
  have off: "P mod 512 \<le> 510" "P mod 512 < 512"
  proof -
    have "even (P mod 512)" by (simp add: P_def dvd_mod_iff)
    moreover show "P mod 512 < 512" by simp
    moreover have "x \<le> 510" if "even x" "x < 512" for x :: nat
      using that by (cases "x = 511") auto
    ultimately show "P mod 512 \<le> 510" by blast
  qed
  have k: "int (512 * Suc (P div 512)) + 2 < 2147483648"
  proof -
    have "P div 512 \<le> 66304" using P by (intro less_mult_imp_div_less less_imp_le) simp
    then show ?thesis by simp
  qed
  have "stream_on ?st ?s" using m(3) by simp
  note rd = diskstreamer_read_result [OF drive this ds off(2) _ k, unfolded mult_div_mod_eq]
  have "\<exists>p. diskstreamer_read dev ?st 2 ?s = (0, disk_bytes img P 2, at_pos ?st p s)"
  proof (cases "P mod 512 = 0 \<or> int (P mod 512) + 2 < 512")
    case False
    then have "P mod 512 = 510" using off(1) by simp
    then have "max (512 - P mod 512) (nat 2 - P mod 512) = 2" by simp
    then show ?thesis using rd False by auto
  qed (use rd in auto)
  then obtain p where "diskstreamer_read dev ?st 2 ?s = (0, disk_bytes img P 2, at_pos ?st p s)" ..
  then show ?thesis
    unfolding fat16_get_fat_entry_def Let_def w diskstreamer_seek_eq prod.case pos
    using m(2) by (auto simp: u16_of_bytes_image fat_entry_def P_def)
qed

text \<open>The \<open>n\<close>-th cluster of the chain that starts with \<open>c\<close>, and the entries the driver takes for
  the end of a chain or for a broken one.\<close>

fun chain :: "(nat \<Rightarrow> u8) \<Rightarrow> 'a kstate_scheme \<Rightarrow> int \<Rightarrow> nat \<Rightarrow> int" where
  "chain img s c 0 = c"
| "chain img s c (Suc n) = chain img s (fat_entry img s c) n"

definition stop_entry :: "int \<Rightarrow> bool" where
  "stop_entry e \<longleftrightarrow> e \<in> {0, 0xFF0, 0xFF6, 0xFF7, 0xFF8, 0xFFF}"

lemma chain_snoc: "chain img s c (Suc n) = fat_entry img s (chain img s c n)"
  by (induction n arbitrary: c) simp_all

lemma fat_entry_range: "0 \<le> fat_entry img s c" "fat_entry img s c < 65536"
  using uint_lt2p [of "image_word img (512 * unat (reserved_sectors (disk_header s)) + 2 * nat c)"]
  by (simp_all add: fat_entry_def)

lemma chain_range: "0 \<le> c \<Longrightarrow> c < 65536 \<Longrightarrow> 0 \<le> chain img s c n \<and> chain img s c n < 65536"
  by (cases n) (auto simp: chain_snoc fat_entry_range simp del: chain.simps(2))

lemma fs_step_chain:
  assumes "mounted s" and "clear_of_fs out n s" and "fs_step out n s s'"
  shows "fat_entry img s' c = fat_entry img s c" and "chain img s' c k = chain img s c k"
proof -
  show e: "fat_entry img s' c = fat_entry img s c" for c
    using fs_step_private(5) [OF assms] by (simp add: fat_entry_def)
  show "chain img s' c k = chain img s c k" by (induction k arbitrary: c) (simp_all add: e)
qed

lemma cluster_loop_chain:
  assumes "ata_drive dev img" and "mounted s" and "clear_of_fs out n s" and "0 \<le> c" and "c < 65536"
    and "\<forall>i. 0 < i \<and> i \<le> k \<longrightarrow> \<not> stop_entry (chain img s c i)"
  shows "\<exists>s'. cluster_loop dev k c s = (chain img s c k, s') \<and> fs_step out n s s'"
  using assms
proof (induction k arbitrary: c s)
  case 0
  then show ?case by (simp add: fs_step_refl)
next
  case (Suc k)
  let ?e = "fat_entry img s c"
  obtain p where p: "fat16_get_fat_entry dev c s = (?e, at_pos (fat_read_stream (disk_private s)) p s)"
    using fat16_get_fat_entry_image [OF Suc.prems(1,2,4,5)] by blast
  let ?s = "at_pos (fat_read_stream (disk_private s)) p s"
  have st: "fs_step out n s ?s" by (rule fs_step_at_pos) simp
  note ch = fs_step_chain [OF Suc.prems(2,3) st]
  have "\<not> stop_entry ?e" using Suc.prems(6) [rule_format, of 1] by simp
  then have "cluster_loop dev (Suc k) c s = cluster_loop dev k ?e ?s" by (simp add: p stop_entry_def)
  moreover obtain s' where "cluster_loop dev k ?e ?s = (chain img ?s ?e k, s')" "fs_step out n ?s s'"
  proof -
    have "\<forall>i. 0 < i \<and> i \<le> k \<longrightarrow> \<not> stop_entry (chain img ?s ?e i)"
      using Suc.prems(6) [rule_format, of "Suc _"] by (simp add: ch)
    then show thesis
      using Suc.IH [OF Suc.prems(1) fs_step_mounted(1) [OF Suc.prems(2,3) st] _ fat_entry_range]
        fs_step_mounted(2) [OF Suc.prems(2,3) st] Suc.prems(3) that by blast
  qed
  ultimately show ?case using fs_step_trans [OF Suc.prems(2,3) st] by (auto simp: ch)
qed

section \<open>Reading files\<close>

text \<open>Where cluster \<open>c\<close> starts on the disk, the bytes of a cluster, and the byte at position \<open>y\<close> of
  the file whose first cluster is \<open>c\<close>.\<close>

definition cluster_bytes :: "'a kstate_scheme \<Rightarrow> nat" where
  "cluster_bytes s = 512 * unat (sectors_per_cluster (disk_header s))"

definition cluster_start :: "'a kstate_scheme \<Rightarrow> int \<Rightarrow> int" where
  "cluster_start s c = 512 * (root_end s + (c - 2) * uint (sectors_per_cluster (disk_header s)))"

definition file_byte :: "(nat \<Rightarrow> u8) \<Rightarrow> 'a kstate_scheme \<Rightarrow> int \<Rightarrow> nat \<Rightarrow> u8" where
  "file_byte img s c y = img (nat (cluster_start s (chain img s c (y div cluster_bytes s))) + y mod cluster_bytes s)"

text \<open>The first \<open>n\<close> clusters of a chain are linked and lie on the part of the disk that stream
  positions reach.\<close>

definition chain_ok :: "(nat \<Rightarrow> u8) \<Rightarrow> 'a kstate_scheme \<Rightarrow> int \<Rightarrow> nat \<Rightarrow> bool" where
  "chain_ok img s c n \<longleftrightarrow> 0 \<le> c \<and> c < 65536
     \<and> (\<forall>i<n. 0 < i \<longrightarrow> \<not> stop_entry (chain img s c i))
     \<and> (\<forall>i<n. 0 \<le> cluster_start s (chain img s c i)
          \<and> cluster_start s (chain img s c i) + int (cluster_bytes s) < 2147483648)"

lemma size_of_cluster_bytes_eq:
  "mounted s \<Longrightarrow> size_of_cluster_bytes s = int (cluster_bytes s)" "mounted s \<Longrightarrow> 0 < cluster_bytes s"
proof -
  assume "mounted s"
  then show "size_of_cluster_bytes s = int (cluster_bytes s)" "0 < cluster_bytes s"
    by (auto simp: mounted_def Let_def size_of_cluster_bytes_def cluster_bytes_def unat_gt_0 mult.commute)
qed

lemma fs_step_file:
  assumes "mounted s" and "clear_of_fs out n s" and "fs_step out n s s'"
  shows "cluster_bytes s' = cluster_bytes s" "cluster_start s' c = cluster_start s c"
    "file_byte img s' c y = file_byte img s c y" "chain_ok img s' c k = chain_ok img s c k"
proof -
  note p = fs_step_private [OF assms] and ch = fs_step_chain [OF assms]
  show b: "cluster_bytes s' = cluster_bytes s" by (simp add: cluster_bytes_def p)
  show c: "cluster_start s' c = cluster_start s c" for c by (simp add: cluster_start_def p)
  show "file_byte img s' c y = file_byte img s c y" by (simp add: file_byte_def b c ch)
  show "chain_ok img s' c k = chain_ok img s c k" by (simp add: chain_ok_def b c ch)
qed

lemma cluster_start_aligned:
  "0 \<le> cluster_start s c \<Longrightarrow> \<exists>k. cluster_start s c = int (512 * k)"
proof -
  assume "0 \<le> cluster_start s c"
  then have "cluster_start s c = int (512 * nat (root_end s + (c - 2) * uint (sectors_per_cluster (disk_header s))))"
    by (simp add: cluster_start_def)
  then show ?thesis ..
qed

text \<open>One turn: at most a cluster from its start.\<close>

lemma read_cluster:
  assumes drive: "ata_drive dev img" and mt: "mounted s" and cl: "clear_of_fs out n s"
    and p: "0 \<le> cluster_start s c" "cluster_start s c + int t < 2147483648" and t: "t \<le> n" "n \<le> 4294967296"
  defines "cs \<equiv> cluster_read_stream (disk_private s)"
  shows "\<exists>s'. diskstreamer_read_to dev cs out (int t) (at_pos cs (cluster_start s c) s) = (0, s')
    \<and> fs_step out n s s' \<and> (\<forall>x<t. km s' (out + of_nat x) = img (nat (cluster_start s c) + x))"
proof -
  obtain k where k: "cluster_start s c = int (512 * k)" using cluster_start_aligned [OF p(1)] by blast
  let ?s = "at_pos cs (int (512 * k)) s"
  have on: "stream_on cs s" using mt by (auto simp: mounted_def Let_def cs_def)
  have "diskstreamer_read dev cs (int t) ?s =
      (0, disk_bytes img (512 * k) t, at_pos cs (int (512 * k) + int t) ?s)"
    using diskstreamer_read_aligned [OF drive, of cs ?s k "int t"] on p(2) k by (simp add: ds_pos_at_pos)
  then have r: "diskstreamer_read_to dev cs out (int t) ?s =
      (0, (at_pos cs (int (512 * k) + int t) s)\<lparr>km := write_bytes out (disk_bytes img (512 * k) t)
         (km (at_pos cs (int (512 * k) + int t) s))\<rparr>)"
    using diskstreamer_read_to_bytes [of out dev cs "int t" ?s] disj_range_mono [of out n cs 8 t 8] cl t(1)
    by (simp add: clear_of_fs_def cs_def)
  let ?s' = "snd (diskstreamer_read_to dev cs out (int t) ?s)"
  have a: "km ?s' a = (if in_range out t a then img (512 * k + unat (a - out))
      else km (at_pos cs (int (512 * k) + int t) s) a)" for a
    using t unfolding r by (simp add: write_bytes_apply disk_bytes_def in_range_def)
  have "fs_step out n s ?s'"
    unfolding fs_step_def
  proof (intro conjI allI impI)
    show "?s' = s\<lparr>km := km ?s'\<rparr>" unfolding r by (simp add: at_pos_def)
    fix x assume "\<not> in_range (cluster_read_stream (disk_private s)) 4 x \<and>
        \<not> in_range (fat_read_stream (disk_private s)) 4 x \<and> \<not> in_range out n x"
    then show "km ?s' x = km s x"
      using a [of x] in_range_mono [of out t x n] t(1) by (auto simp: at_pos_def cs_def store32_other)
  qed
  moreover have "km ?s' (out + of_nat x) = img (512 * k + x)" if "x < t" for x
    using a [of "out + of_nat x"] that t unat_of_nat_u32 [of x] in_range_of_nat [of x t out] by simp
  moreover have "nat (cluster_start s c) = 512 * k" using k by simp
  moreover have "diskstreamer_read_to dev cs out (int t) ?s = (0, ?s')" unfolding r by simp
  ultimately show ?thesis unfolding k by (intro exI [of _ ?s']) simp
qed

lemma in_range_suffix:
  assumes "t + r \<le> n" and "n \<le> 4294967295" and "in_range (out + of_nat t) r a"
  shows "in_range out n a" and "t \<le> unat (a - out)"
proof -
  have u: "unat (of_nat t :: u32) = t" using assms by (intro unat_of_nat_u32) simp
  obtain i where i: "i < r" "a = out + of_nat t + of_nat i" using assms(3) by (rule in_range_exE)
  then have "a - out = of_nat (t + i)" by simp
  then have "unat (a - out) = t + i" using unat_of_nat_u32 [of "t + i"] i assms by simp
  then show "in_range out n a" "t \<le> unat (a - out)" using i assms by (simp_all add: in_range_def)
qed

text \<open>Extending a read by the part behind its first \<open>t\<close> bytes.\<close>

lemma fs_step_extend:
  assumes mt: "mounted s" and cl: "clear_of_fs out n s" and n: "t + r \<le> n" "n \<le> 4294967295"
    and s1: "fs_step out n s s1" and s2: "fs_step (out + of_nat t) r s1 s2"
  shows "fs_step out n s s2" and "x < t \<Longrightarrow> km s2 (out + of_nat x) = km s1 (out + of_nat x)"
    and "clear_of_fs (out + of_nat t) r s1"
proof -
  have "fs_step out n s1 s2" using s2 in_range_suffix(1) [OF n] unfolding fs_step_def by blast
  then show "fs_step out n s s2" by (rule fs_step_trans [OF mt cl s1])
  have p: "disk_private s1 = disk_private s" "disk_obj s1 = disk_obj s" by (rule fs_step_private [OF mt cl s1])+
  have sub: "disj_range (out + of_nat t) r q k" if "disj_range out n q k" for q k
    using disj_rangeD [OF that] in_range_suffix(1) [OF n] by (intro disj_rangeI) blast
  then show "clear_of_fs (out + of_nat t) r s1" using cl by (simp add: clear_of_fs_def p)
  assume x: "x < t"
  let ?a = "out + of_nat x"
  have ux: "unat (?a - out) = x" using x n by (simp add: unat_of_nat_u32)
  have r: "in_range out n ?a" using x n by (intro in_range_of_nat) simp_all
  have "\<not> in_range (out + of_nat t) r ?a" using in_range_suffix(2) [OF n] ux x by fastforce
  moreover have "\<not> in_range (cluster_read_stream (disk_private s)) 8 ?a" "\<not> in_range (fat_read_stream (disk_private s)) 8 ?a"
    using cl r disj_rangeD unfolding clear_of_fs_def by blast+
  ultimately show "km s2 ?a = km s1 ?a"
    using s2 in_range_mono [of _ 4 ?a 8] unfolding fs_step_def p by auto
qed

text \<open>One turn of the read: the bytes of one cluster, or fewer at the end.\<close>

lemma read_chain_turn:
  assumes drive: "ata_drive dev img" and mt: "mounted s" and cl: "clear_of_fs out tot s" and ok: "chain_ok img s c K"
    and i: "i < K" and tot: "tot \<le> 4294967295"
  obtains s2 where "fat16_read_internal_from_stream dev (cluster_read_stream (disk_private s)) c (int (cluster_bytes s * i)) (int tot) out s =
      (if 0 < int tot - int (min (cluster_bytes s) tot)
       then fat16_read_internal_from_stream dev (cluster_read_stream (disk_private s)) c
         (int (cluster_bytes s * i) + int (min (cluster_bytes s) tot)) (int tot - int (min (cluster_bytes s) tot))
         (out + of_nat (min (cluster_bytes s) tot)) s2
       else Some (0, s2))"
    "fs_step out tot s s2" "\<forall>x<min (cluster_bytes s) tot. km s2 (out + of_nat x) = file_byte img s c (cluster_bytes s * i + x)"
proof -
  let ?b = "cluster_bytes s" and ?cs = "cluster_read_stream (disk_private s)" and ?ci = "chain img s c i"
  let ?t = "min ?b tot"
  note b = size_of_cluster_bytes_eq [OF mt]
  have sd: "int (?b * i) sdiv int ?b = int i" "int (?b * i) smod int ?b = 0"
    using b(2) by (simp_all add: signed_divide_int_def signed_modulo_int_def sgn_if)
  obtain s1 where s1: "cluster_loop dev i c s = (?ci, s1)" "fs_step out tot s s1"
    using cluster_loop_chain [OF drive mt cl, of c i] ok i unfolding chain_ok_def by auto
  note p1 = fs_step_private [OF mt cl s1(2)] and m1 = fs_step_mounted [OF mt cl s1(2)]
    and f1 = fs_step_file [OF mt cl s1(2)]
  have pos: "0 \<le> cluster_start s1 ?ci" "cluster_start s1 ?ci + int ?t < 2147483648" "0 \<le> ?ci"
    using ok i chain_range [of c img s i] unfolding chain_ok_def f1 by fastforce+
  obtain s2 where s2: "diskstreamer_read_to dev ?cs out (int ?t) (at_pos ?cs (cluster_start s1 ?ci) s1) = (0, s2)"
      "fs_step out tot s1 s2" "\<forall>x<?t. km s2 (out + of_nat x) = img (nat (cluster_start s ?ci) + x)"
    using read_cluster [OF drive m1(1) _ pos(1,2), of out tot] cl m1(2) tot p1(3) f1(2) by auto
  have s02: "fs_step out tot s s2" by (rule fs_step_trans [OF mt cl s1(2) s2(2)])
  have start: "fat16_cluster_to_sector ?ci s1 * sector_size (disk_obj s1) = cluster_start s1 ?ci"
    using mt by (simp add: fat16_cluster_to_sector_def cluster_start_def root_end_def p1 mounted_def Let_def)
  have un: "fat16_read_internal_from_stream dev ?cs c (int (?b * i)) (int tot) out s =
      (if 0 < int tot - int ?t
       then fat16_read_internal_from_stream dev ?cs c (int (?b * i) + int ?t) (int tot - int ?t) (out + of_nat ?t) s2
       else Some (0, s2))"
    unfolding fat16_read_internal_from_stream.simps [of dev ?cs c "int (?b * i)"]
    using b s1(1) pos(3) s2(1)
    by (cases "?b < tot") (simp_all add: fat16_get_cluster_for_offset_def sd m1(3) start
        diskstreamer_seek_eq Let_def min_absorb1 min_absorb2 not_less del: of_nat_mult)
  have first: "\<forall>x<?t. km s2 (out + of_nat x) = file_byte img s c (?b * i + x)"
    using s2(3) b(2) by (simp add: file_byte_def)
  show thesis by (rule that [OF un s02 first])
qed

lemma read_chain:
  assumes drive: "ata_drive dev img"
  shows "mounted s \<Longrightarrow> clear_of_fs out tot s \<Longrightarrow> chain_ok img s c K \<Longrightarrow> i < K \<Longrightarrow>
    cluster_bytes s * i + tot \<le> cluster_bytes s * K \<Longrightarrow> tot \<le> 4294967295 \<Longrightarrow>
    \<exists>s'. fat16_read_internal_from_stream dev (cluster_read_stream (disk_private s)) c
        (int (cluster_bytes s * i)) (int tot) out s = Some (0, s')
      \<and> fs_step out tot s s' \<and> (\<forall>x<tot. km s' (out + of_nat x) = file_byte img s c (cluster_bytes s * i + x))"
proof (induction tot arbitrary: s i out rule: less_induct)
  case (less tot)
  note mt = less.prems(1) and cl = less.prems(2) and ok = less.prems(3)
  let ?b = "cluster_bytes s" and ?cs = "cluster_read_stream (disk_private s)"
  let ?t = "min ?b tot"
  note b = size_of_cluster_bytes_eq [OF mt]
  obtain s2 where un: "fat16_read_internal_from_stream dev ?cs c (int (?b * i)) (int tot) out s =
      (if 0 < int tot - int ?t
       then fat16_read_internal_from_stream dev ?cs c (int (?b * i) + int ?t) (int tot - int ?t) (out + of_nat ?t) s2
       else Some (0, s2))"
    and s02: "fs_step out tot s s2" and first: "\<forall>x<?t. km s2 (out + of_nat x) = file_byte img s c (?b * i + x)"
    by (rule read_chain_turn [OF drive mt cl ok less.prems(4,6)])
  show ?case
  proof (cases "tot \<le> ?b")
    case True
    then show ?thesis using un s02 first by (simp add: min_def)
  next
    case False
    then have t: "?t = ?b" by simp
    note p2 = fs_step_private [OF mt cl s02] and m2 = fs_step_mounted [OF mt cl s02]
      and f2 = fs_step_file [OF mt cl s02]
    have n: "?b + (tot - ?b) \<le> tot" using False by simp
    have iK: "Suc i < K"
    proof (rule ccontr)
      assume "\<not> Suc i < K"
      then have "K = Suc i" using less.prems(4) by simp
      then show False using less.prems(5) False by simp
    qed
    obtain s3 where s3: "fat16_read_internal_from_stream dev ?cs c (int (?b * Suc i)) (int (tot - ?b)) (out + of_nat ?b) s2 = Some (0, s3)"
        "fs_step (out + of_nat ?b) (tot - ?b) s2 s3"
        "\<forall>x<tot - ?b. km s3 (out + of_nat ?b + of_nat x) = file_byte img s c (?b * Suc i + x)"
    proof -
      have "clear_of_fs (out + of_nat ?b) (tot - ?b) s2"
        by (rule fs_step_extend(3) [OF mt cl n less.prems(6) s02 fs_step_refl])
      moreover have "tot - ?b \<le> 4294967295" using less.prems(6) by simp
      ultimately show thesis
        using less.IH [of "tot - ?b" s2 "out + of_nat ?b" "Suc i"] b(2) False m2(1) ok less.prems(5,6) iK that
        by (auto simp: f2 p2)
    qed
    note ext = fs_step_extend [OF mt cl n less.prems(6) s02 s3(2)]
    have "km s3 (out + of_nat x) = file_byte img s c (?b * i + x)" if "x < tot" for x
    proof (cases "x < ?b")
      case True
      then show ?thesis using ext(2) first t by simp
    next
      case False
      then obtain y where y: "x = ?b + y" by (metis le_add_diff_inverse not_less)
      then show ?thesis using s3(3) [rule_format, of y] that by (simp add: algebra_simps)
    qed
    moreover have "fat16_read_internal_from_stream dev ?cs c (int (?b * i)) (int tot) out s = Some (0, s3)"
      using un s3(1) False by (simp add: t algebra_simps of_nat_diff)
    ultimately show ?thesis using ext(1) by blast
  qed
qed

text \<open>The position of an open file and the first cluster of its directory entry.\<close>

definition file_pos :: "'a kstate_scheme \<Rightarrow> ptr \<Rightarrow> u32" where
  "file_pos s p = ff_pos (fat_file_descriptor_at (km s) p)"

definition file_entry :: "'a kstate_scheme \<Rightarrow> ptr \<Rightarrow> ptr" where
  "file_entry s p = fi_union (fat_item_at (km s) (ff_item (fat_file_descriptor_at (km s) p)))"

definition file_start :: "'a kstate_scheme \<Rightarrow> ptr \<Rightarrow> int" where
  "file_start s p = c_int (fat16_get_first_cluster (file_entry s p) s)"

lemma fat16_read_at:
  assumes "ata_drive dev img" and "mounted s" and "clear_of_fs out (unat sz) s"
    and "unat sz < 2147483648" and "unat (file_pos s p) = cluster_bytes s * i" and "unat (file_pos s p) < 2147483648"
    and "chain_ok img s (file_start s p) K" and "i < K" and "cluster_bytes s * i + unat sz \<le> cluster_bytes s * K"
  shows "\<exists>s'. fat16_read dev p sz 1 out s = Some (1, s') \<and> fs_step out (unat sz) s s'
    \<and> (\<forall>x<unat sz. km s' (out + of_nat x) = file_byte img s (file_start s p) (unat (file_pos s p) + x))"
proof -
  have o: "c_int (file_pos s p) = int (cluster_bytes s * i)" using c_int_small [OF assms(6)] assms(5) by simp
  have z: "c_int sz = int (unat sz)" by (rule c_int_small [OF assms(4)])
  obtain s' where s': "fat16_read_internal_from_stream dev (cluster_read_stream (disk_private s)) (file_start s p)
      (int (cluster_bytes s * i)) (int (unat sz)) out s = Some (0, s')" "fs_step out (unat sz) s s'"
      "\<forall>x<unat sz. km s' (out + of_nat x) = file_byte img s (file_start s p) (cluster_bytes s * i + x)"
    using read_chain [OF assms(1-3,7-9)] assms(4) by auto
  have "fat16_read dev p sz 1 out s = Some (1, s')"
    using s'(1) unfolding fat16_read_def Let_def o [unfolded file_pos_def] file_start_def file_entry_def
    by (simp add: fat16_read_internal_def z del: of_nat_mult of_nat_unat)
  then show ?thesis using s'(2,3) assms(5) by auto
qed

text \<open>C12. Reading a file from a cluster boundary: \<^verbatim>\<open>fat16_read\<close> of one item of \<open>size\<close> bytes at a position
  that is a multiple of the cluster size puts into the buffer the bytes of the file's cluster chain,
  returns 1 and changes nothing but the buffer and the positions of the two streams.\<close>

theorem fat16_read_cluster_aligned:
  assumes "ata_drive dev img" and "mounted s" and "clear_of_fs out (unat sz) s"
    and "unat sz < 2147483648" and "unat (file_pos s p) = cluster_bytes s * i" and "unat (file_pos s p) < 2147483648"
    and "chain_ok img s (file_start s p) K" and "i < K" and "cluster_bytes s * i + unat sz \<le> cluster_bytes s * K"
  shows "\<exists>s'. fat16_read dev p sz 1 out s = Some (1, s') \<and> fs_step out (unat sz) s s'
    \<and> (\<forall>x<unat sz. km s' (out + of_nat x) = file_byte img s (file_start s p) (unat (file_pos s p) + x))"
  by (rule fat16_read_at [OF assms])

definition example_image :: "nat \<Rightarrow> u8" where
  "example_image i = (if i = 516 then 3 else if i = 517 then 0 else 65)"

lemma example_mounted_ok: "mounted example_mounted"
  by (simp add: mounted_def Let_def disk_private_def fat_private_at_def disk_header_def fat_header_at_def
      stream_on_def ds_disk_def example_mem_words disj_range_def)

lemma example_chain: "chain_ok example_image example_mounted 2 2" "cluster_bytes example_mounted = 512"
    "clear_of_fs 0x4000 700 example_mounted" "file_start example_mounted 0x300 = 2"
    "file_pos example_mounted 0x300 = 0"
proof -
  show b: "cluster_bytes example_mounted = 512"
    by (simp add: cluster_bytes_def disk_header_def fat_header_at_def example_mem_words)
  have e: "fat_entry example_image example_mounted 2 = 3"
    by (simp add: fat_entry_def image_word_def example_image_def disk_header_def fat_header_at_def example_mem_words)
  have st: "cluster_start example_mounted c = 512 * (6 + c)" for c
    by (simp add: cluster_start_def root_end_def disk_private_def fat_private_at_def fat_directory_at_def
        disk_header_def fat_header_at_def example_mem_words)
  show "chain_ok example_image example_mounted 2 2"
    by (auto simp: chain_ok_def less_2_cases_iff e st b stop_entry_def)
  show "clear_of_fs 0x4000 700 example_mounted"
    by (simp add: clear_of_fs_def disj_range_def disk_private_def fat_private_at_def example_mem_words)
  show "file_start example_mounted 0x300 = 2" "file_pos example_mounted 0x300 = 0"
    by (simp_all add: file_start_def file_pos_def file_entry_def fat_file_descriptor_at_def fat_item_at_def
        fat16_get_first_cluster_def fat_directory_item_at_def example_mem_words)
qed

theorem fat16_read_cluster_aligned_witness:
  "\<exists>s'. fat16_read (drive_of example_image) 0x300 700 1 0x4000 example_mounted = Some (1, s')
     \<and> km s' (0x4000 + of_nat 699) = 65"
proof -
  have "file_byte example_image example_mounted 2 699 = 65" by (simp add: file_byte_def example_image_def example_chain(2)
        cluster_start_def root_end_def disk_private_def fat_private_at_def fat_directory_at_def
        disk_header_def fat_header_at_def example_mem_words fat_entry_def image_word_def)
  moreover obtain s' where s': "fat16_read (drive_of example_image) 0x300 700 1 0x4000 example_mounted = Some (1, s')"
      "\<forall>x<700. km s' (0x4000 + of_nat x) = file_byte example_image example_mounted 2 x"
    using fat16_read_cluster_aligned [OF ata_drive_drive_of example_mounted_ok, of "0x4000" 700 "0x300" 0 example_image 2]
      example_chain by auto
  ultimately have "km s' (0x4000 + of_nat 699) = 65" using s'(2) [rule_format, of 699] by simp
  then show ?thesis using s'(1) by blast
qed

text \<open>The end of a chain is not recognised: the 16-bit mark \<^verbatim>\<open>0xFFF8\<close> that ends a FAT16 chain is none of the
  12-bit values the driver compares with, so a read past the last cluster goes on at cluster
  \<^verbatim>\<open>0xFFF8\<close> and reports no error.\<close>

lemma fat16_end_of_chain_followed:
  assumes "ata_drive dev img" and "mounted s" and "0 \<le> c" and "c < 65536"
    and "fat_entry img s c = 0xFFF8" and "unat off div cluster_bytes s = 1" and "unat off < 2147483648"
  shows "\<exists>s'. fat16_get_cluster_for_offset dev c (c_int off) s = Some (0xFFF8, s')"
proof -
  note b = size_of_cluster_bytes_eq [OF assms(2)]
  have "0 < unat off" using assms(6) by (cases "unat off = 0") auto
  then have "c_int off sdiv int (cluster_bytes s) = 1"
    using assms(6) b(2) c_int_small [OF assms(7)]
    by (simp add: signed_divide_int_def sgn_if zdiv_int [symmetric] del: of_nat_unat)
  then show ?thesis
    using fat16_get_fat_entry_image [OF assms(1-4)] assms(5) b
    by (auto simp: fat16_get_cluster_for_offset_def numeral_eq_Suc)
qed

end
