(* ===== verification/Fat16Files.thy ===== *)
theory Fat16Files
  imports Fat16Props
begin

text \<open>
  The names of directory entries as the FAT16 driver spells them, and the operations on the position
  and the attributes of open files.
\<close>

section \<open>File names\<close>

text \<open>The bytes from \<open>p\<close> up to the first blank or zero byte.\<close>

definition run_at :: "mem \<Rightarrow> ptr \<Rightarrow> u8 list \<Rightarrow> bool" where
  "run_at m p xs \<longleftrightarrow> (\<forall>i<length xs. m (p + of_nat i) = xs ! i \<and> xs ! i \<noteq> 0 \<and> xs ! i \<noteq> 0x20)
     \<and> (m (p + of_nat (length xs)) = 0 \<or> m (p + of_nat (length xs)) = 0x20)"

lemma run_at_cong:
  assumes "\<And>i. i \<le> length xs \<Longrightarrow> m' (p + of_nat i) = m (p + of_nat i)"
  shows "run_at m' p xs = run_at m p xs"
  using assms by (simp add: run_at_def)

lemma copied_append:
  assumes "length xs + length ys < 4294967296"
  shows "copied (copied m d xs (length xs)) (d + of_nat (length xs)) ys (length ys)
    = copied m d (xs @ ys) (length (xs @ ys))"
proof
  fix a
  let ?k = "length xs"
  have u: "unat (of_nat ?k :: u32) = ?k" using assms by (intro unat_of_nat_u32) simp
  have d: "unat (a - (d + of_nat ?k)) = (if ?k \<le> unat (a - d) then unat (a - d) - ?k
      else 4294967296 + unat (a - d) - ?k)"
    using unat_diff_u32 [of "a - d" "of_nat ?k"] unfolding u by (simp add: diff_diff_eq)
  show "copied (copied m d xs (length xs)) (d + of_nat (length xs)) ys (length ys) a
      = copied m d (xs @ ys) (length (xs @ ys)) a"
  proof (cases "?k \<le> unat (a - d)")
    case True
    then show ?thesis using d by (auto simp: copied_def nth_append)
  next
    case False
    then have "\<not> unat (a - (d + of_nat ?k)) < length ys" using d assms by simp
    then show ?thesis using False by (simp add: copied_def nth_append)
  qed
qed

lemma to_proper_string_copied:
  assumes r: "run_at m inp xs" and dj: "disj_range out (length xs) inp (Suc (length xs))"
    and n: "length xs < 4294967295" and i: "i \<le> length xs"
  defines "m' \<equiv> copied m out xs (length xs)"
  shows "fat16_to_proper_string (out + of_nat i) (inp + of_nat i) (copied m out xs i) =
    Some (out + of_nat (length xs),
      if m (inp + of_nat (length xs)) = 0x20 then m'(out + of_nat (length xs) := 0) else m')"
  using i
proof (induction "length xs - i" arbitrary: i)
  have src: "copied m out xs i (inp + of_nat j) = m (inp + of_nat j)" if "i \<le> length xs" "j \<le> length xs" for i j
  proof -
    have "in_range inp (Suc (length xs)) (inp + of_nat j)" using that n by (intro in_range_of_nat) simp_all
    then have "\<not> in_range out (length xs) (inp + of_nat j)" using disj_rangeD2 [OF dj] by blast
    then show ?thesis using that by (auto simp: copied_def in_range_def)
  qed
  {
    case 0
    then have "i = length xs" by simp
    then show ?case using src [of i i] r unfolding m'_def
      by (subst fat16_to_proper_string.simps) (auto simp: run_at_def)
  next
    case (Suc x)
    then have i: "i < length xs" by simp
    have "fat16_to_proper_string (out + of_nat (Suc i)) (inp + of_nat (Suc i)) (copied m out xs (Suc i)) =
      Some (out + of_nat (length xs),
        if m (inp + of_nat (length xs)) = 0x20 then m'(out + of_nat (length xs) := 0) else m')"
      by (rule Suc(1)) (use Suc(2) i in auto)
    moreover have "copied m out xs i (inp + of_nat i) = xs ! i" "xs ! i \<noteq> 0" "xs ! i \<noteq> 0x20"
      using src [of i i] i r by (simp_all add: run_at_def)
    ultimately show ?case using i n copied_Suc [of i m out xs]
      by (subst fat16_to_proper_string.simps) (simp add: algebra_simps)
  }
qed

lemma to_proper_string_run:
  assumes "run_at m inp xs" and "disj_range out (length xs) inp (Suc (length xs))" and "length xs < 4294967295"
    and "m (out + of_nat (length xs)) = 0"
  shows "fat16_to_proper_string out inp m = Some (out + of_nat (length xs), copied m out xs (length xs))"
proof -
  have c0: "copied m out xs 0 = m" by (simp add: copied_def)
  have "unat (of_nat (length xs) :: u32) = length xs" using assms(3) by (intro unat_of_nat_u32) simp
  then have z: "copied m out xs (length xs) (out + of_nat (length xs)) = 0" using assms(4) by (simp add: copied_def)
  then have "(copied m out xs (length xs))(out + of_nat (length xs) := 0) = copied m out xs (length xs)"
    by (rule fun_upd_idem)
  then show ?thesis using to_proper_string_copied [OF assms(1-3), of 0] by (simp add: c0)
qed

lemma run_at_first: "run_at m p xs \<Longrightarrow> m p \<noteq> 0 \<and> m p \<noteq> 0x20 \<longleftrightarrow> xs \<noteq> []"
  by (cases xs) (auto simp: run_at_def)

lemma copied_snoc:
  assumes "length xs < 4294967296"
  shows "(copied m d xs (length xs))(d + of_nat (length xs) := c) = copied m d (xs @ [c]) (length (xs @ [c]))"
proof -
  have "copied m d xs (length xs) = copied m d (xs @ [c]) (length xs)"
    by (auto simp: copied_def nth_append fun_eq_iff)
  then show ?thesis using copied_Suc [OF assms, of m d "xs @ [c]"] by simp
qed

lemma copied_other: "\<not> in_range d n a \<Longrightarrow> k \<le> n \<Longrightarrow> copied m d xs k a = m a"
  by (auto simp: copied_def in_range_def)

text \<open>Copying into a zeroed area of \<open>n\<close> bytes leaves a terminated string.\<close>

lemma cstr_copied:
  assumes "\<forall>i<length xs. xs ! i \<noteq> 0" and "length xs < n" and "n \<le> 4294967295"
    and "\<And>a. in_range d n a \<Longrightarrow> m a = 0"
  shows "cstr (copied m d xs (length xs)) d xs"
proof (rule cstrI)
  have u: "unat (of_nat i :: u32) = i" if "i \<le> length xs" for i
    using that assms(2,3) by (intro unat_of_nat_u32) simp
  show "copied m d xs (length xs) (d + of_nat i) = xs ! i \<and> xs ! i \<noteq> 0" if "i < length xs" for i
    using that u [of i] assms(1) by (simp add: copied_def)
  have "m (d + of_nat (length xs)) = 0" using assms(2,3) by (intro assms(4) in_range_of_nat) simp_all
  then show "copied m d xs (length xs) (d + of_nat (length xs)) = 0"
    using u [of "length xs"] by (simp add: copied_def)
qed

text \<open>The name the driver compares with: \<open>xs\<close> is the run of bytes from the name field on, \<open>ys\<close> that from
  the extension field on.\<close>

definition spelled :: "u8 list \<Rightarrow> u8 list \<Rightarrow> u8 list" where
  "spelled xs ys = xs @ (if ys = [] then [] else 46 # ys)"

lemma full_relative_filename_copied:
  assumes dj: "disj_range out 108 item 32" and xs: "run_at m item xs" "length xs \<le> 23"
    and ys: "run_at m (item + 8) ys" "length ys \<le> 23"
  defines "m1 \<equiv> snd (memset m out 0 108)"
  shows "fat16_get_full_relative_filename item out 108 m =
    Some (copied m1 out (spelled xs ys) (length (spelled xs ys)))"
proof -
  have m1: "m1 a = (if in_range out 108 a then 0 else m a)" for a
    by (simp add: m1_def memset_apply)
  have far: "\<not> in_range out 108 (item + of_nat j)" if "j \<le> 31" for j
    using disj_rangeD2 [OF dj] in_range_of_nat [of j 32 item] that by simp
  have far8: "\<not> in_range out 108 (item + 8 + of_nat j)" if "j \<le> 23" for j
    using far [of "8 + j"] that by (simp add: add.assoc)
  have x1: "run_at m1 item xs"
    using xs(1) by (subst run_at_cong [of _ _ _ m]) (use far xs(2) in \<open>simp_all add: m1\<close>)
  have sub: "disj_range (out + of_nat k) n p l"
    if "k + n \<le> 108" "\<And>i. i < l \<Longrightarrow> \<not> in_range out 108 (p + of_nat i)" for k n p l
  proof (rule disj_rangeI)
    fix a assume a: "in_range (out + of_nat k) n a" "in_range p l a"
    then have "in_range out 108 a" using in_range_suffix(1) [of k n 108 out a] that(1) by simp
    moreover obtain i where "i < l" "a = p + of_nat i" using a(2) by (rule in_range_exE)
    ultimately show False using that(2) by blast
  qed
  let ?m2 = "copied m1 out xs (length xs)"
  have s1: "fat16_to_proper_string out item m1 = Some (out + of_nat (length xs), ?m2)"
  proof (rule to_proper_string_run [OF x1])
    show "disj_range out (length xs) item (Suc (length xs))"
      using sub [of 0 "length xs" "Suc (length xs)" item] xs(2) far by simp
    show "m1 (out + of_nat (length xs)) = 0" using xs(2) in_range_of_nat [of "length xs" 108 out] by (simp add: m1)
  qed (use xs(2) in simp)
  have y2: "run_at m' (item + 8) ys" if "\<And>a. \<not> in_range out 108 a \<Longrightarrow> m' a = m a" for m'
    using ys(1) by (subst run_at_cong [of _ _ _ m]) (use far8 ys(2) that in simp_all)
  have e8: "?m2 (item + 8) = m (item + 8)"
    using far [of 8] copied_other [of out 108 "item + 8" "length xs"] xs(2) by (simp add: m1)
  show ?thesis
  proof (cases "ys = []")
    case True
    then have "\<not> (m (item + 8) \<noteq> 0 \<and> m (item + 8) \<noteq> 0x20)" using run_at_first [OF ys(1)] by simp
    then show ?thesis using True s1 e8
      by (auto simp: fat16_get_full_relative_filename_def m1_def [symmetric] spelled_def)
  next
    case False
    let ?xd = "xs @ [46]" and ?o = "out + of_nat (length (xs @ [46]))"
    let ?m3 = "copied m1 out ?xd (length ?xd)"
    have m3: "?m2(out + of_nat (length xs) := 46) = ?m3" by (rule copied_snoc) (use xs(2) in simp)
    have "fat16_to_proper_string ?o (item + 8) ?m3 = Some (?o + of_nat (length ys), copied ?m3 ?o ys (length ys))"
    proof (rule to_proper_string_run [OF y2])
      show "?m3 a = m a" if "\<not> in_range out 108 a" for a
        using copied_other [OF that, of "length ?xd"] xs(2) that by (simp add: m1)
      show "disj_range ?o (length ys) (item + 8) (Suc (length ys))"
        using sub [of "length ?xd" "length ys" "Suc (length ys)" "item + 8"] xs(2) ys(2) far8
        by (simp del: of_nat_Suc add: less_Suc_eq_le)
      have "unat (of_nat (length ?xd + length ys) :: u32) = length ?xd + length ys"
        using xs(2) ys(2) by (intro unat_of_nat_u32) simp
      moreover have "in_range out 108 (out + of_nat (length ?xd + length ys))"
        using xs(2) ys(2) by (intro in_range_of_nat) simp_all
      moreover have "?o + of_nat (length ys) = out + of_nat (length ?xd + length ys)" by simp
      ultimately show "?m3 (?o + of_nat (length ys)) = 0"
        by (simp only: copied_def m1) (simp add: m1)
    qed (use ys(2) in simp)
    moreover have "m (item + 8) \<noteq> 0 \<and> m (item + 8) \<noteq> 0x20" using run_at_first [OF ys(1)] False by simp
    moreover have "copied ?m3 ?o ys (length ys) = copied m1 out (?xd @ ys) (length (?xd @ ys))"
      by (rule copied_append) (use xs(2) ys(2) in simp)
    ultimately show ?thesis
      using s1 e8 m3 False
      by (simp add: fat16_get_full_relative_filename_def m1_def [symmetric] spelled_def ac_simps)
  qed
qed

text \<open>A name of eight bytes is not followed by a blank: the run from the name field goes on through
  the extension.\<close>

lemma long_name_run:
  assumes "run_at m item xs" and "run_at m (item + 8) ys" and "8 \<le> length xs"
  shows "xs = take 8 xs @ ys"
proof -
  let ?zs = "drop 8 xs"
  have sh: "item + 8 + of_nat i = item + of_nat (8 + i)" for i by (simp add: add.assoc)
  have z: "run_at m (item + 8) ?zs"
    unfolding run_at_def sh
  proof (intro conjI allI impI)
    fix i assume "i < length ?zs"
    then show "m (item + of_nat (8 + i)) = ?zs ! i" "?zs ! i \<noteq> 0" "?zs ! i \<noteq> 0x20"
      using assms(1) [unfolded run_at_def, THEN conjunct1, rule_format, of "8 + i"]
      by (simp_all del: of_nat_add)
  next
    show "m (item + of_nat (8 + length ?zs)) = 0 \<or> m (item + of_nat (8 + length ?zs)) = 0x20"
      using assms(1,3) by (simp add: run_at_def del: of_nat_add)
  qed
  have "length ?zs = length ys"
  proof (rule linorder_cases [of "length ?zs" "length ys"])
    assume "length ?zs < length ys"
    then show ?thesis using z assms(2) unfolding run_at_def by auto
  next
    assume "length ys < length ?zs"
    then show ?thesis using z assms(2) unfolding run_at_def by metis
  qed simp
  then have "?zs = ys"
    using z assms(2) unfolding run_at_def by (intro nth_equalityI) auto
  then show ?thesis by (metis append_take_drop_id)
qed

text \<open>C38. The name of a directory entry as the driver spells it: the name, a dot and the extension
  when the name has a blank after at most seven bytes; with a name of eight bytes the extension
  comes twice, before and after the dot. The letters keep the case they have on the disk (a comment in the code shows
  \<^verbatim>\<open>hello.txt\<close> for \<^verbatim>\<open>HELLO\<close>; only the comparison with a path ignores the case). Only the 108 bytes of the destination are
  written.\<close>

theorem fat16_filename_spelled:
  assumes "disj_range out 108 item 32" and "run_at m item xs" and "length xs \<le> 23"
    and "run_at m (item + 8) ys" and "length ys \<le> 23"
  shows "\<exists>m'. fat16_get_full_relative_filename item out 108 m = Some m'
    \<and> (length xs < 8 \<and> ys \<noteq> [] \<longrightarrow> cstr m' out (xs @ [46] @ ys))
    \<and> (8 \<le> length xs \<and> ys \<noteq> [] \<longrightarrow> cstr m' out (take 8 xs @ ys @ [46] @ ys))
    \<and> (ys = [] \<longrightarrow> cstr m' out xs)
    \<and> (\<forall>a. \<not> in_range out 108 a \<longrightarrow> m' a = m a)"
proof -
  let ?m1 = "snd (memset m out 0 108)" and ?n = "spelled xs ys"
  let ?m = "copied ?m1 out ?n (length ?n)"
  have len: "length ?n < 108" using assms(3,5) by (simp add: spelled_def)
  have nz: "\<forall>i<length ?n. ?n ! i \<noteq> 0"
    using assms(2,4) by (auto simp: spelled_def run_at_def nth_append nth_Cons split: nat.split)
  have "cstr ?m out ?n"
    by (rule cstr_copied [OF nz len]) (simp_all add: memset_apply)
  moreover have "?m a = m a" if "\<not> in_range out 108 a" for a
    using copied_other [OF that, of "length ?n"] len that by (simp add: memset_apply)
  moreover have "8 \<le> length xs \<Longrightarrow> xs = take 8 xs @ ys" using long_name_run [OF assms(2,4)] by blast
  ultimately show ?thesis
    using full_relative_filename_copied [OF assms(1-5)]
    by (intro exI [of _ ?m]) (auto simp: spelled_def simp flip: append_assoc)
qed

text \<open>An entry \<^verbatim>\<open>ABCDEFGHTXT\<close> with the archive attribute at address 0.\<close>

definition example_entry :: mem where
  "example_entry = (\<lambda>a. if unat a < 11 then [65, 66, 67, 68, 69, 70, 71, 72, 84, 88, 84] ! unat a else 0x20)"

theorem fat16_filename_spelled_witness:
  "\<exists>m'. fat16_get_full_relative_filename 0 0x1000 108 example_entry = Some m'
    \<and> cstr m' 0x1000 ([65, 66, 67, 68, 69, 70, 71, 72] @ [84, 88, 84] @ [46] @ [84, 88, 84])"
proof -
  let ?xs = "[65, 66, 67, 68, 69, 70, 71, 72, 84, 88, 84] :: u8 list" and ?ys = "[84, 88, 84] :: u8 list"
  have "\<forall>i\<in>set [0..<11]. example_entry (of_nat i) = ?xs ! i \<and> ?xs ! i \<noteq> 0 \<and> ?xs ! i \<noteq> 0x20"
    by (simp add: example_entry_def upt_rec del: set_upt)
  then have x: "run_at example_entry 0 ?xs"
    unfolding run_at_def by (simp add: example_entry_def)
  have "\<forall>i\<in>set [0..<3]. example_entry (8 + of_nat i) = ?ys ! i \<and> ?ys ! i \<noteq> 0 \<and> ?ys ! i \<noteq> 0x20"
    by (simp add: example_entry_def upt_rec del: set_upt)
  then have y: "run_at example_entry (0 + 8) ?ys"
    unfolding run_at_def by (simp add: example_entry_def)
  from fat16_filename_spelled [OF _ x _ y, of "0x1000"] show ?thesis by (auto simp: disj_range_def)
qed

section \<open>Positions and attributes\<close>

definition file_type :: "'a kstate_scheme \<Rightarrow> ptr \<Rightarrow> u32" where
  "file_type s p = fi_type (fat_item_at (km s) (ff_item (fat_file_descriptor_at (km s) p)))"

definition file_size :: "'a kstate_scheme \<Rightarrow> ptr \<Rightarrow> u32" where
  "file_size s p = di_filesize (fat_directory_item_at (km s) (file_entry s p))"

lemma file_pos_store [simp]: "file_pos (s\<lparr>km := store32 (km s) (p + 4) v\<rparr>) p = v"
  by (simp add: file_pos_def fat_file_descriptor_at_def load32_store32)

text \<open>The branches of \<^verbatim>\<open>fat16_seek\<close>, with the state each leaves.\<close>

lemma fat16_seek_cases:
  "file_type s p \<noteq> FAT_ITEM_TYPE_FILE \<Longrightarrow> fat16_seek p off mode s = (- EINVARG, s)"
  "file_type s p = FAT_ITEM_TYPE_FILE \<Longrightarrow> file_size s p \<le> off \<Longrightarrow> fat16_seek p off mode s = (- EIO, s)"
  "file_type s p = FAT_ITEM_TYPE_FILE \<Longrightarrow> off < file_size s p \<Longrightarrow>
    fat16_seek p off 0 s = (0, s\<lparr>km := store32 (km s) (p + 4) off\<rparr>)"
  "file_type s p = FAT_ITEM_TYPE_FILE \<Longrightarrow> off < file_size s p \<Longrightarrow>
    fat16_seek p off 1 s = (0, s\<lparr>km := store32 (km s) (p + 4) (file_pos s p + off)\<rparr>)"
  "file_type s p = FAT_ITEM_TYPE_FILE \<Longrightarrow> off < file_size s p \<Longrightarrow>
    fat16_seek p off 2 s = (c_int (file_size s p - off), s)"
  "file_type s p = FAT_ITEM_TYPE_FILE \<Longrightarrow> off < file_size s p \<Longrightarrow> 2 < mode \<Longrightarrow>
    fat16_seek p off mode s = (- EINVARG, s)"
proof -
  have "mode \<noteq> 0 \<and> mode \<noteq> 1 \<and> mode \<noteq> 2" if "2 < mode" for mode :: u32 using that by auto
  then show "file_type s p = FAT_ITEM_TYPE_FILE \<Longrightarrow> off < file_size s p \<Longrightarrow> 2 < mode \<Longrightarrow>
      fat16_seek p off mode s = (- EINVARG, s)"
    by (auto simp: fat16_seek_def Let_def file_entry_def file_type_def file_size_def)
qed (auto simp: fat16_seek_def Let_def file_entry_def file_pos_def file_type_def file_size_def)

text \<open>The file that a descriptor names does not depend on the position in it.\<close>

lemma file_start_seek:
  assumes "disj_range (p + 4) 4 (ff_item (fat_file_descriptor_at (km s) p)) 8"
    and "disj_range (p + 4) 4 (file_entry s p) 32"
  shows "file_start (s\<lparr>km := store32 (km s) (p + 4) v\<rparr>) p = file_start s p"
proof -
  let ?m = "store32 (km s) (p + 4) v" and ?it = "load32 (km s) p" and ?e = "file_entry s p"
  have i: "load32 ?m p = ?it" by (intro load32_store32_disj) (simp add: disj_range_def)
  have u: "load32 ?m ?it = load32 (km s) ?it"
    using disj_range_mono [OF assms(1), of 4 4] by (simp add: load32_store32_disj fat_file_descriptor_at_def)
  have "load16 ?m (?e + of_nat k) = load16 (km s) (?e + of_nat k)" if "k + 2 \<le> 32" for k
  proof (rule load16_cong)
    fix a assume "in_range (?e + of_nat k) 2 a"
    then have "in_range ?e 32 a" using in_range_suffix(1) [OF that] by simp
    then show "?m a = km s a" using disj_rangeD2 [OF assms(2)] by (simp add: store32_other)
  qed
  from this [of 20] this [of 26] have "load16 ?m (?e + 20) = load16 (km s) (?e + 20)" "load16 ?m (?e + 26) = load16 (km s) (?e + 26)"
    by simp_all
  moreover have "file_entry (s\<lparr>km := ?m\<rparr>) p = ?e"
    using i u by (simp add: file_entry_def fat_file_descriptor_at_def fat_item_at_def)
  ultimately show ?thesis
    by (simp add: file_start_def fat16_get_first_cluster_def fat_directory_item_at_def Let_def)
qed

text \<open>Where a seek from the start, or from the position, goes.\<close>

definition seek_target :: "'a kstate_scheme \<Rightarrow> ptr \<Rightarrow> u32 \<Rightarrow> u32 \<Rightarrow> u32" where
  "seek_target s p off mode = (if mode = 0 then off else file_pos s p + off)"

text \<open>C37. Seeking, then reading. \<^verbatim>\<open>SEEK_SET\<close> (0) and \<^verbatim>\<open>SEEK_CUR\<close> (1) answer 0, put the offset, or the sum of
  the old position and the offset, into the descriptor and change no other byte; a read from there
  delivers the bytes of the file from the new position on, when that is a multiple of the cluster
  size, and leaves the position where the seek put it. Directories and offsets at or behind the end
  of the file are refused, \<^verbatim>\<open>SEEK_END\<close> (2) answers with the distance to the end and every other mode is
  refused, all without a change.\<close>

theorem fat16_seek_read:
  "if file_type s p \<noteq> FAT_ITEM_TYPE_FILE then fat16_seek p off mode s = (- EINVARG, s)
    else if file_size s p \<le> off then fat16_seek p off mode s = (- EIO, s)
    else if mode = 2 then fat16_seek p off mode s = (c_int (file_size s p - off), s)
    else if 2 < mode then fat16_seek p off mode s = (- EINVARG, s)
    else \<exists>s1. fat16_seek p off mode s = (0, s1) \<and> s1 = s\<lparr>km := km s1\<rparr> \<and> file_pos s1 p = seek_target s p off mode
      \<and> (\<forall>a. \<not> in_range (p + 4) 4 a \<longrightarrow> km s1 a = km s a)
      \<and> (ata_drive dev img \<and> mounted s \<and> clear_of_fs (p + 4) 4 s \<and> clear_of_fs out (unat sz) s
          \<and> disj_range (p + 4) 4 (ff_item (fat_file_descriptor_at (km s) p)) 8
          \<and> disj_range (p + 4) 4 (file_entry s p) 32 \<and> disj_range out (unat sz) (p + 4) 4
          \<and> unat sz < 2147483648 \<and> unat (seek_target s p off mode) = cluster_bytes s * i \<and> unat (seek_target s p off mode) < 2147483648
          \<and> chain_ok img s (file_start s p) K \<and> i < K \<and> cluster_bytes s * i + unat sz \<le> cluster_bytes s * K \<longrightarrow>
         (\<exists>s'. fat16_read dev p sz 1 out s1 = Some (1, s') \<and> fs_step out (unat sz) s1 s' \<and> file_pos s' p = seek_target s p off mode
           \<and> (\<forall>x<unat sz. km s' (out + of_nat x) = file_byte img s (file_start s p) (unat (seek_target s p off mode) + x))))"
proof -
  let ?t = "seek_target s p off mode"
  let ?s1 = "s\<lparr>km := store32 (km s) (p + 4) ?t\<rparr>"
  note cases = fat16_seek_cases [of s p]
  have seek: "fat16_seek p off mode s = (0, ?s1)"
    if "file_type s p = FAT_ITEM_TYPE_FILE" "off < file_size s p" "mode \<noteq> 2" "\<not> 2 < mode"
  proof -
    have "unat mode = unat (0 :: u32) \<or> unat mode = unat (1 :: u32)"
      using that(3,4) by (auto simp: word_less_nat_alt word_unat_eq_iff)
    then have "mode = 0 \<or> mode = 1" by (simp only: word_unat_eq_iff)
    then show ?thesis using that(1,2) cases by (auto simp: seek_target_def)
  qed
  have frame: "km ?s1 a = km s a" if "\<not> in_range (p + 4) 4 a" for a using that by (simp add: store32_other)
  have read: "\<exists>s'. fat16_read dev p sz 1 out ?s1 = Some (1, s') \<and> fs_step out (unat sz) ?s1 s' \<and> file_pos s' p = ?t
      \<and> (\<forall>x<unat sz. km s' (out + of_nat x) = file_byte img s (file_start s p) (unat ?t + x))"
    if drive: "ata_drive dev img" and mt: "mounted s" and cl: "clear_of_fs (p + 4) 4 s" "clear_of_fs out (unat sz) s"
      and far: "disj_range (p + 4) 4 (ff_item (fat_file_descriptor_at (km s) p)) 8"
        "disj_range (p + 4) 4 (file_entry s p) 32" and out: "disj_range out (unat sz) (p + 4) 4"
      and sz: "unat sz < 2147483648" and tgt: "unat ?t = cluster_bytes s * i" "unat ?t < 2147483648"
      and chain: "chain_ok img s (file_start s p) K" "i < K" "cluster_bytes s * i + unat sz \<le> cluster_bytes s * K"
  proof -
    have st: "fs_step (p + 4) 4 s ?s1" using frame by (simp add: fs_step_def)
    note p1 = fs_step_private [OF mt cl(1) st] and m1 = fs_step_mounted [OF mt cl(1) st]
      and f1 = fs_step_file [OF mt cl(1) st] and start = file_start_seek [OF far]
    obtain s' where s': "fat16_read dev p sz 1 out ?s1 = Some (1, s')" "fs_step out (unat sz) ?s1 s'"
        "\<forall>x<unat sz. km s' (out + of_nat x) = file_byte img ?s1 (file_start ?s1 p) (unat (file_pos ?s1 p) + x)"
      using fat16_read_at [OF drive m1(1), of out sz p i K] cl(2) sz tgt chain by (auto simp: m1 f1 start)
    have "km s' a = km ?s1 a" if a: "in_range (p + 4) 4 a" for a
    proof -
      have "\<not> in_range out (unat sz) a" using disj_rangeD2 [OF out a] .
      moreover have "\<not> in_range (cluster_read_stream (disk_private s)) 4 a" "\<not> in_range (fat_read_stream (disk_private s)) 4 a"
        using cl(1) disj_rangeD [OF _ a] in_range_mono [of _ 4 a 8] unfolding clear_of_fs_def by fastforce+
      ultimately show ?thesis using s'(2) unfolding fs_step_def p1 by blast
    qed
    then have "file_pos s' p = file_pos ?s1 p"
      by (auto simp: file_pos_def fat_file_descriptor_at_def simp del: file_pos_store intro: load32_cong)
    then show ?thesis using s' by (intro exI [of _ s']) (simp add: f1 start)
  qed
  have moved: "file_pos ?s1 p = ?t" "?s1 = s\<lparr>km := km ?s1\<rparr>" by simp_all
  show ?thesis
    using cases(1,2,5,6) seek moved frame read by (auto simp: not_le not_less)
qed

lemma example_file: "file_type example_mounted 0x300 = 1" "file_size example_mounted 0x300 = 700"
  by (simp_all add: file_type_def file_size_def file_entry_def fat_file_descriptor_at_def fat_item_at_def
      fat_directory_item_at_def example_mem_words)

theorem fat16_seek_read_witness:
  "fat16_seek 0x300 700 0 example_mounted = (- EIO, example_mounted)
   \<and> fat16_seek 0x300 100 2 example_mounted = (600, example_mounted)
   \<and> (\<exists>s1 s'. fat16_seek 0x300 512 1 example_mounted = (0, s1)
      \<and> fat16_read (drive_of example_image) 0x300 188 1 0x4000 s1 = Some (1, s')
      \<and> km s' (0x4000 + of_nat 187) = 65 \<and> file_pos s' 0x300 = 512)"
proof -
  let ?s = example_mounted
  have t: "seek_target ?s 0x300 512 1 = 512" by (simp add: seek_target_def example_chain)
  have far: "clear_of_fs (0x300 + 4) 4 ?s" "clear_of_fs 0x4000 188 ?s"
      "disj_range (0x300 + 4) 4 (ff_item (fat_file_descriptor_at (km ?s) 0x300)) 8"
      "disj_range (0x300 + 4) 4 (file_entry ?s 0x300) 32"
    by (simp_all add: clear_of_fs_def disj_range_def disk_private_def fat_private_at_def example_mem_words
        file_entry_def fat_file_descriptor_at_def fat_item_at_def)
  have "file_byte example_image ?s 2 699 = 65"
    by (simp add: file_byte_def example_image_def example_chain(2)
        cluster_start_def root_end_def disk_private_def fat_private_at_def fat_directory_at_def
        disk_header_def fat_header_at_def example_mem_words fat_entry_def image_word_def)
  moreover obtain s1 s' where s': "fat16_seek 0x300 512 1 ?s = (0, s1)"
      "fat16_read (drive_of example_image) 0x300 188 1 0x4000 s1 = Some (1, s')" "file_pos s' 0x300 = 512"
      "\<forall>x<188. km s' (0x4000 + of_nat x) = file_byte example_image ?s 2 (512 + x)"
    using fat16_seek_read [of ?s "0x300" 512 1 "drive_of example_image" example_image "0x4000" 188 1 2]
      example_chain example_file far t ata_drive_drive_of [of example_image] example_mounted_ok
    by (auto simp: disj_range_def)
  moreover have "km s' (0x4000 + of_nat 187) = file_byte example_image ?s 2 699"
    using s'(4) [rule_format, of 187] by simp
  moreover have "fat16_seek 0x300 700 0 ?s = (- EIO, ?s)" "fat16_seek 0x300 100 2 ?s = (600, ?s)"
    using fat16_seek_read [of ?s "0x300" 700 0] fat16_seek_read [of ?s "0x300" 100 2] by (simp_all add: example_file)
  ultimately show ?thesis by (intro conjI exI [of _ s1] exI [of _ s']) simp_all
qed

text \<open>The size and the read-only flag that \<^verbatim>\<open>fat16_stat\<close> reports are those of the directory entry.\<close>

lemma fat16_stat_file:
  "file_type s p = FAT_ITEM_TYPE_FILE \<Longrightarrow> fat16_stat p st s = (0, st\<lparr>st_filesize := file_size s p,
     st_flags := (if di_attribute (fat_directory_item_at (km s) (file_entry s p)) AND 1 \<noteq> 0 then 1 else 0)\<rparr>)"
  by (simp add: fat16_stat_def Let_def file_type_def file_size_def file_entry_def)

end
