(* ===== verification/PathParser.thy ===== *)
theory PathParser
  imports CString Paging "HOL-Library.Monad_Syntax"
begin

text \<open>
  \<^verbatim>\<open>src/src/fs/pparser.c\<close>: parsing a path such as \<^verbatim>\<open>0:/Projects/summa.c\<close> into a root node and a
  linked list of parts, all in kernel heap blocks. A \<^verbatim>\<open>path_root\<close> is two words (drive number, first
  part), a \<^verbatim>\<open>path_part\<close> two words (string, next part). The loops run to the terminator of the path
  and are partial.
\<close>

section \<open>Operations\<close>

definition is_valid_path :: "mem \<Rightarrow> ptr \<Rightarrow> bool" where
  "is_valid_path m filename \<longleftrightarrow>
     (let len = strnlen m filename LIEBE_OS_MAX_PATH_LEN
      in 3 \<le> len \<and> is_digit (m filename) \<and> m (filename + 1) = 58 \<and> m (filename + 2) = 47)"

definition get_drive_number :: "mem \<Rightarrow> ptr \<Rightarrow> int" where
  "get_drive_number m path = (if \<not> is_valid_path m path then - EBADPATH else atoi (m path))"

definition create_root_path :: "heap \<Rightarrow> int \<Rightarrow> mem \<Rightarrow> ptr \<times> mem" where
  "create_root_path h drive_number m =
     (let (root, m) = kzalloc h 8 m;
          m = store32 m root (c_uint drive_number);
          m = store32 m (root + 4) 0
      in (root, m))"

text \<open>The copying loop of \<^verbatim>\<open>create_path_nodes\<close>.\<close>

partial_function (option) path_copy_loop :: "ptr \<Rightarrow> u32 \<Rightarrow> ptr \<Rightarrow> mem \<Rightarrow> (ptr \<times> mem) option" where
  "path_copy_loop path_str idx tmp_path m =
     (if m tmp_path \<noteq> 47 \<and> m tmp_path \<noteq> 0
      then path_copy_loop path_str (idx + 1) (tmp_path + 1) (m(path_str + idx := m tmp_path))
      else Some (tmp_path, m))"

partial_function (option) create_path_nodes :: "heap \<Rightarrow> ptr \<Rightarrow> ptr \<Rightarrow> mem \<Rightarrow> (ptr \<times> mem) option" where
  "create_path_nodes h tmp_path last_path m =
     (if m tmp_path = 0 then Some (0, m)
      else
        let (path_str, m) = kzalloc h LIEBE_OS_MAX_PATH_LEN m
        in do {
          (tmp_path, m) \<leftarrow> path_copy_loop path_str 0 tmp_path m;
          let (part, m) = kzalloc h 8 m;
              m = store32 m part path_str;
              m = store32 m (part + 4) 0;
              m = (if last_path \<noteq> 0 then store32 m (last_path + 4) part else m);
              tmp_path = (if m tmp_path = 47 then tmp_path + 1 else tmp_path)
          in do {
            (_, m) \<leftarrow> create_path_nodes h tmp_path part m;
            Some (part, m)
          }
        })"

definition pathparser_parse :: "heap \<Rightarrow> ptr \<Rightarrow> mem \<Rightarrow> (ptr \<times> mem) option" where
  "pathparser_parse h path m =
     (if \<not> is_valid_path m path then Some (0, m)
      else
        let drive_number = get_drive_number m path;
            (root, m) = create_root_path h drive_number m
        in do {
          (path_start, m) \<leftarrow> create_path_nodes h (path + 3) 0 m;
          Some (root, store32 m (root + 4) path_start)
        })"

partial_function (option) pathparser_free_loop :: "heap \<Rightarrow> ptr \<Rightarrow> mem \<Rightarrow> mem option" where
  "pathparser_free_loop h part m =
     (if part \<noteq> 0 then
        let next_part = load32 m (part + 4);
            m = kfree h (load32 m part) m;
            m = kfree h part m
        in pathparser_free_loop h next_part m
      else Some m)"

definition pathparser_free :: "heap \<Rightarrow> ptr \<Rightarrow> mem \<Rightarrow> mem option" where
  "pathparser_free h root m =
     do { m \<leftarrow> pathparser_free_loop h (load32 m (root + 4)) m; Some (kfree h root m) }"

end
