(* ===== verification/Vfs.thy ===== *)
theory Vfs
  imports Fat16Files PathParser Keyed
begin

text \<open>
  \<^verbatim>\<open>src/src/fs/file.c\<close> and \<^verbatim>\<open>file.h\<close>: the virtual file system. It keeps a table of file systems and a
  table of file descriptors and calls a file system through its function pointers. What those
  pointers hold is the argument \<open>ops\<close>, from the address of a \<^verbatim>\<open>struct filesystem\<close> to its functions;
  \<open>fat16_fs\<close> is the one the kernel installs.
\<close>

section \<open>State\<close>

record vfs_state = kstate +
  filesystems :: "ptr list"
  file_descriptors :: "ptr list"
  fat16_name :: string

text \<open>The function pointers of \<^verbatim>\<open>struct filesystem\<close>.\<close>

record 's fs_ops =
  fs_resolve_fn :: "'s \<Rightarrow> (int \<times> 's) option"
  fs_open_fn :: "ptr \<Rightarrow> u32 \<Rightarrow> 's \<Rightarrow> (ptr \<times> 's) option"
  fs_read_fn :: "ptr \<Rightarrow> u32 \<Rightarrow> u32 \<Rightarrow> ptr \<Rightarrow> 's \<Rightarrow> (int \<times> 's) option"
  fs_seek_fn :: "ptr \<Rightarrow> u32 \<Rightarrow> u32 \<Rightarrow> 's \<Rightarrow> int \<times> 's"
  fs_stat_fn :: "ptr \<Rightarrow> file_stat \<Rightarrow> 's \<Rightarrow> int \<times> file_stat"
  fs_close_fn :: "ptr \<Rightarrow> 's \<Rightarrow> int \<times> 's"

definition fat16_fs :: "ata_device \<Rightarrow> ptr \<Rightarrow> ptr \<Rightarrow> 'a vfs_state_scheme fs_ops" where
  "fat16_fs dev fs_addr tmp_filename =
     \<lparr>fs_resolve_fn = fat16_resolve dev fs_addr, fs_open_fn = fat16_open dev tmp_filename,
      fs_read_fn = fat16_read dev, fs_seek_fn = fat16_seek, fs_stat_fn = fat16_stat,
      fs_close_fn = fat16_close\<rparr>"

text \<open>A \<^verbatim>\<open>struct file_descriptor\<close> in memory.\<close>

record file_descriptor =
  fdesc_index :: int
  fdesc_filesystem :: ptr
  fdesc_pvt :: ptr
  fdesc_disk :: ptr

definition file_descriptor_at :: "mem \<Rightarrow> ptr \<Rightarrow> file_descriptor" where
  "file_descriptor_at m p = \<lparr>fdesc_index = c_int (load32 m p), fdesc_filesystem = load32 m (p + 4),
     fdesc_pvt = load32 m (p + 8), fdesc_disk = load32 m (p + 12)\<rparr>"

abbreviation (input) LIEBE_OS_MAX_FILESYSTEMS :: "'a::numeral" where "LIEBE_OS_MAX_FILESYSTEMS \<equiv> 12"
abbreviation (input) LIEBE_OS_MAX_FILE_DESCRIPTORS :: "'a::numeral" where "LIEBE_OS_MAX_FILE_DESCRIPTORS \<equiv> 512"
abbreviation (input) FILE_MODE_WRITE :: u32 where "FILE_MODE_WRITE \<equiv> 1"
abbreviation (input) FILE_MODE_APPEND :: u32 where "FILE_MODE_APPEND \<equiv> 2"
abbreviation (input) FILE_MODE_INVALID :: u32 where "FILE_MODE_INVALID \<equiv> 3"

section \<open>File systems\<close>

text \<open>The first slot of a table of pointers that is null.\<close>

fun free_slot :: "ptr list \<Rightarrow> nat \<Rightarrow> nat option" where
  "free_slot [] i = None"
| "free_slot (p # ps) i = (if p = 0 then Some i else free_slot ps (Suc i))"

definition fs_get_free_filesystem :: "'a vfs_state_scheme \<Rightarrow> nat option" where
  "fs_get_free_filesystem s = free_slot (filesystems s) 0"

text \<open>With a full table the kernel prints a message and stays in a loop: \<open>None\<close>.\<close>

definition fs_insert_filesystem :: "ptr \<Rightarrow> 'a vfs_state_scheme \<Rightarrow> 'a vfs_state_scheme option" where
  "fs_insert_filesystem fs s =
     (case fs_get_free_filesystem s of None \<Rightarrow> None
      | Some i \<Rightarrow> Some (s\<lparr>filesystems := (filesystems s)[i := fs]\<rparr>))"

definition fat16_init :: "ptr \<Rightarrow> 'a vfs_state_scheme \<Rightarrow> ptr \<times> 'a vfs_state_scheme" where
  "fat16_init fs_addr s = (fs_addr, s\<lparr>fat16_name := ''FAT16''\<rparr>)"

definition fs_static_load :: "ptr \<Rightarrow> 'a vfs_state_scheme \<Rightarrow> 'a vfs_state_scheme option" where
  "fs_static_load fs_addr s = (let (fs, s) = fat16_init fs_addr s in fs_insert_filesystem fs s)"

definition fs_load :: "ptr \<Rightarrow> 'a vfs_state_scheme \<Rightarrow> 'a vfs_state_scheme option" where
  "fs_load fs_addr s = fs_static_load fs_addr (s\<lparr>filesystems := replicate LIEBE_OS_MAX_FILESYSTEMS 0\<rparr>)"

definition fs_init :: "ptr \<Rightarrow> 'a vfs_state_scheme \<Rightarrow> 'a vfs_state_scheme option" where
  "fs_init fs_addr s = fs_load fs_addr (s\<lparr>file_descriptors := replicate LIEBE_OS_MAX_FILE_DESCRIPTORS 0\<rparr>)"

fun fs_resolve_loop ::
    "(ptr \<Rightarrow> 's fs_ops) \<Rightarrow> ptr list \<Rightarrow> 's \<Rightarrow> (ptr \<times> 's) option" where
  "fs_resolve_loop ops [] s = Some (0, s)"
| "fs_resolve_loop ops (fs # fss) s =
     (if fs \<noteq> 0 then do {
        (res, s) \<leftarrow> fs_resolve_fn (ops fs) s;
        if res = 0 then Some (fs, s) else fs_resolve_loop ops fss s
      }
      else fs_resolve_loop ops fss s)"

definition fs_resolve ::
    "(ptr \<Rightarrow> 'a vfs_state_scheme fs_ops) \<Rightarrow> 'a vfs_state_scheme \<Rightarrow> (ptr \<times> 'a vfs_state_scheme) option" where
  "fs_resolve ops s = fs_resolve_loop ops (filesystems s) s"

text \<open>\<^verbatim>\<open>disk.c\<close>: the disk object is cleared, resolved and numbered.\<close>

definition disk_search_and_init ::
    "(ptr \<Rightarrow> 'a vfs_state_scheme fs_ops) \<Rightarrow> 'a vfs_state_scheme \<Rightarrow> 'a vfs_state_scheme option" where
  "disk_search_and_init ops s =
     (let s = s\<lparr>disk_obj := \<lparr>dk_type = 0, sector_size = LIEBE_OS_SECTOR_SIZE, dk_id = 0, filesystem = 0, fs_private = 0\<rparr>\<rparr>
      in do {
        (fs, s) \<leftarrow> fs_resolve ops s;
        Some (s\<lparr>disk_obj := (disk_obj s)\<lparr>filesystem := fs, dk_id := 0\<rparr>\<rparr>)
      })"

section \<open>Descriptors\<close>

definition file_new_decriptor :: "'a vfs_state_scheme \<Rightarrow> int \<times> ptr \<times> 'a vfs_state_scheme" where
  "file_new_decriptor s =
     (case free_slot (file_descriptors s) 0 of None \<Rightarrow> (- ENOMEM, 0, s)
      | Some i \<Rightarrow>
          let (desc, m) = kzalloc (kheap s) 16 (km s);
              m = store32 m desc (of_nat (i + 1))
          in (0, desc, s\<lparr>km := m, file_descriptors := (file_descriptors s)[i := desc]\<rparr>))"

text \<open>The table is the list of its slots. A store in front of it or behind it, by a descriptor whose field \<^verbatim>\<open>index\<close> was
  overwritten, goes to memory that the model does not place; the slots are kept then.\<close>

definition file_free_descriptor :: "ptr \<Rightarrow> 'a vfs_state_scheme \<Rightarrow> int \<times> 'a vfs_state_scheme" where
  "file_free_descriptor desc s =
     (let i = fdesc_index (file_descriptor_at (km s) desc) - 1;
          fds = (if 0 \<le> i then (file_descriptors s)[nat i := 0] else file_descriptors s)
      in (0, s\<lparr>file_descriptors := fds, km := kfree (kheap s) desc (km s)\<rparr>))"

definition file_get_descriptor :: "int \<Rightarrow> 'a vfs_state_scheme \<Rightarrow> ptr" where
  "file_get_descriptor fd s =
     (if fd \<le> 0 \<or> LIEBE_OS_MAX_FILE_DESCRIPTORS \<le> fd then 0 else file_descriptors s ! nat (fd - 1))"

section \<open>The file interface\<close>

definition file_get_mode_by_string :: "mem \<Rightarrow> ptr \<Rightarrow> u32" where
  "file_get_mode_by_string m str =
     (let mode = FILE_MODE_INVALID;
          mode = (if m str = 114 then FILE_MODE_READ else mode);
          mode = (if m str = 119 then FILE_MODE_WRITE else mode);
          mode = (if m str = 97 then FILE_MODE_APPEND else mode)
      in mode)"

text \<open>The common exit of \<^verbatim>\<open>fopen\<close> turns every error into 0.\<close>

definition fopen_exit :: "int \<Rightarrow> int" where
  "fopen_exit res = (if res < 0 then 0 else res)"

definition fopen ::
    "(ptr \<Rightarrow> 'a vfs_state_scheme fs_ops) \<Rightarrow> ptr \<Rightarrow> ptr \<Rightarrow> 'a vfs_state_scheme \<Rightarrow> (int \<times> 'a vfs_state_scheme) option" where
  "fopen ops filename mode_str s =
     do {
       (root_node, m) \<leftarrow> pathparser_parse (kheap s) filename (km s);
       let s = s\<lparr>km := m\<rparr>
       in if root_node = 0 then Some (fopen_exit (- EINVARG), s)
          else if load32 (km s) (root_node + 4) = 0 then Some (fopen_exit (- EINVARG), s)
          else
            let disk = disk_get (c_int (load32 (km s) root_node)) s
            in if disk = 0 then Some (fopen_exit (- EIO), s)
               else if filesystem (disk_obj s) = 0 then Some (fopen_exit (- EIO), s)
               else
                 let mode = file_get_mode_by_string (km s) mode_str
                 in if mode = FILE_MODE_INVALID then Some (fopen_exit (- EINVARG), s)
                    else do {
                      (pvt, s) \<leftarrow> fs_open_fn (ops (filesystem (disk_obj s))) (load32 (km s) (root_node + 4)) mode s;
                      if ISERR pvt then Some (fopen_exit (c_int pvt), s)
                      else
                        let (res, desc, s) = file_new_decriptor s
                        in if res < 0 then Some (fopen_exit (- EIO), s)
                           else
                             let m = store32 (km s) (desc + 4) (filesystem (disk_obj s));
                                 m = store32 m (desc + 8) pvt;
                                 m = store32 m (desc + 12) disk;
                                 s = s\<lparr>km := m\<rparr>
                             in Some (fopen_exit (fdesc_index (file_descriptor_at (km s) desc)), s)
                    }
     }"

definition fread ::
    "(ptr \<Rightarrow> 'a vfs_state_scheme fs_ops) \<Rightarrow> ptr \<Rightarrow> u32 \<Rightarrow> u32 \<Rightarrow> int \<Rightarrow> 'a vfs_state_scheme
      \<Rightarrow> (int \<times> 'a vfs_state_scheme) option" where
  "fread ops ptr sz nmemb fd s =
     (if sz = 0 \<or> nmemb = 0 \<or> fd < 1 then Some (- EINVARG, s)
      else
        let desc = file_get_descriptor fd s
        in if desc = 0 then Some (- EIO, s)
           else
             let d = file_descriptor_at (km s) desc
             in fs_read_fn (ops (fdesc_filesystem d)) (fdesc_pvt d) sz nmemb ptr s)"

definition fseek ::
    "(ptr \<Rightarrow> 'a vfs_state_scheme fs_ops) \<Rightarrow> int \<Rightarrow> int \<Rightarrow> u32 \<Rightarrow> 'a vfs_state_scheme \<Rightarrow> int \<times> 'a vfs_state_scheme" where
  "fseek ops fd offset whence s =
     (let desc = file_get_descriptor fd s
      in if desc = 0 then (- EIO, s)
         else
           let d = file_descriptor_at (km s) desc
           in fs_seek_fn (ops (fdesc_filesystem d)) (fdesc_pvt d) (c_uint offset) whence s)"

definition fstat ::
    "(ptr \<Rightarrow> 'a vfs_state_scheme fs_ops) \<Rightarrow> int \<Rightarrow> file_stat \<Rightarrow> 'a vfs_state_scheme \<Rightarrow> int \<times> file_stat" where
  "fstat ops fd stat s =
     (let desc = file_get_descriptor fd s
      in if desc = 0 then (- EIO, stat)
         else
           let d = file_descriptor_at (km s) desc
           in fs_stat_fn (ops (fdesc_filesystem d)) (fdesc_pvt d) stat s)"

definition fclose ::
    "(ptr \<Rightarrow> 'a vfs_state_scheme fs_ops) \<Rightarrow> int \<Rightarrow> 'a vfs_state_scheme \<Rightarrow> int \<times> 'a vfs_state_scheme" where
  "fclose ops fd s =
     (let desc = file_get_descriptor fd s
      in if desc = 0 then (- EIO, s)
         else
           let d = file_descriptor_at (km s) desc;
               (res, s) = fs_close_fn (ops (fdesc_filesystem d)) (fdesc_pvt d) s
           in if res = OK then (res, snd (file_free_descriptor desc s)) else (res, s))"

section \<open>The descriptor table\<close>

lemma free_slot_Some:
  "free_slot ps k = Some i \<longleftrightarrow> k \<le> i \<and> i - k < length ps \<and> ps ! (i - k) = 0 \<and> (\<forall>j<i - k. ps ! j \<noteq> 0)"
proof (induction ps arbitrary: k)
  case (Cons p ps)
  show ?case
  proof (cases "p = 0")
    case True
    then show ?thesis by (cases "i = k") (auto simp: gr0_conv_Suc nth_Cons split: nat.splits)
  next
    case False
    show ?thesis
    proof (cases "Suc k \<le> i")
      case True
      then have e: "i - k = Suc (i - Suc k)" by simp
      have "(\<forall>j<i - k. (p # ps) ! j \<noteq> 0) \<longleftrightarrow> (\<forall>j<i - Suc k. ps ! j \<noteq> 0)"
        using False unfolding e by (auto simp: less_Suc_eq_0_disj)
      then show ?thesis using False True Cons.IH [of "Suc k"] by (simp add: e)
    next
      case c: False
      then show ?thesis using False Cons.IH [of "Suc k"] by (cases "i = k") auto
    qed
  qed
qed simp

lemma free_slot_None: "free_slot ps k = None \<longleftrightarrow> (\<forall>p\<in>set ps. p \<noteq> 0)"
  by (induction ps arbitrary: k) auto

text \<open>Descriptor numbers as keys of the table: writing a slot is read back by its number.\<close>

definition fd_put :: "int \<Rightarrow> ptr \<Rightarrow> 'a vfs_state_scheme \<Rightarrow> 'a vfs_state_scheme" where
  "fd_put fd p s = s\<lparr>file_descriptors := (file_descriptors s)[nat (fd - 1) := p]\<rparr>"

interpretation fdt: keyed_store fd_put file_get_descriptor "\<lambda>fd. 1 \<le> fd \<and> fd < 512"
    "\<lambda>s. length (file_descriptors s) = 512"
  by unfold_locales (auto simp: fd_put_def file_get_descriptor_def nth_list_update)

lemma file_new_decriptor_eq:
  assumes "free_slot (file_descriptors s) 0 = Some i"
  shows "file_new_decriptor s = (0, fst (kzalloc (kheap s) 16 (km s)),
    fd_put (int i + 1) (fst (kzalloc (kheap s) 16 (km s)))
      (s\<lparr>km := store32 (snd (kzalloc (kheap s) 16 (km s))) (fst (kzalloc (kheap s) 16 (km s))) (of_nat (i + 1))\<rparr>))"
  using assms by (simp add: file_new_decriptor_def fd_put_def split_beta)

text \<open>A new descriptor takes the lowest free slot: it is a fresh block, its index is the slot plus
  one, the descriptors in use keep their slots and their bytes, and its number finds it again;
  except for the last slot, whose number 512 \<^verbatim>\<open>file_get_descriptor\<close> refuses.\<close>

lemma file_new_decriptor_lowest:
  assumes "heap_rep (kheap s) (km s) A" and "0 < avail (kheap s) (km s)" and "length (file_descriptors s) = 512"
    and "i < 512" and "file_descriptors s ! i = 0" and "\<forall>j<i. file_descriptors s ! j \<noteq> 0"
  shows "case file_new_decriptor s of (res, desc, s') \<Rightarrow> res = 0 \<and> desc \<noteq> 0
    \<and> fdesc_index (file_descriptor_at (km s') desc) = int i + 1
    \<and> (if i < 511 then file_get_descriptor (int i + 1) s' = desc else file_get_descriptor (int i + 1) s' = 0)
    \<and> (\<forall>fd. 1 \<le> fd \<and> fd < 512 \<and> fd \<noteq> int i + 1 \<longrightarrow> file_get_descriptor fd s' = file_get_descriptor fd s)
    \<and> (\<forall>a. owned_byte (block_addr (kheap s)) A a \<longrightarrow> km s' a = km s a)"
proof -
  let ?r = "kzalloc (kheap s) 16 (km s)"
  let ?m = "store32 (snd ?r) (fst ?r) (of_nat (i + 1))"
  have n: "0 < unat (16 :: u32)" "unat (16 :: u32) \<le> 4096" by simp_all
  obtain b where b: "fst ?r = block_addr (kheap s) b" "block_addr (kheap s) b \<noteq> 0"
      "\<And>b' k'. A b' = Some k' \<Longrightarrow> disj_range (block_addr (kheap s) b) 4096 (block_addr (kheap s) b') (4096 * k')"
      "\<And>a. owned_byte (block_addr (kheap s)) A a \<Longrightarrow> snd ?r a = km s a"
    using kz.alloc_page [OF assms(1,2) n] by metis
  have fs: "free_slot (file_descriptors s) 0 = Some i" using assms(3-6) by (simp add: free_slot_Some)
  have idx: "c_int (of_nat (i + 1)) = int i + 1"
    using c_int_of_nat [of "i + 1"] assms(4) by simp
  have own: "?m a = km s a" if "owned_byte (block_addr (kheap s)) A a" for a
  proof -
    from that obtain c k where "A c = Some k" "in_range (block_addr (kheap s) c) (4096 * k) a"
      by (auto simp: owned_byte_def)
    then have "\<not> in_range (fst ?r) 4 a"
      using disj_rangeD2 [OF b(3)] in_range_mono [of _ 4 a 4096] b(1) by fastforce
    then show ?thesis using b(4) [OF that] by (simp add: store32_other)
  qed
  let ?s = "s\<lparr>km := ?m\<rparr>"
  have len: "length (file_descriptors ?s) = 512" using assms(3) by simp
  have "file_get_descriptor (int i + 1) (fd_put (int i + 1) (fst ?r) ?s) = (if i < 511 then fst ?r else 0)"
    using fdt.get_put_same [OF len, of "int i + 1" "fst ?r"] assms(4) by (auto simp: file_get_descriptor_def)
  moreover have "file_get_descriptor fd (fd_put (int i + 1) (fst ?r) ?s) = file_get_descriptor fd s"
    if "1 \<le> fd" "fd < 512" "fd \<noteq> int i + 1" for fd
    using that by (auto simp: file_get_descriptor_def fd_put_def nth_list_update_neq)
  moreover have "fdesc_index (file_descriptor_at ?m (fst ?r)) = int i + 1"
    using idx by (simp add: file_descriptor_at_def load32_store32)
  ultimately show ?thesis
    using b(1,2) own by (auto simp: file_new_decriptor_eq [OF fs]) (simp_all add: fd_put_def)
qed

definition example_vfs :: "ptr list \<Rightarrow> vfs_state" where
  "example_vfs fds = \<lparr>km = (\<lambda>_. 0), kheap = kernel_heap,
     disk_obj = \<lparr>dk_type = 0, sector_size = 512, dk_id = 0, filesystem = 0, fs_private = 0\<rparr>,
     disk_obj_at = 0x2000, filesystems = replicate 12 0, file_descriptors = fds, fat16_name = []\<rparr>"

text \<open>A file system whose files close without further ado, for the witnesses.\<close>

definition null_fs :: "'a vfs_state_scheme fs_ops" where
  "null_fs = \<lparr>fs_resolve_fn = (\<lambda>s. Some (0, s)), fs_open_fn = (\<lambda>p mode s. Some (0, s)),
     fs_read_fn = (\<lambda>p sz n out s. Some (0, s)), fs_seek_fn = (\<lambda>p off wh s. (0, s)),
     fs_stat_fn = (\<lambda>p st s. (0, st)), fs_close_fn = (\<lambda>p s. (0, s))\<rparr>"

text \<open>Whatever goes wrong, \<^verbatim>\<open>fopen\<close> reports it as 0: its result is never negative, so the code of the
  failure is lost; a path without a valid drive prefix gives 0 and leaves the state unchanged.\<close>

lemma fopen_never_negative:
  assumes "fopen ops filename mode_str s = Some (r, s')"
  shows "0 \<le> r \<and> (\<not> is_valid_path (km s) filename \<longrightarrow> r = 0 \<and> s' = s)"
  using assms
  by (auto simp: fopen_def fopen_exit_def Let_def pathparser_parse_def
      split: Option.bind_splits prod.splits if_splits)

text \<open>Bad arguments are refused before any file system function is called and without a change of
  state: \<^verbatim>\<open>fread\<close> with no bytes, no items or no descriptor number, and all four calls on a number
  that names no open file.\<close>

lemma file_calls_bad_descriptor:
  assumes "file_get_descriptor fd s = 0"
  shows "fseek ops fd off whence s = (- EIO, s) \<and> fstat ops fd st s = (- EIO, st) \<and> fclose ops fd s = (- EIO, s)
    \<and> fread ops p sz nmemb fd s = Some (if sz = 0 \<or> nmemb = 0 \<or> fd < 1 then - EINVARG else - EIO, s)"
  using assms by (simp add: fseek_def fstat_def fclose_def fread_def)

text \<open>C36. Closing a file whose file system agrees frees its slot and its block: the number names no
  file any more, the other numbers are unaffected, and the heap owns what it owned without the
  descriptor.\<close>

theorem fclose_releases:
  assumes "1 \<le> fd" and "fd < 512" and "length (file_descriptors s) = 512"
    and "file_get_descriptor fd s = block_addr (kheap s) b" and "block_addr (kheap s) b \<noteq> 0"
    and "fs_close_fn (ops (fdesc_filesystem (file_descriptor_at (km s) (block_addr (kheap s) b))))
           (fdesc_pvt (file_descriptor_at (km s) (block_addr (kheap s) b))) s = (0, s\<lparr>km := m\<rparr>)"
    and "fdesc_index (file_descriptor_at m (block_addr (kheap s) b)) = fd"
    and "heap_rep (kheap s) m A" and "A b = Some 1"
  shows "case fclose ops fd s of (res, s') \<Rightarrow> res = 0 \<and> file_get_descriptor fd s' = 0
    \<and> (\<forall>k. 1 \<le> k \<and> k < 512 \<and> k \<noteq> fd \<longrightarrow> file_get_descriptor k s' = file_get_descriptor k s)
    \<and> heap_rep (kheap s) (km s') (A(b := None)) \<and> avail (kheap s) (km s') = avail (kheap s) m + 1"
proof -
  let ?p = "block_addr (kheap s) b"
  have eq: "fclose ops fd s = (0, fd_put fd 0 (s\<lparr>km := kfree (kheap s) ?p m\<rparr>))"
    using assms(1,4-7) by (simp add: fclose_def Let_def file_free_descriptor_def fd_put_def)
  have len: "length (file_descriptors (s\<lparr>km := kfree (kheap s) ?p m\<rparr>)) = 512" using assms(3) by simp
  have "file_get_descriptor k (s\<lparr>km := kfree (kheap s) ?p m\<rparr>) = file_get_descriptor k s" for k
    by (simp add: file_get_descriptor_def)
  then show ?thesis
    using fdt.get_put_same [OF len, of fd 0] fdt.get_put_other [OF len, of fd _ 0] assms(1,2)
      kz.release_rep [OF assms(8,9)] kz.avail_release [OF assms(8,9)]
    by (simp add: eq fd_put_def)
qed

theorem fclose_releases_witness:
  "\<exists>s :: vfs_state. file_get_descriptor 1 s \<noteq> 0
     \<and> (case fclose (\<lambda>_. null_fs) 1 s of (res, s') \<Rightarrow> res = 0 \<and> file_get_descriptor 1 s' = 0)"
proof -
  have n: "0 < unat (16 :: u32)" "unat (16 :: u32) \<le> 4096" by simp_all
  have av: "0 < avail kernel_heap (\<lambda>_. 0)" by (simp add: kernel_heap_avail_zero)
  obtain b where b: "block_addr kernel_heap b \<noteq> 0"
      "heap_rep kernel_heap (snd (kzalloc kernel_heap 16 (\<lambda>_. 0))) (Map.empty(b \<mapsto> 1))"
    using kz.alloc_page [OF kernel_heap_rep_zero av n] by metis
  define p where "p = block_addr kernel_heap b"
  define m where "m = store32 (snd (kzalloc kernel_heap 16 (\<lambda>_. 0))) p 1"
  define s where "s = (example_vfs (p # replicate 511 0))\<lparr>km := m\<rparr>"
  have rep: "heap_rep kernel_heap m (Map.empty(b \<mapsto> 1))"
  proof (rule heap_rep_write [OF b(2)])
    fix a assume "\<not> owned_byte (block_addr kernel_heap) (Map.empty(b \<mapsto> 1)) a"
    then have "\<not> in_range p 4 a"
      using owned_byteI [of "Map.empty(b \<mapsto> 1)" b 1] in_range_mono [of p 4 a 4096] by (auto simp: p_def)
    then show "m a = snd (kzalloc kernel_heap 16 (\<lambda>_. 0)) a" by (simp add: m_def store32_other)
  qed
  have s: "kheap s = kernel_heap" "km s = m" "length (file_descriptors s) = 512" "file_get_descriptor 1 s = p"
    by (simp_all add: s_def example_vfs_def file_get_descriptor_def)
  have i: "fdesc_index (file_descriptor_at m p) = 1" by (simp add: file_descriptor_at_def m_def load32_store32)
  have e: "s = s\<lparr>km := m\<rparr>" by (simp add: s_def)
  have "fs_close_fn null_fs x s = (0, s\<lparr>km := m\<rparr>)" for x
    by (subst e [symmetric]) (simp add: null_fs_def)
  then show ?thesis
    using fclose_releases [of 1 s b "\<lambda>_. null_fs" m "Map.empty(b \<mapsto> 1)"] s rep b(1) i
    by (intro exI [of _ s]) (auto simp: p_def)
qed

end
