(* ===== verification/Elf.thy ===== *)
theory Elf
  imports Vfs
begin

text \<open>
  \<^verbatim>\<open>src/src/loader/formats/elf.h\<close>, \<^verbatim>\<open>elf.c\<close> and \<^verbatim>\<open>elfloader.c\<close>: the ELF structures as views of memory,
  the checks of a loaded file, the interval its load segments cover, and loading a file through the
  virtual file system.
\<close>

section \<open>Structures\<close>

record elf_header_t =
  e_ident :: "u8 list"
  e_type :: u16
  e_machine :: u16
  e_version :: u32
  e_entry :: u32
  e_phoff :: u32
  e_shoff :: u32
  e_flags :: u32
  e_ehsize :: u16
  e_phentsize :: u16
  e_phnum :: u16
  e_shentsize :: u16
  e_shnum :: u16
  e_shstrndx :: u16

definition elf_header_at :: "mem \<Rightarrow> ptr \<Rightarrow> elf_header_t" where
  "elf_header_at m p = \<lparr>e_ident = bytes_at m p 16, e_type = load16 m (p + 16), e_machine = load16 m (p + 18),
     e_version = load32 m (p + 20), e_entry = load32 m (p + 24), e_phoff = load32 m (p + 28),
     e_shoff = load32 m (p + 32), e_flags = load32 m (p + 36), e_ehsize = load16 m (p + 40),
     e_phentsize = load16 m (p + 42), e_phnum = load16 m (p + 44), e_shentsize = load16 m (p + 46),
     e_shnum = load16 m (p + 48), e_shstrndx = load16 m (p + 50)\<rparr>"

record elf32_phdr =
  p_type :: u32
  p_offset :: u32
  p_vaddr :: u32
  p_paddr :: u32
  p_filesz :: u32
  p_memsz :: u32
  p_flags :: u32
  p_align :: u32

definition elf32_phdr_at :: "mem \<Rightarrow> ptr \<Rightarrow> elf32_phdr" where
  "elf32_phdr_at m p = \<lparr>p_type = load32 m p, p_offset = load32 m (p + 4), p_vaddr = load32 m (p + 8),
     p_paddr = load32 m (p + 12), p_filesz = load32 m (p + 16), p_memsz = load32 m (p + 20),
     p_flags = load32 m (p + 24), p_align = load32 m (p + 28)\<rparr>"

record elf32_shdr =
  sh_name :: u32
  sh_type :: u32
  sh_flags :: u32
  sh_addr :: u32
  sh_offset :: u32
  sh_size :: u32
  sh_link :: u32
  sh_info :: u32
  sh_addralign :: u32
  sh_entsize :: u32

definition elf32_shdr_at :: "mem \<Rightarrow> ptr \<Rightarrow> elf32_shdr" where
  "elf32_shdr_at m p = \<lparr>sh_name = load32 m p, sh_type = load32 m (p + 4), sh_flags = load32 m (p + 8),
     sh_addr = load32 m (p + 12), sh_offset = load32 m (p + 16), sh_size = load32 m (p + 20),
     sh_link = load32 m (p + 24), sh_info = load32 m (p + 28), sh_addralign = load32 m (p + 32),
     sh_entsize = load32 m (p + 36)\<rparr>"

text \<open>\<^verbatim>\<open>struct elf_file\<close>: 132 bytes, the addresses behind a name of 108 and a size word.\<close>

record elf_file =
  ef_filename :: "u8 list"
  ef_in_memory_size :: int
  ef_elf_memory :: ptr
  ef_virtual_base_address :: ptr
  ef_virtual_end_address :: ptr
  ef_physical_base_address :: ptr
  ef_physical_end_address :: ptr

definition elf_file_at :: "mem \<Rightarrow> ptr \<Rightarrow> elf_file" where
  "elf_file_at m p = \<lparr>ef_filename = bytes_at m p 108, ef_in_memory_size = c_int (load32 m (p + 108)),
     ef_elf_memory = load32 m (p + 112), ef_virtual_base_address = load32 m (p + 116),
     ef_virtual_end_address = load32 m (p + 120), ef_physical_base_address = load32 m (p + 124),
     ef_physical_end_address = load32 m (p + 128)\<rparr>"

abbreviation (input) PF_W :: u32 where "PF_W \<equiv> 2"
abbreviation (input) PT_LOAD :: u32 where "PT_LOAD \<equiv> 1"
abbreviation (input) EI_CLASS :: nat where "EI_CLASS \<equiv> 4"
abbreviation (input) EI_DATA :: nat where "EI_DATA \<equiv> 5"
abbreviation (input) ELFCLASSNONE :: u8 where "ELFCLASSNONE \<equiv> 0"
abbreviation (input) ELFCLASS32 :: u8 where "ELFCLASS32 \<equiv> 1"
abbreviation (input) ELFDATANONE :: u8 where "ELFDATANONE \<equiv> 0"
abbreviation (input) ELFDATA2LSB :: u8 where "ELFDATA2LSB \<equiv> 1"
abbreviation (input) ET_EXEC :: u16 where "ET_EXEC \<equiv> 2"

section \<open>Accessors\<close>

definition elf_get_entry_ptr :: "mem \<Rightarrow> ptr \<Rightarrow> ptr" where
  "elf_get_entry_ptr m header = e_entry (elf_header_at m header)"

definition elf_get_entry :: "mem \<Rightarrow> ptr \<Rightarrow> u32" where
  "elf_get_entry m header = e_entry (elf_header_at m header)"

definition elf_valid_signature :: "mem \<Rightarrow> ptr \<Rightarrow> bool" where
  "elf_valid_signature m buffer \<longleftrightarrow> bytes_at m buffer 4 = [0x7f, 69, 76, 70]"

definition elf_valid_class :: "mem \<Rightarrow> ptr \<Rightarrow> bool" where
  "elf_valid_class m header \<longleftrightarrow>
     (let c = e_ident (elf_header_at m header) ! EI_CLASS in c = ELFCLASSNONE \<or> c = ELFCLASS32)"

definition elf_valid_encoding :: "mem \<Rightarrow> ptr \<Rightarrow> bool" where
  "elf_valid_encoding m header \<longleftrightarrow>
     (let d = e_ident (elf_header_at m header) ! EI_DATA in d = ELFDATANONE \<or> d = ELFDATA2LSB)"

definition elf_is_executable :: "mem \<Rightarrow> ptr \<Rightarrow> bool" where
  "elf_is_executable m header \<longleftrightarrow>
     e_type (elf_header_at m header) = ET_EXEC \<and> 0x400000 \<le> e_entry (elf_header_at m header)"

definition elf_has_program_header :: "mem \<Rightarrow> ptr \<Rightarrow> bool" where
  "elf_has_program_header m header \<longleftrightarrow> e_phoff (elf_header_at m header) \<noteq> 0"

definition elf_memory :: "mem \<Rightarrow> ptr \<Rightarrow> ptr" where
  "elf_memory m file = ef_elf_memory (elf_file_at m file)"

definition elf_header :: "mem \<Rightarrow> ptr \<Rightarrow> ptr" where
  "elf_header m file = ef_elf_memory (elf_file_at m file)"

definition elf_sheader :: "mem \<Rightarrow> ptr \<Rightarrow> ptr" where
  "elf_sheader m header = header + e_shoff (elf_header_at m header)"

definition elf_pheader :: "mem \<Rightarrow> ptr \<Rightarrow> ptr" where
  "elf_pheader m header =
     (if e_phoff (elf_header_at m header) = 0 then 0 else header + e_phoff (elf_header_at m header))"

definition elf_program_header :: "mem \<Rightarrow> ptr \<Rightarrow> int \<Rightarrow> ptr" where
  "elf_program_header m header index = elf_pheader m header + 32 * c_uint index"

definition elf_section :: "mem \<Rightarrow> ptr \<Rightarrow> int \<Rightarrow> ptr" where
  "elf_section m header index = elf_sheader m header + 40 * c_uint index"

definition elf_str_table :: "mem \<Rightarrow> ptr \<Rightarrow> ptr" where
  "elf_str_table m header =
     header + sh_offset (elf32_shdr_at m (elf_section m header (uint (e_shstrndx (elf_header_at m header)))))"

definition elf_virtual_base :: "mem \<Rightarrow> ptr \<Rightarrow> ptr" where
  "elf_virtual_base m file = ef_virtual_base_address (elf_file_at m file)"

definition elf_virtual_end :: "mem \<Rightarrow> ptr \<Rightarrow> ptr" where
  "elf_virtual_end m file = ef_virtual_end_address (elf_file_at m file)"

definition elf_phys_base :: "mem \<Rightarrow> ptr \<Rightarrow> ptr" where
  "elf_phys_base m file = ef_physical_base_address (elf_file_at m file)"

definition elf_phys_end :: "mem \<Rightarrow> ptr \<Rightarrow> ptr" where
  "elf_phys_end m file = ef_physical_end_address (elf_file_at m file)"

section \<open>Loading\<close>

definition elf_validate_loaded :: "mem \<Rightarrow> ptr \<Rightarrow> int" where
  "elf_validate_loaded m header =
     (if elf_valid_signature m header \<and> elf_valid_class m header \<and> elf_valid_encoding m header
        \<and> elf_has_program_header m header then OK else - EINFORMAT)"

definition elf_process_phdr_pt_load :: "ptr \<Rightarrow> ptr \<Rightarrow> mem \<Rightarrow> int \<times> mem" where
  "elf_process_phdr_pt_load elf_file phdr m =
     (let ph = elf32_phdr_at m phdr;
          m = (if p_vaddr ph \<le> elf_virtual_base m elf_file \<or> elf_virtual_base m elf_file = 0
               then store32 (store32 m (elf_file + 116) (p_vaddr ph))
                      (elf_file + 124) (elf_memory m elf_file + p_offset ph)
               else m);
          ph = elf32_phdr_at m phdr;
          end_virtual_address = p_vaddr ph + p_filesz ph;
          m = (if elf_virtual_end m elf_file \<le> end_virtual_address \<or> elf_virtual_end m elf_file = 0
               then store32 (store32 m (elf_file + 120) end_virtual_address)
                      (elf_file + 128) (elf_memory m elf_file + p_offset ph + p_filesz ph)
               else m)
      in (0, m))"

definition elf_process_pheader :: "ptr \<Rightarrow> ptr \<Rightarrow> mem \<Rightarrow> int \<times> mem" where
  "elf_process_pheader elf_file_obj phdr m =
     (if p_type (elf32_phdr_at m phdr) = PT_LOAD then elf_process_phdr_pt_load elf_file_obj phdr m
      else (0, m))"

text \<open>\<open>n\<close> program headers are left, of which the next has index \<open>i\<close>. Their number is read once: the
  loop writes only to the \<^verbatim>\<open>elf_file\<close>.\<close>

fun elf_pheaders_loop :: "ptr \<Rightarrow> ptr \<Rightarrow> nat \<Rightarrow> int \<Rightarrow> int \<Rightarrow> mem \<Rightarrow> int \<times> mem" where
  "elf_pheaders_loop elf_file_obj header 0 i res m = (res, m)"
| "elf_pheaders_loop elf_file_obj header (Suc n) i res m =
     (let phdr = elf_program_header m header i;
          (res, m) = elf_process_pheader elf_file_obj phdr m
      in if res < 0 then (res, m) else elf_pheaders_loop elf_file_obj header n (i + 1) res m)"

definition elf_process_pheaders :: "ptr \<Rightarrow> mem \<Rightarrow> int \<times> mem" where
  "elf_process_pheaders elf_file_obj m =
     (let header = elf_header m elf_file_obj
      in elf_pheaders_loop elf_file_obj header (unat (e_phnum (elf_header_at m header))) 0 0 m)"

definition elf_process_loaded :: "ptr \<Rightarrow> mem \<Rightarrow> int \<times> mem" where
  "elf_process_loaded elf_file_obj m =
     (let header = elf_header m elf_file_obj;
          res = elf_validate_loaded m header
      in if res < 0 then (res, m) else elf_process_pheaders elf_file_obj m)"

text \<open>\<^verbatim>\<open>elf_load\<close> returns the status and, when it succeeds, the new \<^verbatim>\<open>elf_file\<close>. The string \<^verbatim>\<open>"r"\<close> is a
  constant of the program, at an address that is an argument; the local \<^verbatim>\<open>stat\<close> starts as the
  argument \<open>stat\<close>.\<close>

definition elf_load ::
    "(ptr \<Rightarrow> 'a vfs_state_scheme fs_ops) \<Rightarrow> ptr \<Rightarrow> file_stat \<Rightarrow> ptr \<Rightarrow> 'a vfs_state_scheme
      \<Rightarrow> (int \<times> ptr option \<times> 'a vfs_state_scheme) option" where
  "elf_load ops mode_r stat filename s =
     (let (elf_file_obj, m) = kzalloc (kheap s) 132 (km s);
          s = s\<lparr>km := m\<rparr>
      in do {
        (res, s) \<leftarrow> fopen ops filename mode_r s;
        if res \<le> 0 then Some (- EIO, None, snd (fclose ops 0 s))
        else
          let fd = res;
              (res, stat) = fstat ops fd stat s
          in if res < 0 then Some (res, None, snd (fclose ops fd s))
             else
               let (data, m) = kzalloc (kheap s) (st_filesize stat) (km s);
                   s = s\<lparr>km := store32 m (elf_file_obj + 112) data\<rparr>
               in do {
                 (res, s) \<leftarrow> fread ops data (st_filesize stat) 1 fd s;
                 if res < 0 then Some (res, None, snd (fclose ops fd s))
                 else
                   let (res, m) = elf_process_loaded elf_file_obj (km s);
                       s = s\<lparr>km := m\<rparr>
                   in Some (res, if res < 0 then None else Some elf_file_obj, snd (fclose ops fd s))
               }
      })"

definition elf_close :: "ptr \<Rightarrow> 'a kstate_scheme \<Rightarrow> 'a kstate_scheme" where
  "elf_close file s =
     (if file = 0 then s
      else
        let s = s\<lparr>km := kfree (kheap s) (ef_elf_memory (elf_file_at (km s) file)) (km s)\<rparr>
        in s\<lparr>km := kfree (kheap s) file (km s)\<rparr>)"

definition elf_phdr_phys_address :: "mem \<Rightarrow> ptr \<Rightarrow> ptr \<Rightarrow> ptr" where
  "elf_phdr_phys_address m file phdr = elf_memory m file + p_offset (elf32_phdr_at m phdr)"

section \<open>The interval of the load segments\<close>

text \<open>What one program header does to the addresses of an \<^verbatim>\<open>elf_file\<close>, on the records.\<close>

definition segment_step :: "elf32_phdr \<Rightarrow> elf_file \<Rightarrow> elf_file" where
  "segment_step ph f =
     (if p_type ph \<noteq> PT_LOAD then f
      else
        let f = (if p_vaddr ph \<le> ef_virtual_base_address f \<or> ef_virtual_base_address f = 0
                 then f\<lparr>ef_virtual_base_address := p_vaddr ph,
                        ef_physical_base_address := ef_elf_memory f + p_offset ph\<rparr> else f);
            e = p_vaddr ph + p_filesz ph
        in if ef_virtual_end_address f \<le> e \<or> ef_virtual_end_address f = 0
           then f\<lparr>ef_virtual_end_address := e,
                  ef_physical_end_address := ef_elf_memory f + p_offset ph + p_filesz ph\<rparr> else f)"

lemma store_name_other:
  assumes "108 \<le> i" and "i < 4096"
  shows "bytes_at (store32 m (p + of_nat i) v) p 108 = bytes_at m p 108"
proof -
  have "store32 m (p + of_nat i) v (p + of_nat j) = m (p + of_nat j)" if "j < 108" for j
  proof (rule store32_other)
    have "unat (of_nat j - of_nat i :: u32) = 4294967296 + j - i"
      using that assms unat_diff_u32 [of "of_nat j" "of_nat i"] by (simp add: unat_of_nat_u32)
    then show "\<not> in_range (p + of_nat i) 4 (p + of_nat j)"
      using that assms by (simp add: in_range_def)
  qed
  then show ?thesis by (simp add: bytes_at_def)
qed

lemma elf_file_store:
  "elf_file_at (store32 m (p + 116) v) p = (elf_file_at m p)\<lparr>ef_virtual_base_address := v\<rparr>"
  "elf_file_at (store32 m (p + 120) v) p = (elf_file_at m p)\<lparr>ef_virtual_end_address := v\<rparr>"
  "elf_file_at (store32 m (p + 124) v) p = (elf_file_at m p)\<lparr>ef_physical_base_address := v\<rparr>"
  "elf_file_at (store32 m (p + 128) v) p = (elf_file_at m p)\<lparr>ef_physical_end_address := v\<rparr>"
  using store_name_other [of 116 m p v] store_name_other [of 120 m p v] store_name_other [of 124 m p v]
    store_name_other [of 128 m p v]
  by (simp_all add: elf_file_at_def mem_simps)

lemma word_in_struct:
  assumes "i + 4 \<le> n" and "n \<le> 4294967295" and "in_range (p + of_nat i) 4 a"
  shows "in_range p n a"
  using in_range_suffix(1) [OF assms] .

lemma elf32_phdr_at_cong:
  assumes "\<And>a. in_range p 32 a \<Longrightarrow> m' a = m a"
  shows "elf32_phdr_at m' p = elf32_phdr_at m p"
proof -
  have w: "load32 m' (p + of_nat i) = load32 m (p + of_nat i)" if "i + 4 \<le> 32" for i
    by (rule load32_cong) (use word_in_struct [OF that] assms in simp)
  show ?thesis
    using w [of 0] w [of 4] w [of 8] w [of 12] w [of 16] w [of 20] w [of 24] w [of 28]
    by (simp add: elf32_phdr_at_def)
qed

lemma elf_file_store_other:
  assumes "\<not> in_range ef 132 a"
  shows "store32 m (ef + 116) v a = m a" "store32 m (ef + 120) v a = m a"
    "store32 m (ef + 124) v a = m a" "store32 m (ef + 128) v a = m a"
  using word_in_struct [of 116 132 ef a] word_in_struct [of 120 132 ef a] word_in_struct [of 124 132 ef a]
    word_in_struct [of 128 132 ef a] assms by (auto intro!: store32_other)

lemma elf_process_pheader_step:
  assumes dj: "disj_range ef 132 phdr 32"
  shows "fst (elf_process_pheader ef phdr m) = 0"
    and "elf_file_at (snd (elf_process_pheader ef phdr m)) ef = segment_step (elf32_phdr_at m phdr) (elf_file_at m ef)"
    and "\<not> in_range ef 132 a \<Longrightarrow> snd (elf_process_pheader ef phdr m) a = m a"
proof -
  have far: "\<not> in_range ef 132 a" if "in_range phdr 32 a" for a using disj_rangeD2 [OF dj that] .
  have ph: "elf32_phdr_at (store32 (store32 m (ef + 116) v) (ef + 124) w) phdr = elf32_phdr_at m phdr" for v w
    by (rule elf32_phdr_at_cong) (simp add: elf_file_store_other far)
  show "fst (elf_process_pheader ef phdr m) = 0"
    by (simp add: elf_process_pheader_def elf_process_phdr_pt_load_def Let_def)
  show "elf_file_at (snd (elf_process_pheader ef phdr m)) ef = segment_step (elf32_phdr_at m phdr) (elf_file_at m ef)"
    by (simp add: elf_process_pheader_def elf_process_phdr_pt_load_def segment_step_def Let_def ph
        elf_file_store elf_virtual_base_def elf_virtual_end_def elf_memory_def)
  show "snd (elf_process_pheader ef phdr m) a = m a" if "\<not> in_range ef 132 a"
    by (simp add: elf_process_pheader_def elf_process_phdr_pt_load_def Let_def elf_file_store_other [OF that])
qed

text \<open>The program headers \<open>i\<close> up to \<open>n\<close> of a file, all outside of the \<^verbatim>\<open>elf_file\<close>.\<close>

definition phdrs_at :: "mem \<Rightarrow> ptr \<Rightarrow> nat \<Rightarrow> nat \<Rightarrow> elf32_phdr list" where
  "phdrs_at m header i n = map (\<lambda>j. elf32_phdr_at m (elf_program_header m header (int j))) [i..<n]"

definition clear_of_file :: "mem \<Rightarrow> ptr \<Rightarrow> ptr \<Rightarrow> nat \<Rightarrow> bool" where
  "clear_of_file m ef header n \<longleftrightarrow> disj_range ef 132 header 52
     \<and> (\<forall>j<n. disj_range ef 132 (elf_program_header m header (int j)) 32)"

lemma elf_program_header_cong:
  assumes "disj_range ef 132 header 52" and "\<And>a. \<not> in_range ef 132 a \<Longrightarrow> m' a = m a"
  shows "elf_program_header m' header i = elf_program_header m header i"
proof -
  have "load32 m' (header + 28) = load32 m (header + 28)"
  proof (rule load32_cong)
    fix a assume "in_range (header + 28) 4 a"
    then have "in_range header 52 a" using word_in_struct [of 28 52 header a] by simp
    then show "m' a = m a" using assms disj_rangeD2 by blast
  qed
  then show ?thesis by (simp add: elf_program_header_def elf_pheader_def elf_header_at_def)
qed

lemma elf_pheaders_loop_fold:
  "clear_of_file m ef header (i + n) \<Longrightarrow>
    fst (elf_pheaders_loop ef header n (int i) 0 m) = 0
    \<and> elf_file_at (snd (elf_pheaders_loop ef header n (int i) 0 m)) ef
       = fold segment_step (phdrs_at m header i (i + n)) (elf_file_at m ef)"
proof (induction n arbitrary: i m)
  case 0
  show ?case by (simp add: phdrs_at_def)
next
  case (Suc n)
  let ?p = "elf_program_header m header (int i)" and ?r = "elf_process_pheader ef (elf_program_header m header (int i)) m"
  have dj: "disj_range ef 132 ?p 32" and dh: "disj_range ef 132 header 52"
    using Suc.prems by (auto simp: clear_of_file_def)
  note st = elf_process_pheader_step [OF dj]
  have ep: "elf_program_header (snd ?r) header j = elf_program_header m header j" for j
    by (rule elf_program_header_cong [OF dh st(3)])
  have ph: "elf32_phdr_at (snd ?r) (elf_program_header m header (int j)) = elf32_phdr_at m (elf_program_header m header (int j))"
    if "j < i + Suc n" for j
  proof (rule elf32_phdr_at_cong)
    fix a assume "in_range (elf_program_header m header (int j)) 32 a"
    moreover have "disj_range ef 132 (elf_program_header m header (int j)) 32"
      using Suc.prems that by (simp add: clear_of_file_def)
    ultimately show "snd ?r a = m a" using st(3) disj_rangeD2 by blast
  qed
  have cl: "clear_of_file (snd ?r) ef header (Suc i + n)"
    using Suc.prems by (simp add: clear_of_file_def ep)
  have "phdrs_at (snd ?r) header (Suc i) (Suc i + n) = phdrs_at m header (Suc i) (Suc i + n)"
    using ph by (auto simp: phdrs_at_def ep)
  moreover have "phdrs_at m header i (i + Suc n) = elf32_phdr_at m ?p # phdrs_at m header (Suc i) (Suc i + n)"
    by (simp add: phdrs_at_def upt_conv_Cons del: upt_Suc)
  moreover have "elf_pheaders_loop ef header (Suc n) (int i) 0 m = elf_pheaders_loop ef header n (int (Suc i)) 0 (snd ?r)"
    using st(1) [of m] by (simp add: Let_def split_beta add.commute)
  ultimately show ?case using Suc.IH [OF cl] st(2) by simp
qed

text \<open>A load segment that does not wrap around the address space and is not at address 0.\<close>

definition sane_segment :: "elf32_phdr \<Rightarrow> bool" where
  "sane_segment ph \<longleftrightarrow> p_vaddr ph \<noteq> 0 \<and> unat (p_vaddr ph) + unat (p_filesz ph) < 4294967296"

definition covers :: "elf_file \<Rightarrow> elf32_phdr list \<Rightarrow> bool" where
  "covers f phs \<longleftrightarrow>
     (\<forall>ph\<in>set phs. ef_virtual_base_address f \<le> p_vaddr ph \<and> p_vaddr ph + p_filesz ph \<le> ef_virtual_end_address f)
     \<and> (\<exists>ph\<in>set phs. ef_virtual_base_address f = p_vaddr ph
          \<and> ef_physical_base_address f = ef_elf_memory f + p_offset ph)
     \<and> (\<exists>ph\<in>set phs. ef_virtual_end_address f = p_vaddr ph + p_filesz ph
          \<and> ef_physical_end_address f = ef_elf_memory f + p_offset ph + p_filesz ph)"

lemma sane_end: "sane_segment ph \<Longrightarrow> p_vaddr ph \<le> p_vaddr ph + p_filesz ph \<and> p_vaddr ph + p_filesz ph \<noteq> 0"
proof -
  assume "sane_segment ph"
  then have "unat (p_vaddr ph + p_filesz ph) = unat (p_vaddr ph) + unat (p_filesz ph)" "0 < unat (p_vaddr ph)"
    by (simp_all add: sane_segment_def unat_word_ariths unat_gt_0)
  then show ?thesis by (metis add_gr_0 le_add1 unat_gt_0 word_le_nat_alt)
qed

lemma segment_step_covers:
  assumes "p_type ph = PT_LOAD" and "sane_segment ph"
    and "if phs = [] then ef_virtual_base_address f = 0 \<and> ef_virtual_end_address f = 0
         else covers f phs \<and> ef_virtual_base_address f \<noteq> 0"
  shows "covers (segment_step ph f) (phs @ [ph]) \<and> ef_virtual_base_address (segment_step ph f) \<noteq> 0"
proof (cases "phs = []")
  case True
  then show ?thesis using assms sane_end [OF assms(2)]
    by (auto simp: segment_step_def Let_def covers_def sane_segment_def)
next
  case False
  note z = sane_end [OF assms(2)]
  have c: "covers f phs" "ef_virtual_base_address f \<noteq> 0" using assms(3) False by auto
  then show ?thesis
    using z assms(1,2) by (auto simp: segment_step_def Let_def covers_def sane_segment_def not_le)
qed

lemma fold_segments_cover:
  assumes "ef_virtual_base_address f = 0" and "ef_virtual_end_address f = 0"
    and "\<forall>ph\<in>set phs. p_type ph = PT_LOAD \<longrightarrow> sane_segment ph"
  defines "loads \<equiv> filter (\<lambda>ph. p_type ph = PT_LOAD)"
  shows "if loads phs = [] then ef_virtual_base_address (fold segment_step phs f) = 0
        \<and> ef_virtual_end_address (fold segment_step phs f) = 0
      else covers (fold segment_step phs f) (loads phs) \<and> ef_virtual_base_address (fold segment_step phs f) \<noteq> 0"
  using assms(3)
proof (induction phs rule: rev_induct)
  case Nil
  show ?case using assms(1,2) by (simp add: loads_def)
next
  case (snoc ph phs)
  show ?case
  proof (cases "p_type ph = PT_LOAD")
    case True
    then have "covers (segment_step ph (fold segment_step phs f)) (loads phs @ [ph])
        \<and> ef_virtual_base_address (segment_step ph (fold segment_step phs f)) \<noteq> 0"
      using snoc by (intro segment_step_covers) auto
    then show ?thesis using True by (simp add: loads_def)
  next
    case False
    then have "segment_step ph g = g" for g by (simp add: segment_step_def)
    then show ?thesis using snoc False by (cases "loads phs = []") (simp_all add: loads_def)
  qed
qed

text \<open>The four checks of a header, on the bytes of the file: the magic number, the class (none or 32 bit), the encoding
  (none or little endian) and a table of program headers.\<close>

definition elf_bytes_ok :: "mem \<Rightarrow> ptr \<Rightarrow> bool" where
  "elf_bytes_ok m h \<longleftrightarrow> m h = 0x7F \<and> m (h + 1) = 0x45 \<and> m (h + 2) = 0x4C \<and> m (h + 3) = 0x46
     \<and> (m (h + 4) = 0 \<or> m (h + 4) = 1) \<and> (m (h + 5) = 0 \<or> m (h + 5) = 1) \<and> load32 m (h + 28) \<noteq> 0"

lemma elf_validate_bytes: "elf_validate_loaded m h = (if elf_bytes_ok m h then 0 else - EINFORMAT)"
proof -
  have "bytes_at m h 4 = [m h, m (h + 1), m (h + 2), m (h + 3)]" by (simp add: bytes_at_def upt_rec)
  moreover have "bytes_at m h 16 ! 4 = m (h + 4)" "bytes_at m h 16 ! 5 = m (h + 5)" by (simp_all add: bytes_at_def)
  ultimately show ?thesis
    by (auto simp: elf_validate_loaded_def elf_bytes_ok_def elf_valid_signature_def elf_valid_class_def elf_valid_encoding_def
        elf_has_program_header_def elf_header_at_def)
qed

text \<open>C24. A loaded file is refused with \<^verbatim>\<open>EINFORMAT\<close>, and nothing is written, unless it starts with the four bytes of the
  signature, its class and its encoding are each 0 (none) or 1 (32 bit, little endian) and it has a program header table. For a file that has them and at least one load segment, the call
  succeeds, the virtual interval recorded is the smallest one that covers all load segments, and its ends are the places of
  the segments that give them.\<close>

theorem elf_process_loaded_interval:
  "(\<not> elf_bytes_ok m (elf_header m ef) \<longrightarrow> elf_process_loaded ef m = (- EINFORMAT, m))
   \<and> (elf_bytes_ok m (elf_header m ef)
      \<and> clear_of_file m ef (elf_header m ef) (unat (e_phnum (elf_header_at m (elf_header m ef))))
      \<and> elf_virtual_base m ef = 0 \<and> elf_virtual_end m ef = 0
      \<and> (\<forall>ph\<in>set (phdrs_at m (elf_header m ef) 0 (unat (e_phnum (elf_header_at m (elf_header m ef))))).
           p_type ph = PT_LOAD \<longrightarrow> sane_segment ph)
      \<and> (\<exists>ph\<in>set (phdrs_at m (elf_header m ef) 0 (unat (e_phnum (elf_header_at m (elf_header m ef))))).
           p_type ph = PT_LOAD) \<longrightarrow>
     (case elf_process_loaded ef m of (res, m') \<Rightarrow> res = 0 \<and> covers (elf_file_at m' ef)
        (filter (\<lambda>ph. p_type ph = PT_LOAD)
          (phdrs_at m (elf_header m ef) 0 (unat (e_phnum (elf_header_at m (elf_header m ef))))))))"
  (is "?bad \<and> (?ok \<and> ?clear \<and> ?base \<and> ?end \<and> ?sane \<and> ?some \<longrightarrow> ?covers)")
proof (intro conjI impI)
  let ?h = "elf_header m ef"
  let ?n = "unat (e_phnum (elf_header_at m ?h))"
  show "elf_process_loaded ef m = (- EINFORMAT, m)" if "\<not> elf_bytes_ok m ?h"
    using that by (simp add: elf_process_loaded_def elf_validate_bytes Let_def)
  assume a: "?ok \<and> ?clear \<and> ?base \<and> ?end \<and> ?sane \<and> ?some"
  then have "elf_process_loaded ef m = elf_pheaders_loop ef ?h ?n 0 0 m"
    by (simp add: elf_process_loaded_def elf_process_pheaders_def elf_validate_bytes Let_def)
  moreover have "filter (\<lambda>ph. p_type ph = PT_LOAD) (phdrs_at m ?h 0 ?n) \<noteq> []"
    using a by (simp add: filter_empty_conv)
  ultimately show ?covers
    using elf_pheaders_loop_fold [of m ef ?h 0 ?n] a fold_segments_cover [of "elf_file_at m ef" "phdrs_at m ?h 0 ?n"]
    by (auto simp: elf_virtual_base_def elf_virtual_end_def split_beta)
qed

text \<open>A file with one load segment at \<^verbatim>\<open>0x1000\<close>, its \<^verbatim>\<open>elf_file\<close> at \<^verbatim>\<open>0x100\<close>.\<close>

definition example_elf :: mem where
  "example_elf = fold (\<lambda>(p, v) m. store32 m p v)
     [(0x170, 0x1000), (0x1000, 0x464C457F), (0x1004, 0x101), (0x101C, 52), (0x102C, 1), (0x1034, 1),
      (0x1038, 0x1000), (0x103C, 0x400000), (0x1044, 0x200)] (\<lambda>_. 0)"

lemma example_elf_words:
  "load32 example_elf 0x170 = 0x1000" "load32 example_elf 0x174 = 0" "load32 example_elf 0x178 = 0"
  "load32 example_elf 0x101C = 52" "load16 example_elf 0x102C = 1" "load32 example_elf 0x1034 = 1"
  "load32 example_elf 0x103C = 0x400000" "load32 example_elf 0x1044 = 0x200"
  "bytes_at example_elf 0x1000 4 = [0x7f, 69, 76, 70]"
  "bytes_at example_elf 0x1000 16 ! 4 = 1" "bytes_at example_elf 0x1000 16 ! 5 = 1"
  by (simp_all add: example_elf_def load32_def load16_def store32_def bytes_at_def upt_rec)

theorem elf_process_loaded_interval_witness:
  "case elf_process_loaded 0x100 example_elf of (res, m') \<Rightarrow> res = 0 \<and> elf_virtual_base m' 0x100 \<le> 0x400000
     \<and> 0x400200 \<le> elf_virtual_end m' 0x100
   \<and> elf_process_loaded 0x100 (\<lambda>_. 0) = (- EINFORMAT, \<lambda>_. 0)"
proof -
  have h: "elf_header example_elf 0x100 = 0x1000" by (simp add: elf_header_def elf_file_at_def example_elf_words)
  have n: "unat (e_phnum (elf_header_at example_elf 0x1000)) = 1" by (simp add: elf_header_at_def example_elf_words)
  have p: "elf_program_header example_elf 0x1000 0 = 0x1034"
    by (simp add: elf_program_header_def elf_pheader_def elf_header_at_def example_elf_words)
  have "phdrs_at example_elf 0x1000 0 1 = [elf32_phdr_at example_elf 0x1034]" by (simp add: phdrs_at_def p)
  moreover have "elf_bytes_ok example_elf 0x1000"
    using example_elf_words by (simp add: elf_bytes_ok_def bytes_at_def upt_rec)
  moreover have "clear_of_file example_elf 0x100 0x1000 1" by (simp add: clear_of_file_def p disj_range_def)
  moreover have "elf_virtual_base example_elf 0x100 = 0" "elf_virtual_end example_elf 0x100 = 0"
    by (simp_all add: elf_virtual_base_def elf_virtual_end_def elf_file_at_def example_elf_words)
  moreover have "p_type (elf32_phdr_at example_elf 0x1034) = 1" "p_vaddr (elf32_phdr_at example_elf 0x1034) = 0x400000"
    "p_filesz (elf32_phdr_at example_elf 0x1034) = 0x200"
    by (simp_all add: elf32_phdr_at_def example_elf_words)
  ultimately show ?thesis
    using elf_process_loaded_interval [of example_elf "0x100"] elf_process_loaded_interval [of "\<lambda>_. 0" "0x100"] unfolding h n
    by (auto simp: covers_def sane_segment_def elf_virtual_base_def elf_virtual_end_def elf_bytes_ok_def split: prod.splits)
qed

end
