(* ===== verification/Task.thy ===== *)
theory Task
  imports Elf
begin

text \<open>
  \<^verbatim>\<open>src/src/task/task.c\<close> and \<^verbatim>\<open>task.h\<close>: tasks in kernel memory, linked in a list, with a page directory
  and saved registers each. Control that leaves the kernel is a value: \<open>Entered\<close> is the return to user
  mode with a set of registers, \<open>Panicked\<close> the halt with a message. While a task's page directory is
  loaded, its addresses are translated by that directory.
\<close>

section \<open>State\<close>

record kernel = vfs_state +
  current_task :: ptr
  task_head :: ptr
  task_tail :: ptr
  current_process :: ptr
  processes :: "ptr list"
  page_directory_obj :: ptr
  cpu :: paging_cpu
  data_selector :: u32

datatype ('r, 's) outcome = Returned 'r 's | Panicked string | Entered ptr 's

text \<open>\<^verbatim>\<open>struct registers\<close>, 48 bytes, at offset 4 of \<^verbatim>\<open>struct task\<close>.\<close>

record registers =
  rg_edi :: u32
  rg_esi :: u32
  rg_ebp :: u32
  rg_ebx :: u32
  rg_edx :: u32
  rg_ecx :: u32
  rg_eax :: u32
  rg_ip :: u32
  rg_cs :: u32
  rg_flags :: u32
  rg_esp :: u32
  rg_ss :: u32

definition registers_at :: "mem \<Rightarrow> ptr \<Rightarrow> registers" where
  "registers_at m p = \<lparr>rg_edi = load32 m p, rg_esi = load32 m (p + 4), rg_ebp = load32 m (p + 8),
     rg_ebx = load32 m (p + 12), rg_edx = load32 m (p + 16), rg_ecx = load32 m (p + 20), rg_eax = load32 m (p + 24),
     rg_ip = load32 m (p + 28), rg_cs = load32 m (p + 32), rg_flags = load32 m (p + 36), rg_esp = load32 m (p + 40),
     rg_ss = load32 m (p + 44)\<rparr>"

text \<open>\<^verbatim>\<open>struct task\<close>, 64 bytes.\<close>

record task =
  tk_page_directory :: ptr
  tk_registers :: registers
  tk_process :: ptr
  tk_next :: ptr
  tk_prev :: ptr

definition task_at :: "mem \<Rightarrow> ptr \<Rightarrow> task" where
  "task_at m p = \<lparr>tk_page_directory = load32 m p, tk_registers = registers_at m (p + 4),
     tk_process = load32 m (p + 52), tk_next = load32 m (p + 56), tk_prev = load32 m (p + 60)\<rparr>"

text \<open>\<^verbatim>\<open>struct interrupt_frame\<close> of \<^verbatim>\<open>idt.h\<close>, as the entry stubs push it.\<close>

record interrupt_frame =
  if_edi :: u32
  if_esi :: u32
  if_ebp :: u32
  if_reserved :: u32
  if_ebx :: u32
  if_edx :: u32
  if_ecx :: u32
  if_eax :: u32
  if_ip :: u32
  if_cs :: u32
  if_flags :: u32
  if_esp :: u32
  if_ss :: u32

abbreviation (input) LIEBE_OS_PROGRAM_VIRTUAL_ADDRESS :: u32 where "LIEBE_OS_PROGRAM_VIRTUAL_ADDRESS \<equiv> 0x400000"
abbreviation (input) LIEBE_OS_PROGRAM_VIRTUAL_STACK_ADDRESS_START :: u32
  where "LIEBE_OS_PROGRAM_VIRTUAL_STACK_ADDRESS_START \<equiv> 0x3FF000"
abbreviation (input) USER_DATA_SEGMENT :: u32 where "USER_DATA_SEGMENT \<equiv> 0x23"
abbreviation (input) USER_CODE_SEGMENT :: u32 where "USER_CODE_SEGMENT \<equiv> 0x1b"

text \<open>The fields of \<^verbatim>\<open>struct process\<close> that the task code reads.\<close>

definition pr_filetype :: "mem \<Rightarrow> ptr \<Rightarrow> u8" where
  "pr_filetype m p = m (p + 8308)"

definition pr_ptr :: "mem \<Rightarrow> ptr \<Rightarrow> ptr" where
  "pr_ptr m p = load32 m (p + 8312)"

section \<open>Address spaces\<close>

definition kernel_registers :: "'a kernel_scheme \<Rightarrow> 'a kernel_scheme" where
  "kernel_registers s = s\<lparr>data_selector := 0x10\<rparr>"

definition user_registers :: "'a kernel_scheme \<Rightarrow> 'a kernel_scheme" where
  "user_registers s = s\<lparr>data_selector := 0x23\<rparr>"

definition kernel_page :: "'a kernel_scheme \<Rightarrow> 'a kernel_scheme" where
  "kernel_page s =
     (let s = kernel_registers s
      in s\<lparr>cpu := page_switch (get_page_directory_entry (page_directory_obj s) (km s)) (cpu s)\<rparr>)"

text \<open>Memory as seen through a page directory, and \<^verbatim>\<open>strncpy\<close> between addresses that a directory
  translates; the tables do not change while it copies.\<close>

definition seen :: "ptr \<Rightarrow> mem \<Rightarrow> mem" where
  "seen dir m = (\<lambda>v. m (paging_get_physical_address dir v m))"

function strncpy_via_loop :: "(ptr \<Rightarrow> ptr) \<Rightarrow> mem \<Rightarrow> ptr \<Rightarrow> ptr \<Rightarrow> int \<Rightarrow> int \<Rightarrow> int \<times> mem" where
  "strncpy_via_loop tr m dest src count i =
     (if i < count - 1 then
        if m (tr (src + c_uint i)) = 0 then (i, m)
        else strncpy_via_loop tr (m(tr (dest + c_uint i) := m (tr (src + c_uint i)))) dest src count (i + 1)
      else (i, m))"
  by pat_completeness auto
termination by (relation "measure (\<lambda>(tr, m, dest, src, count, i). nat (count - 1 - i))") auto

declare strncpy_via_loop.simps [simp del]

definition strncpy_via :: "(ptr \<Rightarrow> ptr) \<Rightarrow> mem \<Rightarrow> ptr \<Rightarrow> ptr \<Rightarrow> int \<Rightarrow> mem" where
  "strncpy_via tr m dest src count =
     (let (i, m) = strncpy_via_loop tr m dest src count 0 in m(tr (dest + c_uint i) := 0))"

lemma strncpy_via_loop_id:
  assumes tr: "\<And>a. tr a = a"
  shows "strncpy_via_loop tr m dest src count i = strncpy_loop m dest src count i"
proof (induction m dest src count i rule: strncpy_loop.induct)
  case (1 m dest src count i)
  have "strncpy_via_loop tr (m(dest + c_uint i := m (src + c_uint i))) dest src count (i + 1) =
      strncpy_loop (m(dest + c_uint i := m (src + c_uint i))) dest src count (i + 1)"
    if "i < count - 1" "m (src + c_uint i) \<noteq> 0"
    using 1 that by blast
  then show ?case
    unfolding strncpy_loop.simps [of m dest src count i] strncpy_via_loop.simps [of tr m dest src count i]
    by (simp add: tr)
qed

lemma strncpy_via_id: "(\<And>a. tr a = a) \<Longrightarrow> strncpy_via tr m dest src count = snd (strncpy m dest src count)"
  by (simp add: strncpy_via_def strncpy_def strncpy_via_loop_id split_beta)

section \<open>The list of tasks\<close>

definition task_current :: "'a kernel_scheme \<Rightarrow> ptr" where
  "task_current s = current_task s"

definition task_get_next :: "'a kernel_scheme \<Rightarrow> ptr" where
  "task_get_next s =
     (let next = tk_next (task_at (km s) (current_task s)) in if next = 0 then task_head s else next)"

definition task_list_remove :: "ptr \<Rightarrow> 'a kernel_scheme \<Rightarrow> 'a kernel_scheme" where
  "task_list_remove task s =
     (let t = task_at (km s) task;
          s = (if tk_prev t \<noteq> 0 then s\<lparr>km := store32 (km s) (tk_prev t + 56) (tk_next t)\<rparr> else s);
          s = (if task = task_head s then s\<lparr>task_head := tk_next (task_at (km s) task)\<rparr> else s);
          s = (if task = task_tail s then s\<lparr>task_tail := tk_prev (task_at (km s) task)\<rparr> else s)
      in if task = current_task s then s\<lparr>current_task := task_get_next s\<rparr> else s)"

definition task_free :: "ptr \<Rightarrow> 'a kernel_scheme \<Rightarrow> int \<times> 'a kernel_scheme" where
  "task_free task s =
     (let s = s\<lparr>km := paging_free_4gb (kheap s) (tk_page_directory (task_at (km s) task)) (km s)\<rparr>;
          s = task_list_remove task s
      in (0, s\<lparr>km := kfree (kheap s) task (km s)\<rparr>))"

definition task_init :: "ptr \<Rightarrow> ptr \<Rightarrow> 'a kernel_scheme \<Rightarrow> int \<times> 'a kernel_scheme" where
  "task_init task process s =
     (let m = snd (memset (km s) task 0 64);
          (directory, m) = create_new_page_directory (kheap s) 5 m;
          m = store32 m task directory
      in if directory = 0 then (- EIO, s\<lparr>km := m\<rparr>)
         else
           let m = store32 m (task + 32) LIEBE_OS_PROGRAM_VIRTUAL_ADDRESS;
               m = (if pr_filetype m process = 0
                    then store32 m (task + 32) (e_entry (elf_header_at m (elf_header m (pr_ptr m process)))) else m);
               m = store32 m (task + 48) USER_DATA_SEGMENT;
               m = store32 m (task + 36) USER_CODE_SEGMENT;
               m = store32 m (task + 44) LIEBE_OS_PROGRAM_VIRTUAL_STACK_ADDRESS_START;
               m = store32 m (task + 52) process
           in (0, s\<lparr>km := m\<rparr>))"

text \<open>On an error the new task is freed, a null one too, and the code is returned as a pointer.\<close>

definition task_new :: "ptr \<Rightarrow> 'a kernel_scheme \<Rightarrow> ptr \<times> 'a kernel_scheme" where
  "task_new process s =
     (let (task, m) = kzalloc (kheap s) 64 (km s);
          s = s\<lparr>km := m\<rparr>
      in if task = 0 then (ERROR (- ENOMEM), snd (task_free task s))
         else
           let (res, s) = task_init task process s
           in if res \<noteq> OK then (ERROR res, snd (task_free task s))
              else if task_head s = 0
              then (task, s\<lparr>task_head := task, task_tail := task, current_task := task\<rparr>)
              else
                let m = store32 (km s) (task_tail s + 56) task;
                    m = store32 m (task + 60) (task_tail s)
                in (task, s\<lparr>km := m, task_tail := task\<rparr>))"

section \<open>Switching\<close>

definition task_switch :: "ptr \<Rightarrow> 'a kernel_scheme \<Rightarrow> int \<times> 'a kernel_scheme" where
  "task_switch task s =
     (let s = s\<lparr>current_task := task\<rparr>
      in (0, s\<lparr>cpu := page_switch (get_page_directory_entry (tk_page_directory (task_at (km s) task)) (km s)) (cpu s)\<rparr>))"

definition task_page :: "'a kernel_scheme \<Rightarrow> int \<times> 'a kernel_scheme" where
  "task_page s = (let s = user_registers s in (0, snd (task_switch (current_task s) s)))"

definition task_page_task :: "ptr \<Rightarrow> 'a kernel_scheme \<Rightarrow> int \<times> 'a kernel_scheme" where
  "task_page_task task s =
     (let s = user_registers s
      in (0, s\<lparr>cpu := page_switch (get_page_directory_entry (tk_page_directory (task_at (km s) task)) (km s)) (cpu s)\<rparr>))"

definition task_run_first_ever_task :: "'a kernel_scheme \<Rightarrow> (unit, 'a kernel_scheme) outcome" where
  "task_run_first_ever_task s =
     (if current_task s = 0 then Panicked ''task_run_first_ever_task(): No current task exists!\<newline>''
      else let s = snd (task_switch (task_head s) s) in Entered (task_head s + 4) s)"

definition task_next :: "'a kernel_scheme \<Rightarrow> (unit, 'a kernel_scheme) outcome" where
  "task_next s =
     (let next_task = task_get_next s
      in if next_task = 0 then Panicked ''No more tasks!\<newline>''
         else let s = snd (task_switch next_task s) in Entered (next_task + 4) s)"

text \<open>The registers of a frame go to the saved registers of the task, field by field.\<close>

definition task_save_state :: "ptr \<Rightarrow> interrupt_frame \<Rightarrow> mem \<Rightarrow> mem" where
  "task_save_state task frame m =
     (let m = store32 m (task + 32) (if_ip frame);
          m = store32 m (task + 36) (if_cs frame);
          m = store32 m (task + 40) (if_flags frame);
          m = store32 m (task + 44) (if_esp frame);
          m = store32 m (task + 48) (if_ss frame);
          m = store32 m (task + 28) (if_eax frame);
          m = store32 m (task + 12) (if_ebp frame);
          m = store32 m (task + 16) (if_ebx frame);
          m = store32 m (task + 24) (if_ecx frame);
          m = store32 m (task + 4) (if_edi frame);
          m = store32 m (task + 20) (if_edx frame)
      in store32 m (task + 8) (if_esi frame))"

definition task_current_save_state :: "interrupt_frame \<Rightarrow> 'a kernel_scheme \<Rightarrow> (unit, 'a kernel_scheme) outcome" where
  "task_current_save_state frame s =
     (if task_current s = 0 then Panicked ''!No current task to save \<newline>''
      else Returned () (s\<lparr>km := task_save_state (task_current s) frame (km s)\<rparr>))"

text \<open>\<^verbatim>\<open>task_return\<close> and \<^verbatim>\<open>restore_general_purpose_registers\<close> of \<^verbatim>\<open>task.asm\<close>: the registers in user mode after
  the \<^verbatim>\<open>iretd\<close>. The flags are the kernel's with interrupts on. The last \<^verbatim>\<open>pop ebp\<close> undoes the load of \<^verbatim>\<open>ebp\<close>: it
  puts back what \<^verbatim>\<open>task_return\<close> had in it, the kernel stack pointer \<open>esp\<close> on its entry.\<close>

definition task_return :: "ptr \<Rightarrow> u32 \<Rightarrow> u32 \<Rightarrow> mem \<Rightarrow> registers" where
  "task_return regs esp flags m = (registers_at m regs)\<lparr>rg_ebp := esp, rg_flags := flags OR 0x200\<rparr>"

section \<open>Reading from tasks\<close>

text \<open>\<^verbatim>\<open>copy_string_from_task\<close>: through a kernel page that is mapped into the task for the time of the
  copy.\<close>

definition copy_string_from_task :: "ptr \<Rightarrow> ptr \<Rightarrow> ptr \<Rightarrow> int \<Rightarrow> 'a kernel_scheme \<Rightarrow> int \<times> 'a kernel_scheme" where
  "copy_string_from_task task virt physical mx s =
     (if PAGE_SIZE \<le> mx then (- EINVARG, s)
      else
        let (tmp, m) = kzalloc (kheap s) (c_uint mx) (km s);
            s = s\<lparr>km := m\<rparr>
        in if tmp = 0 then (- ENOMEM, s)
           else
             let dir = get_page_directory_entry (tk_page_directory (task_at (km s) task)) (km s);
                 old_entry = paging_get dir tmp (km s);
                 s = s\<lparr>km := snd (paging_map dir tmp tmp 7 (km s))\<rparr>;
                 s = s\<lparr>cpu := page_switch dir (cpu s)\<rparr>;
                 s = s\<lparr>km := strncpy_via (\<lambda>v. paging_get_physical_address dir v (km s)) (km s) tmp virt mx\<rparr>;
                 s = kernel_page s;
                 (res, m) = paging_set dir tmp old_entry (km s);
                 s = s\<lparr>km := m\<rparr>
             in if res < 0 then (- EIO, s\<lparr>km := kfree (kheap s) tmp (km s)\<rparr>)
                else
                  let s = s\<lparr>km := snd (strncpy (km s) physical tmp mx)\<rparr>
                  in (res, s\<lparr>km := kfree (kheap s) tmp (km s)\<rparr>))"

definition task_get_stack_item :: "ptr \<Rightarrow> int \<Rightarrow> 'a kernel_scheme \<Rightarrow> u32 \<times> 'a kernel_scheme" where
  "task_get_stack_item task index s =
     (let sp_ptr = rg_esp (tk_registers (task_at (km s) task));
          s = snd (task_page_task task s);
          result = load32 (seen (cr3 (cpu s)) (km s)) (sp_ptr + 4 * c_uint index)
      in (result, kernel_page s))"

definition task_virtual_address_to_physical :: "ptr \<Rightarrow> ptr \<Rightarrow> mem \<Rightarrow> ptr" where
  "task_virtual_address_to_physical task virtual_address m =
     paging_get_physical_address (get_page_directory_entry (tk_page_directory (task_at m task)) m) virtual_address m"

end
