(* ===== verification/Scheduler.thy ===== *)
theory Scheduler
  imports Task
begin

text \<open>
  The list of tasks of \<^verbatim>\<open>src/src/task/task.c\<close>: paths along the \<^verbatim>\<open>next\<close> fields, what a removal does to
  them, the round of \<^verbatim>\<open>task_next\<close> through the list, creation and release of tasks in the heap, and what
  the saved registers are when a task is entered again.
\<close>

section \<open>Paths\<close>

lemma task_at_simps [simp]:
  "tk_page_directory (task_at m p) = load32 m p" "tk_registers (task_at m p) = registers_at m (p + 4)"
  "tk_process (task_at m p) = load32 m (p + 52)" "tk_next (task_at m p) = load32 m (p + 56)"
  "tk_prev (task_at m p) = load32 m (p + 60)"
  by (simp_all add: task_at_def)

primrec path :: "mem \<Rightarrow> ptr \<Rightarrow> ptr list \<Rightarrow> ptr \<Rightarrow> bool" where
  "path m p [] q \<longleftrightarrow> p = q"
| "path m p (t # ts) q \<longleftrightarrow> p = t \<and> t \<noteq> 0 \<and> path m (load32 m (t + 56)) ts q"

primrec tasks_disj :: "ptr list \<Rightarrow> bool" where
  "tasks_disj [] \<longleftrightarrow> True"
| "tasks_disj (t # ts) \<longleftrightarrow> (\<forall>u \<in> set ts. disj_range t 64 u 64) \<and> tasks_disj ts"

text \<open>The tasks \<open>ts\<close> from the head to the tail, at places that do not overlap, one of them current.\<close>

definition task_queue :: "'a kernel_scheme \<Rightarrow> ptr list \<Rightarrow> bool" where
  "task_queue s ts \<longleftrightarrow> path (km s) (task_head s) ts 0 \<and> task_tail s = (if ts = [] then 0 else last ts)
     \<and> tasks_disj ts \<and> (ts \<noteq> [] \<longrightarrow> current_task s \<in> set ts)"

text \<open>The \<^verbatim>\<open>prev\<close> fields, as they should be.\<close>

primrec prevs :: "mem \<Rightarrow> ptr \<Rightarrow> ptr list \<Rightarrow> bool" where
  "prevs m p [] \<longleftrightarrow> True"
| "prevs m p (t # ts) \<longleftrightarrow> load32 m (t + 60) = p \<and> prevs m t ts"

lemma path_append: "path m p (xs @ ys) q \<longleftrightarrow> (\<exists>r. path m p xs r \<and> path m r ys q)"
  by (induction xs arbitrary: p) auto

lemma path_cong: "(\<And>t. t \<in> set ts \<Longrightarrow> load32 m' (t + 56) = load32 m (t + 56)) \<Longrightarrow> path m' p ts q \<longleftrightarrow> path m p ts q"
  by (induction ts arbitrary: p) auto

lemma prevs_cong: "(\<And>t. t \<in> set ts \<Longrightarrow> load32 m' (t + 60) = load32 m (t + 60)) \<Longrightarrow> prevs m' p ts \<longleftrightarrow> prevs m p ts"
  by (induction ts arbitrary: p) auto

lemma path_not_null: "path m p ts q \<Longrightarrow> t \<in> set ts \<Longrightarrow> t \<noteq> 0"
  by (induction ts arbitrary: p) auto

lemma path_hd: "path m p ts 0 \<Longrightarrow> p = (if ts = [] then 0 else hd ts)"
  by (cases ts) auto

lemma prevs_append: "prevs m p (xs @ ys) \<longleftrightarrow> prevs m p xs \<and> prevs m (if xs = [] then p else last xs) ys"
  by (induction xs arbitrary: p) auto

lemma tasks_disj_append:
  "tasks_disj (xs @ ys) \<longleftrightarrow> tasks_disj xs \<and> tasks_disj ys \<and> (\<forall>x \<in> set xs. \<forall>y \<in> set ys. disj_range x 64 y 64)"
  by (induction xs) auto

lemma tasks_disj_distinct: "tasks_disj ts \<Longrightarrow> distinct ts"
  by (induction ts) (auto simp: disj_range_def)

text \<open>Fields of disjoint tasks.\<close>

lemma disj_fields:
  assumes "disj_range p n q k" and "i + 4 \<le> n" and "j + 4 \<le> k" and "n \<le> 4294967295" and "k \<le> 4294967295"
  shows "disj_range (p + of_nat i) 4 (q + of_nat j) 4"
proof (rule disj_rangeI)
  fix a assume "in_range (p + of_nat i) 4 a" "in_range (q + of_nat j) 4 a"
  then have "in_range p n a" "in_range q k a"
    using assms in_range_suffix(1) [of i 4 n p a] in_range_suffix(1) [of j 4 k q a] by simp_all
  then show False using disj_rangeD [OF assms(1)] by blast
qed

lemma task_field_store:
  assumes "disj_range t 64 u 64"
  shows "load32 (store32 m (t + 56) v) (u + 56) = load32 m (u + 56)"
    and "load32 (store32 m (t + 56) v) (u + 60) = load32 m (u + 60)"
    and "load32 (store32 m (t + 60) v) (u + 56) = load32 m (u + 56)"
    and "load32 (store32 m (t + 60) v) (u + 60) = load32 m (u + 60)"
  using disj_fields [OF assms, of 56 56] disj_fields [OF assms, of 56 60]
    disj_fields [OF assms, of 60 56] disj_fields [OF assms, of 60 60]
  by (simp_all add: load32_store32_disj)

section \<open>Removal\<close>

lemma task_list_remove_eq:
  assumes "m = (if load32 (km s) (t + 60) \<noteq> 0 then store32 (km s) (load32 (km s) (t + 60) + 56) (load32 (km s) (t + 56)) else km s)"
    and "h = (if t = task_head s then load32 m (t + 56) else task_head s)"
  shows "task_list_remove t s = s\<lparr>km := m, task_head := h,
     task_tail := (if t = task_tail s then load32 m (t + 60) else task_tail s),
     current_task := (if t = current_task s then if load32 m (t + 56) = 0 then h else load32 m (t + 56) else current_task s)\<rparr>"
proof -
  let ?s1 = "s\<lparr>km := m\<rparr>"
  let ?s2 = "?s1\<lparr>task_head := h\<rparr>"
  let ?s3 = "?s2\<lparr>task_tail := (if t = task_tail s then load32 m (t + 60) else task_tail s)\<rparr>"
  have 1: "(if load32 (km s) (t + 60) \<noteq> 0 then s\<lparr>km := store32 (km s) (load32 (km s) (t + 60) + 56) (load32 (km s) (t + 56))\<rparr> else s)
     = ?s1" using assms(1) by simp
  have 2: "(if t = task_head ?s1 then ?s1\<lparr>task_head := load32 (km ?s1) (t + 56)\<rparr> else ?s1) = ?s2"
    using assms(2) by simp
  have 3: "(if t = task_tail ?s2 then ?s2\<lparr>task_tail := load32 (km ?s2) (t + 60)\<rparr> else ?s2) = ?s3" by simp
  have 4: "(if t = current_task ?s3 then ?s3\<lparr>current_task := task_get_next ?s3\<rparr> else ?s3) =
     ?s3\<lparr>current_task := (if t = current_task s then if load32 m (t + 56) = 0 then h else load32 m (t + 56) else current_task s)\<rparr>"
    by (cases "t = current_task s") (simp_all add: task_get_next_def)
  show ?thesis
    unfolding task_list_remove_def Let_def task_at_simps 1 2 3 4 ..
qed
text \<open>With the right \<^verbatim>\<open>prev\<close> field in the removed task, the rest of the list is linked as it was; its own
  fields, and the \<^verbatim>\<open>prev\<close> fields of the others, are not touched.\<close>

lemma task_list_remove_first:
  assumes q: "task_queue s (t # ys)" and p: "load32 (km s) (t + 60) = 0"
  shows "task_list_remove t s = s\<lparr>km := km s, task_head := (if ys = [] then 0 else hd ys), task_tail := (if ys = [] then 0 else last ys),
     current_task := (if t = current_task s then (if ys = [] then 0 else hd ys) else current_task s)\<rparr>"
proof -
  have path: "task_head s = t" "load32 (km s) (t + 56) = (if ys = [] then 0 else hd ys)" "t \<noteq> 0"
    using q path_hd [of "km s" "load32 (km s) (t + 56)" ys] by (auto simp: task_queue_def)
  have tail: "task_tail s = (if ys = [] then t else last ys)" "t \<notin> set ys"
    using q tasks_disj_distinct [of "t # ys"] by (auto simp: task_queue_def)
  have "(if t = task_tail s then load32 (km s) (t + 60) else task_tail s) = (if ys = [] then 0 else last ys)"
    using tail p last_in_set by auto
  then show ?thesis
    using task_list_remove_eq [of "km s" s t "load32 (km s) (t + 56)"] path(1,3) p
    unfolding path(2) [symmetric] by (simp add: if_cancel split del: if_split cong: if_cong)
qed

lemma task_list_remove_later:
  assumes q: "task_queue s (xs @ x # t # ys)" and p: "load32 (km s) (t + 60) = x"
  shows "task_list_remove t s = s\<lparr>km := store32 (km s) (x + 56) (if ys = [] then 0 else hd ys), task_head := task_head s,
     task_tail := (if ys = [] then x else last ys),
     current_task := (if t = current_task s then (if ys = [] then task_head s else hd ys) else current_task s)\<rparr>"
proof -
  define n where n: "n = (if ys = [] then 0 else hd ys)"
  obtain r where path: "path (km s) (task_head s) xs r" "r = x" "x \<noteq> 0" "t \<noteq> 0"
      "load32 (km s) (t + 56) = n" "path (km s) n ys 0"
    using q path_hd [of "km s" "load32 (km s) (t + 56)" ys] by (auto simp: task_queue_def path_append n)
  have dj: "disj_range x 64 t 64" and tn: "t \<notin> set ys" "t \<notin> set xs" "t \<noteq> x"
    and tail: "task_tail s = (if ys = [] then t else last ys)"
    using q tasks_disj_distinct [of "xs @ x # t # ys"] by (auto simp: task_queue_def tasks_disj_append)
  have head: "t \<noteq> task_head s"
    using path(1,2) tn(2,3) by (cases xs) auto
  let ?m = "store32 (km s) (x + 56) n"
  have ld: "load32 ?m (t + 56) = n" "load32 ?m (t + 60) = x"
    using path(5) p task_field_store [OF dj] by simp_all
  have tl: "(if t = task_tail s then load32 ?m (t + 60) else task_tail s) = (if ys = [] then x else last ys)"
    using tail tn(1) ld(2) last_in_set by auto
  have nz: "ys \<noteq> [] \<Longrightarrow> hd ys \<noteq> 0" using path_not_null [OF path(6)] by simp
  have "task_list_remove t s = s\<lparr>km := ?m, task_head := task_head s,
     task_tail := (if t = task_tail s then load32 ?m (t + 60) else task_tail s),
     current_task := (if t = current_task s then if load32 ?m (t + 56) = 0 then task_head s else load32 ?m (t + 56)
       else current_task s)\<rparr>"
    by (rule task_list_remove_eq) (use path(3,5) p head in simp_all)
  also have "(if load32 ?m (t + 56) = 0 then task_head s else load32 ?m (t + 56)) = (if ys = [] then task_head s else hd ys)"
    unfolding ld using nz by (simp add: n)
  finally show ?thesis unfolding tl by (simp only: n)
qed

lemma task_list_remove_queue:
  assumes "task_queue s (xs @ t # ys)" and "load32 (km s) (t + 60) = (if xs = [] then 0 else last xs)"
  shows "task_queue (task_list_remove t s) (xs @ ys) \<and>
    current_task (task_list_remove t s) = (if current_task s \<noteq> t then current_task s
        else if ys \<noteq> [] then hd ys else if xs \<noteq> [] then hd xs else 0)
    \<and> (ys \<noteq> [] \<longrightarrow> tk_prev (task_at (km (task_list_remove t s)) (hd ys)) = tk_prev (task_at (km s) (hd ys)))"
proof (cases xs rule: rev_cases)
  case Nil
  then have q: "task_queue s (t # ys)" "load32 (km s) (t + 60) = 0" using assms by simp_all
  then have "path (km s) (if ys = [] then 0 else hd ys) ys 0" "tasks_disj ys" "t \<notin> set ys" "current_task s = t \<or> current_task s \<in> set ys"
    using path_hd [of "km s" "load32 (km s) (t + 56)" ys] tasks_disj_distinct [of "t # ys"]
    by (auto simp: task_queue_def)
  then show ?thesis
    unfolding Nil task_list_remove_first [OF q] by (auto simp: task_queue_def)
next
  case (snoc zs x)
  then have q: "task_queue s (zs @ x # t # ys)" "load32 (km s) (t + 60) = x" using assms by simp_all
  let ?n = "if ys = [] then 0 else hd ys" let ?m = "store32 (km s) (x + 56) ?n"
  have p: "path (km s) (task_head s) zs x" "x \<noteq> 0" "path (km s) ?n ys 0"
    using q path_hd [of "km s" "load32 (km s) (t + 56)" ys] by (auto simp: task_queue_def path_append)
  have d: "tasks_disj (zs @ x # ys)" "\<forall>u \<in> set zs. disj_range x 64 u 64" "\<forall>u \<in> set ys. disj_range x 64 u 64"
      "\<forall>u \<in> set (zs @ ys). u \<noteq> t" "x \<noteq> t"
    using q tasks_disj_distinct [of "zs @ x # t # ys"] by (auto simp: task_queue_def tasks_disj_append disj_range_sym)
  have "path ?m (task_head s) zs x" "path ?m ?n ys 0"
    using p d(2,3) by (simp_all add: path_cong [of _ ?m "km s"] task_field_store del: if_split cong: if_cong)
  moreover have "hd zs = task_head s \<and> task_head s \<in> set zs" if "zs \<noteq> []" using p(1) that by (cases zs) auto
  moreover have "task_head s = x" if "zs = []" using p(1) that by simp
  moreover have "load32 ?m (hd ys + 60) = load32 (km s) (hd ys + 60)" if "ys \<noteq> []"
    using d(3) that by (simp add: task_field_store)
  moreover have "load32 ?m (x + 56) = ?n" by (simp add: load32_store32)
  moreover have "current_task s \<in> set zs \<or> current_task s = x \<or> current_task s = t \<or> current_task s \<in> set ys"
    using q(1) by (auto simp: task_queue_def)
  ultimately show ?thesis
    unfolding snoc task_list_remove_later [OF q]
    using d(1,4,5) p(2) by (auto simp: task_queue_def path_append hd_append last_append)
qed

text \<open>C17. Removing a task whose \<^verbatim>\<open>prev\<close> field is right unlinks exactly it: the other tasks stay in their
  order from head to tail, the current task stays unless it was the one removed, and then the next one, or the
  head after the last one, becomes current. The task behind the removed one keeps its old \<^verbatim>\<open>prev\<close> field.\<close>

theorem task_list_remove_unlinks:
  assumes "task_queue s (xs @ t # ys)" and "load32 (km s) (t + 60) = (if xs = [] then 0 else last xs)"
  shows "task_queue (task_list_remove t s) (xs @ ys)
    \<and> current_task (task_list_remove t s) = (if current_task s \<noteq> t then current_task s
        else if ys \<noteq> [] then hd ys else if xs \<noteq> [] then hd xs else 0)
    \<and> (ys \<noteq> [] \<longrightarrow> tk_prev (task_at (km (task_list_remove t s)) (hd ys)) = tk_prev (task_at (km s) (hd ys)))"
  using task_list_remove_queue [OF assms] .

text \<open>Three tasks with right links, the second one current, for the witnesses.\<close>

definition example_kernel :: kernel where
  "example_kernel = \<lparr>km = store32 (store32 (store32 (store32 (\<lambda>_. 0) 0x1038 0x2000) 0x2038 0x3000) 0x203C 0x1000) 0x303C 0x2000,
     kheap = kernel_heap,
     disk_obj = \<lparr>dk_type = 0, sector_size = 512, dk_id = 0, filesystem = 0, fs_private = 0\<rparr>,
     disk_obj_at = 0x4000, filesystems = [], file_descriptors = [], fat16_name = [],
     current_task = 0x2000, task_head = 0x1000, task_tail = 0x3000, current_process = 0, processes = replicate 12 0,
     page_directory_obj = 0, cpu = \<lparr>cr0 = 0, cr3 = 0, current_directory = 0\<rparr>, data_selector = 0\<rparr>"

lemma example_kernel_links [simp]:
  "load32 (km example_kernel) 0x1038 = 0x2000" "load32 (km example_kernel) 0x2038 = 0x3000"
  "load32 (km example_kernel) 0x3038 = 0" "load32 (km example_kernel) 0x103C = 0"
  "load32 (km example_kernel) 0x203C = 0x1000" "load32 (km example_kernel) 0x303C = 0x2000"
  by (simp_all add: example_kernel_def load32_store32 load32_store32_disj disj_range_def) (simp_all add: load32_def)

lemma example_kernel_queue: "task_queue example_kernel [0x1000, 0x2000, 0x3000]"
  by (simp add: task_queue_def disj_range_def) (simp add: example_kernel_def)

theorem task_list_remove_unlinks_witness:
  "task_queue (task_list_remove 0x2000 example_kernel) [0x1000, 0x3000]
   \<and> current_task (task_list_remove 0x2000 example_kernel) = 0x3000
   \<and> tk_prev (task_at (km (task_list_remove 0x2000 example_kernel)) 0x3000) = 0x2000"
proof -
  have "current_task example_kernel = 0x2000" by (simp add: example_kernel_def)
  then show ?thesis
    using task_list_remove_unlinks [of example_kernel "[0x1000]" "0x2000" "[0x3000]"] example_kernel_queue by simp
qed

text \<open>Because the field \<^verbatim>\<open>prev\<close> of the task behind a removed one is left as it was, removing that task next
  does not unlink it: it is still in the list, and if it was the last one the tail is the task removed first.\<close>

lemma task_list_remove_twice_keeps:
  assumes "task_queue s (xs @ t # u # ys)" and "xs \<noteq> []" and "prevs (km s) 0 (xs @ t # u # ys)"
    and s2: "s2 = task_list_remove u (task_list_remove t s)"
  shows "path (km s2) (task_head s2) (xs @ u # ys) 0 \<and> (ys = [] \<longrightarrow> task_tail s2 = t)"
proof -
  obtain zs x where x: "xs = zs @ [x]" using assms(2) by (cases xs rule: rev_cases) auto
  define s1 where "s1 = task_list_remove t s"
  have q: "task_queue s (zs @ x # t # u # ys)" "load32 (km s) (t + 60) = x" "load32 (km s) (u + 60) = t"
    using assms(1,3) by (simp_all add: x prevs_append)
  have s1: "s1 = s\<lparr>km := store32 (km s) (x + 56) u, task_head := task_head s, task_tail := last (u # ys),
      current_task := (if t = current_task s then u else current_task s)\<rparr>"
    using task_list_remove_later [OF q(1,2)] by (simp add: s1_def)
  have "task_queue s1 (xs @ u # ys)"
    using task_list_remove_queue [OF assms(1)] q(2) by (simp add: x s1_def)
  then have p1: "path (km s1) (task_head s1) (xs @ u # ys) 0" and tl: "task_tail s1 = last (u # ys)"
    by (auto simp: task_queue_def)
  have "task_head s1 = hd xs" using path_hd [OF p1] assms(2) by simp
  then have hd1: "u \<noteq> task_head s1"
    using assms(1,2) tasks_disj_distinct [of "xs @ t # u # ys"] hd_in_set [of xs] by (auto simp: task_queue_def)
  have dj: "disj_range t 64 v 64" if "v \<in> set (xs @ u # ys)" for v
    using q(1) that by (auto simp: task_queue_def tasks_disj_append x disj_range_sym)
  have xu: "disj_range x 64 u 64" using q(1) by (simp add: task_queue_def tasks_disj_append)
  have t0: "t \<noteq> 0" using q(1) by (auto simp: task_queue_def path_append)
  have pu: "load32 (km s1) (u + 60) = t" by (simp add: s1 task_field_store [OF xu] q(3))
  define n where "n = load32 (km s1) (u + 56)"
  have pu2: "load32 (store32 (km s1) (t + 56) n) (u + 60) = t" using dj [of u] by (simp add: task_field_store pu)
  have eq: "km s2 = store32 (km s1) (t + 56) n" "task_head s2 = task_head s1"
      "task_tail s2 = (if u = task_tail s1 then t else task_tail s1)"
    using task_list_remove_eq [of "store32 (km s1) (t + 56) n" s1 u "task_head s1"] pu pu2 hd1 t0
    by (simp_all add: s2 s1_def [symmetric] n_def [symmetric] cong: if_cong) auto
  have "path (km s2) (task_head s2) (xs @ u # ys) 0"
    unfolding eq by (subst path_cong [of _ _ "km s1"]) (use dj p1 in \<open>auto simp: task_field_store\<close>)
  then show ?thesis using eq(3) tl by simp
qed

section \<open>The round\<close>

text \<open>
  The contract of a round-robin scheduler: a step keeps the ring and makes the next member of the ring
  current, the first one after the last.
\<close>

locale round_robin =
  fixes step :: "'s \<Rightarrow> 's" and cur :: "'s \<Rightarrow> 't" and ring :: "'s \<Rightarrow> 't list \<Rightarrow> bool"
  assumes ring_step: "ring s ts \<Longrightarrow> ts \<noteq> [] \<Longrightarrow> ring (step s) ts"
    and ring_cur: "ring s ts \<Longrightarrow> ts \<noteq> [] \<Longrightarrow> cur s \<in> set ts"
    and cur_step: "ring s ts \<Longrightarrow> i < length ts \<Longrightarrow> cur s = ts ! i \<Longrightarrow> cur (step s) = ts ! (Suc i mod length ts)"
begin

lemma ring_steps: "ring s ts \<Longrightarrow> ts \<noteq> [] \<Longrightarrow> ring ((step ^^ k) s) ts"
  by (induction k) (auto intro: ring_step)

lemma cur_steps:
  assumes "ring s ts" and "i < length ts" and "cur s = ts ! i"
  shows "cur ((step ^^ k) s) = ts ! ((i + k) mod length ts)"
proof (induction k)
  case 0
  show ?case using assms by simp
next
  case (Suc k)
  have ts: "ts \<noteq> []" using assms(2) by auto
  then have "(i + k) mod length ts < length ts" by simp
  from cur_step [OF ring_steps [OF assms(1) ts] this Suc] show ?case by (simp add: mod_Suc_eq)
qed

text \<open>Every member is current again after at most one round.\<close>

lemma scheduled:
  assumes "ring s ts" and "t \<in> set ts"
  obtains k where "0 < k" "k \<le> length ts" "cur ((step ^^ k) s) = t"
proof -
  obtain j where j: "j < length ts" "t = ts ! j" using assms(2) by (auto simp: in_set_conv_nth)
  then have "ts \<noteq> []" by auto
  then obtain i where i: "i < length ts" "cur s = ts ! i"
    using ring_cur [OF assms(1)] by (auto simp: in_set_conv_nth)
  show thesis
  proof (cases "i < j")
    case True
    show ?thesis by (rule that [of "j - i"]) (use True i j cur_steps [OF assms(1) i] in auto)
  next
    case False
    show ?thesis by (rule that [of "length ts + j - i"]) (use False i j cur_steps [OF assms(1) i] in auto)
  qed
qed

end

text \<open>One switch: what is left of the kernel's state when \<^verbatim>\<open>task_next\<close> enters a task.\<close>

definition after_task_next :: "'a kernel_scheme \<Rightarrow> 'a kernel_scheme" where
  "after_task_next s = (case task_next s of Entered regs s' \<Rightarrow> s' | _ \<Rightarrow> s)"

lemma task_get_next_queue:
  assumes q: "task_queue s ts" and i: "i < length ts" "current_task s = ts ! i"
  shows "task_get_next s = ts ! (Suc i mod length ts)"
proof -
  obtain r where "path (km s) (task_head s) (take i ts) r" "path (km s) r (drop i ts) 0"
    using q path_append [of "km s" "task_head s" "take i ts" "drop i ts" 0] by (auto simp: task_queue_def)
  moreover have "drop i ts = ts ! i # drop (Suc i) ts" using i(1) by (simp add: Cons_nth_drop_Suc)
  ultimately have "path (km s) (load32 (km s) (current_task s + 56)) (drop (Suc i) ts) 0" by (simp add: i(2))
  note n = path_hd [OF this] path_not_null [OF this]
  have h: "task_head s = hd ts" using q i(1) path_hd [of "km s" "task_head s" ts] by (auto simp: task_queue_def)
  show ?thesis
  proof (cases "Suc i < length ts")
    case True
    then show ?thesis using n(1) n(2) [OF hd_in_set] by (simp add: task_get_next_def hd_drop_conv_nth)
  next
    case False
    then have "Suc i = length ts" using i(1) by simp
    then have "Suc i mod length ts = 0" by simp
    then show ?thesis using n(1) False i(1) h by (cases ts) (simp_all add: task_get_next_def)
  qed
qed

lemma task_next_entered:
  assumes q: "task_queue s ts" and i: "i < length ts" "current_task s = ts ! i"
  defines "t \<equiv> ts ! (Suc i mod length ts)"
  shows "task_next s = Entered (t + 4) (s\<lparr>current_task := t,
      cpu := page_switch (load32 (km s) (load32 (km s) t)) (cpu s)\<rparr>)"
proof -
  have "t \<in> set ts" using i(1) by (auto simp: t_def intro!: nth_mem mod_less_divisor)
  then have "t \<noteq> 0" using q path_not_null unfolding task_queue_def by blast
  then show ?thesis
    using task_get_next_queue [OF assms(1-3)]
    by (simp add: task_next_def task_switch_def t_def [symmetric] get_page_directory_entry_def)
qed

lemma task_queue_switch:
  "task_queue s ts \<Longrightarrow> t \<in> set ts \<Longrightarrow> task_queue (s\<lparr>current_task := t, cpu := c\<rparr>) ts"
  by (simp add: task_queue_def)

interpretation rr: round_robin after_task_next current_task task_queue
proof unfold_locales
  fix s :: "'a kernel_scheme" and ts i
  assume q: "task_queue s ts" and i: "i < length ts" "current_task s = ts ! i"
  show "current_task (after_task_next s) = ts ! (Suc i mod length ts)"
    by (simp add: after_task_next_def task_next_entered [OF q i])
next
  fix s :: "'a kernel_scheme" and ts
  assume q: "task_queue s ts" and ne: "ts \<noteq> []"
  show "current_task s \<in> set ts" using q ne by (simp add: task_queue_def)
  then obtain i where i: "i < length ts" "current_task s = ts ! i" by (auto simp: in_set_conv_nth)
  have "ts ! (Suc i mod length ts) \<in> set ts" using i(1) by (auto intro!: nth_mem mod_less_divisor)
  then show "task_queue (after_task_next s) ts"
    using q by (simp add: after_task_next_def task_next_entered [OF q i] task_queue_switch)
qed

text \<open>C16. \<^verbatim>\<open>task_next\<close> never stops while there are tasks: it enters the task behind the current one in the list, the
  head behind the tail, with its page directory loaded and the list as it was. Repeated calls visit the tasks in the
  order of the list, round after round, so every task is current within as many calls as there are tasks.\<close>

theorem task_next_round:
  assumes "task_queue s ts" and "i < length ts" and "current_task s = ts ! i"
  shows "(\<exists>s'. task_next s = Entered (ts ! (Suc i mod length ts) + 4) s' \<and> current_task s' = ts ! (Suc i mod length ts)
        \<and> task_queue s' ts \<and> km s' = km s
        \<and> cr3 (cpu s') = get_page_directory_entry (tk_page_directory (task_at (km s) (ts ! (Suc i mod length ts)))) (km s))
    \<and> (\<forall>k. current_task ((after_task_next ^^ k) s) = ts ! ((i + k) mod length ts))
    \<and> (\<forall>t\<in>set ts. \<exists>k>0. k \<le> length ts \<and> current_task ((after_task_next ^^ k) s) = t)"
proof (intro conjI allI ballI)
  have "ts ! (Suc i mod length ts) \<in> set ts" using assms(2) by (auto intro!: nth_mem mod_less_divisor)
  then show "\<exists>s'. task_next s = Entered (ts ! (Suc i mod length ts) + 4) s' \<and> current_task s' = ts ! (Suc i mod length ts)
        \<and> task_queue s' ts \<and> km s' = km s
        \<and> cr3 (cpu s') = get_page_directory_entry (tk_page_directory (task_at (km s) (ts ! (Suc i mod length ts)))) (km s)"
    using task_queue_switch [OF assms(1)]
    by (simp add: task_next_entered [OF assms] page_switch_def paging_load_directory_def get_page_directory_entry_def)
  show "current_task ((after_task_next ^^ k) s) = ts ! ((i + k) mod length ts)" for k by (rule rr.cur_steps [OF assms])
  show "\<exists>k>0. k \<le> length ts \<and> current_task ((after_task_next ^^ k) s) = t" if "t \<in> set ts" for t
    using rr.scheduled [OF assms(1) that] by metis
qed

theorem task_next_round_witness:
  "current_task (after_task_next example_kernel) = 0x3000 \<and> current_task ((after_task_next ^^ 2) example_kernel) = 0x1000"
proof -
  have "current_task example_kernel = [0x1000, 0x2000, 0x3000] ! 1" by (simp add: example_kernel_def)
  then have "current_task ((after_task_next ^^ k) example_kernel) = [0x1000, 0x2000, 0x3000] ! ((1 + k) mod 3)" for k
    using task_next_round [OF example_kernel_queue, of 1] by simp
  from this [of 1] this [of 2] show ?thesis by (simp add: numeral_2_eq_2)
qed

section \<open>Leaving and entering\<close>

lemma store_fields_other:
  assumes "\<not> in_range p 64 a" and "i + 4 \<le> 64"
  shows "store32 m (p + of_nat i) v a = m a"
  using assms in_range_suffix(1) [of i 4 64 p a] by (intro store32_other) auto

text \<open>C27. The registers of an interrupted task are kept in its structure, and nothing else is written: when it
  is entered again it has the registers of the frame, but for two. The flags are the kernel's with interrupts
  enabled, and \<^verbatim>\<open>ebp\<close> is the kernel stack pointer that \<^verbatim>\<open>task_return\<close> found, not the saved one.\<close>

theorem task_save_return:
  "task_return (task + 4) esp flags (task_save_state task frame m) =
     \<lparr>rg_edi = if_edi frame, rg_esi = if_esi frame, rg_ebp = esp, rg_ebx = if_ebx frame, rg_edx = if_edx frame,
      rg_ecx = if_ecx frame, rg_eax = if_eax frame, rg_ip = if_ip frame, rg_cs = if_cs frame,
      rg_flags = flags OR 0x200, rg_esp = if_esp frame, rg_ss = if_ss frame\<rparr>
   \<and> rg_ebp (registers_at (task_save_state task frame m) (task + 4)) = if_ebp frame
   \<and> rg_flags (registers_at (task_save_state task frame m) (task + 4)) = if_flags frame
   \<and> (\<forall>a. \<not> in_range task 64 a \<longrightarrow> task_save_state task frame m a = m a)
   \<and> tk_page_directory (task_at (task_save_state task frame m) task) = tk_page_directory (task_at m task)
   \<and> tk_process (task_at (task_save_state task frame m) task) = tk_process (task_at m task)
   \<and> tk_next (task_at (task_save_state task frame m) task) = tk_next (task_at m task)
   \<and> tk_prev (task_at (task_save_state task frame m) task) = tk_prev (task_at m task)"
proof -
  have o: "store32 m' (task + numeral k) v a = m' a"
    if "\<not> in_range task 64 a" "numeral k + 4 \<le> (64 :: nat)" for m' v a k
    using store_fields_other [OF that] by simp
  show ?thesis
    by (simp add: task_return_def task_save_state_def registers_at_def Let_def mem_simps o ac_simps)
qed

theorem task_save_return_witness:
  "task_save_state 0x1000 \<lparr>if_edi = 1, if_esi = 2, if_ebp = 3, if_reserved = 0, if_ebx = 4, if_edx = 5, if_ecx = 6, if_eax = 7,
     if_ip = 0x400010, if_cs = 0x1b, if_flags = 0x202, if_esp = 0x3FEFF0, if_ss = 0x23\<rparr> (\<lambda>_. 0) 0x2000 = 0
   \<and> rg_ip (task_return 0x1004 0x5FFFF0 2 (task_save_state 0x1000 \<lparr>if_edi = 1, if_esi = 2, if_ebp = 3, if_reserved = 0, if_ebx = 4,
     if_edx = 5, if_ecx = 6, if_eax = 7, if_ip = 0x400010, if_cs = 0x1b, if_flags = 0x202, if_esp = 0x3FEFF0, if_ss = 0x23\<rparr> (\<lambda>_. 0)))
     = 0x400010"
proof -
  let ?f = "\<lparr>if_edi = 1, if_esi = 2, if_ebp = 3, if_reserved = 0, if_ebx = 4, if_edx = 5, if_ecx = 6, if_eax = 7,
     if_ip = 0x400010, if_cs = 0x1b, if_flags = 0x202, if_esp = 0x3FEFF0, if_ss = 0x23\<rparr>"
  have "\<not> in_range 0x1000 64 (0x2000 :: ptr)" by (simp add: in_range_def)
  then show ?thesis using task_save_return [of "0x1000" "0x5FFFF0" 2 ?f "\<lambda>_. 0"] by simp
qed

end
