(* ===== verification/TaskHeap.thy ===== *)
theory TaskHeap
  imports Scheduler
begin

text \<open>
  Tasks and the heap: \<^verbatim>\<open>task_new\<close> and \<^verbatim>\<open>task_free\<close> of \<^verbatim>\<open>src/src/task/task.c\<close> with everything they allocate, the page
  directory of the new task, its first registers and its place in the list.
\<close>

section \<open>Writes outside page directories\<close>

lemma pgd_at_owned_write:
  assumes p: "pgd_at h m A ob db bs" and fr: "\<And>a. \<not> owned_byte (block_addr h) A a \<Longrightarrow> m' a = m a"
  shows "pgd_at h m' A ob db bs" and "avail h m' = avail h m" and "table_words h f m bs \<Longrightarrow> table_words h f m' bs"
proof -
  note d = pgd_atD [OF p]
  let ?S = "insert ob (insert db (set bs))"
  have none: "\<forall>b \<in> ?S. A b = None" using d(6-8) by auto
  have word: "load32 m' (block_addr h c + of_nat (4 * j)) = load32 m (block_addr h c + of_nat (4 * j))"
    if "c \<in> ?S" "j < 1024" for c j
  proof (rule load32_cong)
    fix a assume a: "in_range (block_addr h c + of_nat (4 * j)) 4 a"
    have "insert c ?S = ?S" using that(1) by auto
    then have "\<not> owned_byte (block_addr h) A a"
      using pgd_word_not_owned [of h m A c ?S a j] d(1) none a that(2) by auto
    then show "m' a = m a" by (rule fr)
  qed
  have fr': "m' a = m a" if "\<not> owned_byte (block_addr h) (own_pages A ?S) a" for a
    using fr that owned_byte_own_pages [OF _ none] by blast
  show "avail h m' = avail h m" by (rule kz.avail_write [OF d(1) fr'])
  show "pgd_at h m' A ob db bs"
    using p heap_rep_write [OF d(1) fr'] word [of ob 0] word [of db]
    by (simp add: pgd_at_def table_of_def del: of_nat_mult)
  show "table_words h f m' bs" if "table_words h f m bs"
    using that word [of "bs ! i" for i] d(9) by (simp add: table_words_def del: of_nat_mult)
qed

lemma fresh_not_owned:
  assumes rep: "heap_rep h m (A(b \<mapsto> 1))" and A: "A b = None" and a: "owned_byte (block_addr h) A a"
  shows "\<not> in_range (block_addr h b) 4096 a"
proof
  assume "in_range (block_addr h b) 4096 a"
  moreover obtain c k where c: "A c = Some k" "in_range (block_addr h c) (4096 * k) a" using a by (auto simp: owned_byte_def)
  moreover from c(1) A have "disj_range (block_addr h b) (4096 * 1) (block_addr h c) (4096 * k)"
    by (intro heap_rep_disj [OF rep]) auto
  ultimately show False using disj_rangeD by fastforce
qed

section \<open>The first registers\<close>

definition entry_point :: "mem \<Rightarrow> ptr \<Rightarrow> u32" where
  "entry_point m process = (if pr_filetype m process = 0 then e_entry (elf_header_at m (elf_header m (pr_ptr m process)))
     else LIEBE_OS_PROGRAM_VIRTUAL_ADDRESS)"

text \<open>The process and, for an ELF file, the file object and its header are in owned blocks.\<close>

definition image_owned :: "heap \<Rightarrow> mem \<Rightarrow> (nat \<rightharpoonup> nat) \<Rightarrow> ptr \<Rightarrow> bool" where
  "image_owned h m A process \<longleftrightarrow> (\<forall>a. in_range process 9364 a \<longrightarrow> owned_byte (block_addr h) A a)
     \<and> (pr_filetype m process = 0 \<longrightarrow> (\<forall>a. in_range (pr_ptr m process) 132 a \<longrightarrow> owned_byte (block_addr h) A a)
        \<and> (\<forall>a. in_range (elf_header m (pr_ptr m process)) 52 a \<longrightarrow> owned_byte (block_addr h) A a))"

lemma load32_zero: "(\<And>a. in_range p 4 a \<Longrightarrow> m a = 0) \<Longrightarrow> load32 m p = 0"
  by (simp add: load32_def in_range_4)

lemma load32_owned:
  assumes "\<forall>a. in_range p n a \<longrightarrow> P a" and "\<And>a. P a \<Longrightarrow> m' a = m a" and "i + 4 \<le> n" and "n \<le> 4294967295"
  shows "load32 m' (p + of_nat i) = load32 m (p + of_nat i)"
  by (rule load32_cong) (use assms in_range_suffix(1) [of i 4 n p] in blast)

lemma image_owned_cong:
  assumes o: "image_owned h m A process" and fr: "\<And>a. owned_byte (block_addr h) A a \<Longrightarrow> m' a = m a"
  shows "entry_point m' process = entry_point m process" and "image_owned h m' A process"
proof -
  note o = o [unfolded image_owned_def]
  have 1: "pr_ptr m' process = pr_ptr m process"
    using load32_owned [OF conjunct1 [OF o] fr, where i = 8312] by (simp add: pr_ptr_def)
  have "in_range process 9364 (process + of_nat 8308)" by (rule in_range_of_nat) simp_all
  then have 2: "pr_filetype m' process = pr_filetype m process" using o fr by (simp add: pr_filetype_def)
  have 3: "elf_header m' (pr_ptr m process) = elf_header m (pr_ptr m process)" if "pr_filetype m process = 0"
    using load32_owned [of "pr_ptr m process" 132 "owned_byte (block_addr h) A" m' m 112] fr o that
    by (simp add: elf_header_def elf_file_at_def)
  show "entry_point m' process = entry_point m process"
    using load32_owned [of "elf_header m (pr_ptr m process)" 52 "owned_byte (block_addr h) A" m' m 24] fr o 3
    by (simp add: entry_point_def 1 2 elf_header_at_def)
  show "image_owned h m' A process" using o 3 by (simp add: image_owned_def 1 2)
qed

section \<open>Creation\<close>

lemma task_words:
  assumes "m = store32 (store32 (store32 (store32 (store32 (store32 m0 task dir) (task + 32) ip) (task + 48) 0x23) (task + 36) 0x1b)
     (task + 44) 0x3FF000) (task + 52) process"
  shows "load32 m task = dir" "load32 m (task + 32) = ip" "load32 m (task + 48) = 0x23" "load32 m (task + 36) = 0x1b"
    "load32 m (task + 44) = 0x3FF000" "load32 m (task + 52) = process" "load32 m (task + 56) = load32 m0 (task + 56)"
    "load32 m (task + 60) = load32 m0 (task + 60)" "\<And>a. \<not> in_range task 64 a \<Longrightarrow> m a = m0 a"
proof -
  have o: "store32 m' (task + numeral k) v a = m' a" "store32 m' task v a = m' a"
    if "\<not> in_range task 64 a" "numeral k + 4 \<le> (64 :: nat)" for m' v a k
    using store_fields_other [OF that] store_fields_other [OF that(1), where i = 0] by simp_all
  show "\<And>a. \<not> in_range task 64 a \<Longrightarrow> m a = m0 a" by (simp add: assms o [where k = "num.One"] o)
qed (simp_all add: assms mem_simps)

text \<open>\<^verbatim>\<open>task_init\<close> on a fresh, zeroed block \<open>b\<close>.\<close>

lemma task_init_fresh:
  assumes rep: "heap_rep (kheap s) (km s) (A(b \<mapsto> 1))" and A: "A b = None" and av: "1026 \<le> avail (kheap s) (km s)"
    and own: "image_owned (kheap s) (km s) A process"
    and zero: "\<And>a. in_range (block_addr (kheap s) b) 64 a \<Longrightarrow> km s a = 0"
  obtains ob db bs m where "task_init (block_addr (kheap s) b) process s = (0, s\<lparr>km := m\<rparr>)"
    "pgd_at (kheap s) m (A(b \<mapsto> 1)) ob db bs" "table_words (kheap s) 5 m bs"
    "avail (kheap s) m + 1026 = avail (kheap s) (km s)"
    "\<And>a. owned_byte (block_addr (kheap s)) A a \<Longrightarrow> m a = km s a"
    "load32 m (block_addr (kheap s) b) = block_addr (kheap s) ob"
    "load32 m (block_addr (kheap s) b + 32) = entry_point (km s) process"
    "load32 m (block_addr (kheap s) b + 36) = 0x1b" "load32 m (block_addr (kheap s) b + 44) = 0x3FF000"
    "load32 m (block_addr (kheap s) b + 48) = 0x23" "load32 m (block_addr (kheap s) b + 52) = process"
    "load32 m (block_addr (kheap s) b + 56) = 0" "load32 m (block_addr (kheap s) b + 60) = 0"
proof -
  let ?h = "kheap s" and ?task = "block_addr (kheap s) b" and ?B = "A(b \<mapsto> 1)"
  have ms: "snd (memset (km s) ?task 0 64) = km s" using zero by (auto simp: fun_eq_iff memset_apply)
  obtain ob db bs m1 where c: "create_new_page_directory ?h 5 (km s) = (block_addr ?h ob, m1)"
      "pgd_at ?h m1 ?B ob db bs" "table_words ?h 5 m1 bs" "avail ?h m1 + 1026 = avail ?h (km s)"
      "\<And>a. owned_byte (block_addr ?h) ?B a \<Longrightarrow> m1 a = km s a"
    using create_new_page_directoryE [OF rep av, of 5] by metis
  have nz: "block_addr ?h ob \<noteq> 0"
    using heap_repD(3) [OF pgd_atD(1) [OF c(2)], of ob 1] block_addr_nonzero [OF heap_repD(1) [OF rep], of ob] by simp
  define m2 where "m2 = store32 (store32 m1 ?task (block_addr ?h ob)) (?task + 32) LIEBE_OS_PROGRAM_VIRTUAL_ADDRESS"
  define m where "m = store32 (store32 (store32 (store32 (store32 (store32 m1 ?task (block_addr ?h ob)) (?task + 32)
     (entry_point (km s) process)) (?task + 48) 0x23) (?task + 36) 0x1b) (?task + 44) 0x3FF000) (?task + 52) process"
  note w = task_words [OF m_def]
  have blk: "owned_byte (block_addr ?h) ?B a" if "in_range ?task 64 a" for a
    using owned_byteI [of ?B b 1] in_range_mono [OF that] by simp
  have notA: "\<not> in_range ?task 64 a" if a: "owned_byte (block_addr ?h) A a" for a
    using fresh_not_owned [OF rep A a] in_range_mono by fastforce
  have upd: "owned_byte (block_addr ?h) ?B a" if "owned_byte (block_addr ?h) A a" for a
    using kz.owned_byte_upd [OF A that] .
  have m2o: "m2 a = km s a" if "owned_byte (block_addr ?h) A a" for a
    using notA [OF that] c(5) [OF upd [OF that]] store_fields_other [of ?task a 0] store_fields_other [of ?task a 32]
    by (simp add: m2_def)
  have ep: "entry_point m2 process = entry_point (km s) process" by (rule image_owned_cong(1) [OF own m2o])
  have two: "store32 (store32 M p x) p y = store32 M p y" for M p x y by (auto simp: store32_def fun_eq_iff)
  have "task_init ?task process s = (0, s\<lparr>km := m\<rparr>)"
    using ep nz unfolding task_init_def ms Let_def c(1) m_def
    by (cases "pr_filetype m2 process = 0") (simp_all add: entry_point_def m2_def two)
  moreover note pgd_at_owned_write [OF c(2), of m]
  moreover have "load32 m (?task + 56) = 0" "load32 m (?task + 60) = 0"
    unfolding w(7,8) using c(5) blk zero in_range_suffix(1) [of 56 4 64 ?task] in_range_suffix(1) [of 60 4 64 ?task]
    by (auto intro!: load32_zero)
  ultimately show thesis using that w c(3,4,5) blk upd notA by metis
qed

text \<open>The tasks of the list are blocks of the heap.\<close>

definition tasks_owned :: "heap \<Rightarrow> (nat \<rightharpoonup> nat) \<Rightarrow> ptr list \<Rightarrow> bool" where
  "tasks_owned h A ts \<longleftrightarrow> (\<forall>t \<in> set ts. \<exists>b. A b = Some 1 \<and> t = block_addr h b)"

lemma tasks_owned_byte: "tasks_owned h A ts \<Longrightarrow> t \<in> set ts \<Longrightarrow> in_range t 64 a \<Longrightarrow> owned_byte (block_addr h) A a"
  using owned_byteI [of A _ 1] in_range_mono [of t 64 a "4096 * 1"] unfolding tasks_owned_def by fastforce

lemma tasks_owned_word:
  assumes "tasks_owned h A ts" and "t \<in> set ts" and "\<And>a. owned_byte (block_addr h) A a \<Longrightarrow> m' a = m a"
    and "i + 4 \<le> 64"
  shows "load32 m' (t + of_nat i) = load32 m (t + of_nat i)"
  by (rule load32_owned [where n = 64]) (use assms tasks_owned_byte in auto)

lemma tasks_owned_disj:
  assumes "heap_rep h m (A(b \<mapsto> 1))" and "A b = None" and "tasks_owned h A ts" and "t \<in> set ts"
  shows "disj_range t 64 (block_addr h b) 64"
proof -
  obtain c where c: "A c = Some 1" "t = block_addr h c" using assms(3,4) by (auto simp: tasks_owned_def)
  then have "disj_range (block_addr h c) (4096 * 1) (block_addr h b) (4096 * 1)"
    using assms(2) by (intro heap_rep_disj [OF assms(1)]) auto
  then show ?thesis unfolding c(2) by (rule disj_range_mono) simp_all
qed

text \<open>A task \<open>t\<close> linked behind the last task of a list.\<close>

lemma task_link:
  fixes m us u t head
  defines "m' \<equiv> store32 (store32 m (u + 56) t) (t + 60) u"
  assumes dj: "tasks_disj ((us @ [u]) @ [t])" and q: "path m head (us @ [u]) 0" "prevs m 0 (us @ [u])"
    and t: "t \<noteq> 0" "load32 m (t + 56) = 0"
  shows "path m' head ((us @ [u]) @ [t]) 0" and "prevs m' 0 ((us @ [u]) @ [t])"
    and "k + 4 \<le> 60 \<Longrightarrow> load32 m' (t + of_nat k) = load32 m (t + of_nat k)"
    and "\<not> in_range (u + 56) 4 a \<Longrightarrow> \<not> in_range (t + 60) 4 a \<Longrightarrow> m' a = m a"
proof -
  have u: "disj_range u 64 t 64" using dj by (auto simp: tasks_disj_append)
  have d: "disj_range u 64 v 64" "disj_range v 64 t 64" if "v \<in> set us" for v
    using dj that by (auto simp: tasks_disj_append disj_range_sym)
  have p: "path m head us u" "u \<noteq> 0" "prevs m 0 us" "load32 m (u + 60) = (if us = [] then 0 else last us)"
    using q by (auto simp: path_append prevs_append)
  show at: "load32 m' (t + of_nat k) = load32 m (t + of_nat k)" if "k + 4 \<le> 60" for k
    using disj_fields [OF u, of 56 k] field_disj [of 60 k t] that
    by (simp add: m'_def load32_store32_disj)
  have us: "load32 m' (v + 56) = load32 m (v + 56)" "load32 m' (v + 60) = load32 m (v + 60)" if "v \<in> set us" for v
    using d [OF that] by (simp_all add: m'_def task_field_store disj_range_sym)
  have uw: "load32 m' (u + 56) = t" "load32 m' (u + 60) = load32 m (u + 60)" "load32 m' (t + 60) = u"
    using u by (simp_all add: m'_def task_field_store disj_range_sym mem_simps)
  show "m' a = m a" if "\<not> in_range (u + 56) 4 a" "\<not> in_range (t + 60) 4 a"
    using that by (simp add: m'_def store32_other)
  show "path m' head ((us @ [u]) @ [t]) 0"
    using p path_cong [of us m' m] us(1) uw(1) at [of 56] t by (simp add: path_append)
  show "prevs m' 0 ((us @ [u]) @ [t])"
    using p prevs_cong [of us m' m] us(2) uw(2,3) by (simp add: prevs_append)
qed

lemma task_newE:
  assumes rep: "heap_rep (kheap s) (km s) A" and av: "1027 \<le> avail (kheap s) (km s)"
    and own: "image_owned (kheap s) (km s) A process" "tasks_owned (kheap s) A ts"
    and q: "task_queue s ts" "prevs (km s) 0 ts"
  obtains b ob db bs m where
    "task_new process s = (block_addr (kheap s) b, s\<lparr>km := m, task_head := (if ts = [] then block_addr (kheap s) b else task_head s),
       task_tail := block_addr (kheap s) b, current_task := (if ts = [] then block_addr (kheap s) b else current_task s)\<rparr>)"
    "A b = None" "pgd_at (kheap s) m (A(b \<mapsto> 1)) ob db bs" "table_words (kheap s) 5 m bs"
    "avail (kheap s) m + 1027 = avail (kheap s) (km s)"
    "load32 m (block_addr (kheap s) b) = block_addr (kheap s) ob"
    "load32 m (block_addr (kheap s) b + 32) = entry_point (km s) process"
    "load32 m (block_addr (kheap s) b + 36) = 0x1b" "load32 m (block_addr (kheap s) b + 44) = 0x3FF000"
    "load32 m (block_addr (kheap s) b + 48) = 0x23" "load32 m (block_addr (kheap s) b + 52) = process"
    "path m (if ts = [] then block_addr (kheap s) b else task_head s) (ts @ [block_addr (kheap s) b]) 0"
    "prevs m 0 (ts @ [block_addr (kheap s) b])" "tasks_disj (ts @ [block_addr (kheap s) b])"
    "\<And>a. owned_byte (block_addr (kheap s)) A a \<Longrightarrow> ts = [] \<or> \<not> in_range (last ts + 56) 4 a \<Longrightarrow> m a = km s a"
proof -
  let ?h = "kheap s"
  have n: "0 < avail ?h (km s)" "0 < unat (64 :: u32)" "unat (64 :: u32) \<le> 4096" using av by simp_all
  obtain b where b: "fst (kzalloc ?h 64 (km s)) = block_addr ?h b" "A b = None" "block_addr ?h b \<noteq> 0"
      "heap_rep ?h (snd (kzalloc ?h 64 (km s))) (A(b \<mapsto> 1))" "Suc (avail ?h (snd (kzalloc ?h 64 (km s)))) = avail ?h (km s)"
      "\<And>a. owned_byte (block_addr ?h) A a \<Longrightarrow> snd (kzalloc ?h 64 (km s)) a = km s a"
      "\<And>a. in_range (block_addr ?h b) (unat (64 :: u32)) a \<Longrightarrow> snd (kzalloc ?h 64 (km s)) a = 0"
    using kz.alloc_page [OF rep n] by metis
  define s1 where "s1 = s\<lparr>km := snd (kzalloc ?h 64 (km s))\<rparr>"
  let ?t = "block_addr ?h b"
  have img: "image_owned ?h (km s1) A process" and ep: "entry_point (km s1) process = entry_point (km s) process"
    using image_owned_cong [OF own(1) b(6)] by (simp_all add: s1_def)
  obtain ob db bs m where i: "task_init ?t process s1 = (0, s1\<lparr>km := m\<rparr>)"
    "pgd_at ?h m (A(b \<mapsto> 1)) ob db bs" "table_words ?h 5 m bs" "avail ?h m + 1026 = avail ?h (km s1)"
    "\<And>a. owned_byte (block_addr ?h) A a \<Longrightarrow> m a = km s1 a" "load32 m ?t = block_addr ?h ob"
    "load32 m (?t + 32) = entry_point (km s) process" "load32 m (?t + 36) = 0x1b" "load32 m (?t + 44) = 0x3FF000"
    "load32 m (?t + 48) = 0x23" "load32 m (?t + 52) = process" "load32 m (?t + 56) = 0" "load32 m (?t + 60) = 0"
    using task_init_fresh [of s1 A b process] b av img ep by (simp add: s1_def) metis
  have old: "m a = km s a" if "owned_byte (block_addr ?h) A a" for a using i(5) b(6) that by (simp add: s1_def)
  have dj: "disj_range t 64 ?t 64" if "t \<in> set ts" for t by (rule tasks_owned_disj [OF b(4,2) own(2) that])
  have path: "path m (task_head s) ts 0" "prevs m 0 ts" "tasks_disj (ts @ [?t])" "task_tail s = (if ts = [] then 0 else last ts)"
    using q dj tasks_owned_word [OF own(2) _ old, where i = 56] tasks_owned_word [OF own(2) _ old, where i = 60]
    by (auto simp: task_queue_def tasks_disj_append path_cong [of ts m "km s"] prevs_cong [of ts m "km s"])
  have new: "task_new process s = (if task_head s = 0 then (?t, s\<lparr>km := m, task_head := ?t, task_tail := ?t, current_task := ?t\<rparr>)
      else (?t, s\<lparr>km := store32 (store32 m (task_tail s + 56) ?t) (?t + 60) (task_tail s), task_tail := ?t\<rparr>))"
    using b(1,3) i(1) by (simp add: task_new_def split_beta s1_def)
  show thesis
  proof (cases ts rule: rev_cases)
    case Nil
    then have "task_head s = 0" using path(1) by simp
    then show ?thesis
      by (intro that [of b m ob db bs]) (use Nil new b i old in \<open>auto simp: s1_def\<close>)
  next
    case (snoc us u)
    define m2 where "m2 = store32 (store32 m (u + 56) ?t) (?t + 60) u"
    have u: "u \<in> set ts" "last ts = u" using snoc by simp_all
    have h0: "task_head s \<noteq> 0" using path(1) snoc by (cases us) auto
    note link = task_link [OF path(3) [unfolded snoc] path(1,2) [unfolded snoc] b(3) i(12), folded m2_def snoc]
    have "owned_byte (block_addr ?h) (A(b \<mapsto> 1)) a" if "in_range (u + 56) 4 a \<or> in_range (?t + 60) 4 a" for a
      using that in_range_suffix(1) [of 56 4 64 u a] in_range_suffix(1) [of 60 4 64 ?t a]
        tasks_owned_byte [OF own(2) u(1)] kz.owned_byte_upd [where A = A, OF b(2)] owned_byteI [of "A(b \<mapsto> 1)" b 1]
        in_range_mono [of ?t 64 a "4096 * 1"] by auto
    then have own2: "m2 a = m a" if "\<not> owned_byte (block_addr ?h) (A(b \<mapsto> 1)) a" for a using that link(4) by blast
    have notA: "\<not> in_range (?t + 60) 4 a" if a: "owned_byte (block_addr ?h) A a" for a
      using fresh_not_owned [OF b(4,2) a] in_range_suffix(1) [of 60 4 4096 ?t a] by auto
    show ?thesis
      by (intro that [of b m2 ob db bs])
        (use new h0 path(3,4) u(2) b i old link(1,2,4) notA link(3) [of 0] link(3) [of 32] link(3) [of 36] link(3) [of 44]
           link(3) [of 48] link(3) [of 52] pgd_at_owned_write [OF i(2) own2] in \<open>auto simp: s1_def snoc m2_def [symmetric]\<close>)
  qed
qed

text \<open>C11. A new task is a fresh block behind the last task of the list, current if it is the only one; it starts
  in user mode at the entry point of its program with its own page directory, which maps every address to
  itself. 1027 blocks are taken, and of what was owned only the \<^verbatim>\<open>next\<close> field of the last task is written.\<close>

theorem task_new_appends:
  assumes "heap_rep (kheap s) (km s) A" and "1027 \<le> avail (kheap s) (km s)"
    and "image_owned (kheap s) (km s) A process" and "tasks_owned (kheap s) A ts"
    and "task_queue s ts" and "prevs (km s) 0 ts"
  shows "\<exists>b task s'. task_new process s = (task, s') \<and> task = block_addr (kheap s) b \<and> A b = None
    \<and> task_queue s' (ts @ [task]) \<and> prevs (km s') 0 (ts @ [task])
    \<and> current_task s' = (if ts = [] then task else current_task s)
    \<and> tk_process (task_at (km s') task) = process
    \<and> rg_ip (tk_registers (task_at (km s') task)) = entry_point (km s) process
    \<and> rg_cs (tk_registers (task_at (km s') task)) = USER_CODE_SEGMENT
    \<and> rg_ss (tk_registers (task_at (km s') task)) = USER_DATA_SEGMENT
    \<and> rg_esp (tk_registers (task_at (km s') task)) = LIEBE_OS_PROGRAM_VIRTUAL_STACK_ADDRESS_START
    \<and> (\<forall>v. task_virtual_address_to_physical task v (km s') = v)
    \<and> avail (kheap s) (km s') + 1027 = avail (kheap s) (km s)
    \<and> (\<forall>a. owned_byte (block_addr (kheap s)) A a \<longrightarrow> ts = [] \<or> \<not> in_range (last ts + 56) 4 a \<longrightarrow> km s' a = km s a)"
proof (rule task_newE [OF assms])
  fix b ob db bs m
  let ?t = "block_addr (kheap s) b"
  let ?s' = "s\<lparr>km := m, task_head := (if ts = [] then ?t else task_head s), task_tail := ?t,
    current_task := (if ts = [] then ?t else current_task s)\<rparr>"
  assume n: "task_new process s = (?t, ?s')" "A b = None" "pgd_at (kheap s) m (A(b \<mapsto> 1)) ob db bs"
    "table_words (kheap s) 5 m bs" "avail (kheap s) m + 1027 = avail (kheap s) (km s)"
    "load32 m ?t = block_addr (kheap s) ob" "load32 m (?t + 32) = entry_point (km s) process"
    "load32 m (?t + 36) = 0x1b" "load32 m (?t + 44) = 0x3FF000" "load32 m (?t + 48) = 0x23" "load32 m (?t + 52) = process"
    "path m (if ts = [] then ?t else task_head s) (ts @ [?t]) 0" "prevs m 0 (ts @ [?t])" "tasks_disj (ts @ [?t])"
    "\<And>a. owned_byte (block_addr (kheap s)) A a \<Longrightarrow> ts = [] \<or> \<not> in_range (last ts + 56) 4 a \<Longrightarrow> m a = km s a"
  have q: "task_queue ?s' (ts @ [?t])" using n(12,14) assms(5) by (auto simp: task_queue_def)
  have "paging_get (block_addr (kheap s) db) v m = v OR ucast (5 :: u8)" if "is_page_aligned v" for v
    using table_words_get [OF n(3,4) that] .
  note get = this [OF lower_page_aligned]
  have tr: "paging_get_physical_address (block_addr (kheap s) db) v m = v" for v
    using physical_of_entry [OF lower_page_aligned ucast_flags_lt(2) get] by simp
  have "task_virtual_address_to_physical ?t v m = v" for v
    using tr pgd_atD(10) [OF n(3)] n(6)
    by (simp add: task_virtual_address_to_physical_def get_page_directory_entry_def)
  then show ?thesis
    by (intro exI [of _ b] exI [of _ ?t] exI [of _ ?s'] conjI q n(1) refl n(2))
      (use n in \<open>auto simp: registers_at_def algebra_simps\<close>)
qed

section \<open>Release\<close>

text \<open>Releasing the last task of the list, with its page directory as it was when it was made or after mappings.\<close>

lemma task_free_last:
  assumes p: "pgd_at (kheap s) (km s) (A(b \<mapsto> 1)) ob db bs" and A: "A b = None" and t: "t = block_addr (kheap s) b"
    and ob: "load32 (km s) t = block_addr (kheap s) ob" and own: "tasks_owned (kheap s) A ts"
    and q: "task_queue s (ts @ [t])" "prevs (km s) 0 (ts @ [t])"
  defines "s' \<equiv> snd (task_free t s)"
  shows "heap_rep (kheap s) (km s') A" "avail (kheap s) (km s') = avail (kheap s) (km s) + 1027"
    "task_queue s' ts" "prevs (km s') 0 ts" "current_task s = t \<or> current_task s' = current_task s"
    "owned_byte (block_addr (kheap s)) A a \<Longrightarrow> ts = [] \<or> \<not> in_range (last ts + 56) 4 a \<Longrightarrow> km s' a = km s a"
    "kheap s' = kheap s"
proof -
  let ?h = "kheap s" and ?B = "A(b \<mapsto> 1)"
  define m1 where "m1 = paging_free_4gb ?h (block_addr ?h ob) (km s)"
  define s1 where "s1 = s\<lparr>km := m1\<rparr>"
  define s2 where "s2 = task_list_remove t s1"
  have r1: "heap_rep ?h m1 ?B" "avail ?h m1 = avail ?h (km s) + 1026"
    using paging_free_4gb_rep(1,2) [OF p] by (simp_all add: m1_def)
  have fr1: "m1 a = km s a" if "owned_byte (block_addr ?h) ?B a" for a
    using paging_free_4gb_rep(3) [OF p] owned_not_table [OF r1(1) that] by (simp add: m1_def)
  have own2: "tasks_owned ?h ?B (ts @ [t])" using own A t by (auto simp: tasks_owned_def)
  have w: "load32 m1 (v + 56) = load32 (km s) (v + 56)" "load32 m1 (v + 60) = load32 (km s) (v + 60)" if "v \<in> set (ts @ [t])" for v
    using tasks_owned_word [OF own2 that fr1, where i = 56] tasks_owned_word [OF own2 that fr1, where i = 60] by simp_all
  have q1: "task_queue s1 (ts @ [t])" "prevs (km s1) 0 (ts @ [t])"
    using q path_cong [of "ts @ [t]" m1 "km s"] prevs_cong [of "ts @ [t]" m1 "km s"] w
    by (simp_all add: task_queue_def s1_def)
  then have pv: "load32 (km s1) (t + 60) = (if ts = [] then 0 else last ts)" by (simp add: prevs_append)
  have s2: "task_queue s2 ts" "current_task s1 = t \<or> current_task s2 = current_task s1"
    using task_list_remove_queue [OF q1(1) pv] by (simp_all add: s2_def)
  have km2: "km s2 = (if ts = [] then m1 else store32 m1 (last ts + 56) 0)"
  proof (cases ts rule: rev_cases)
    case Nil
    then show ?thesis using task_list_remove_first [of s1 t "[]"] q1 pv by (simp add: s2_def s1_def)
  next
    case (snoc us u)
    then show ?thesis using task_list_remove_later [of s1 us u t "[]"] q1 pv by (simp add: s2_def s1_def)
  qed
  have fr2: "km s2 a = m1 a" if "ts = [] \<or> \<not> in_range (last ts + 56) 4 a" for a
    using that by (auto simp: km2 store32_other)
  have "owned_byte (block_addr ?h) A a" if "ts \<noteq> []" "in_range (last ts + 56) 4 a" for a
    using tasks_owned_byte [OF own last_in_set [OF that(1)]] in_range_suffix(1) [of 56 4 64 "last ts" a] that(2) by simp
  then have out: "km s2 a = m1 a" if "\<not> owned_byte (block_addr ?h) ?B a" for a
    using that fr2 kz.owned_byte_upd [where A = A, OF A] by blast
  have r2: "heap_rep ?h (km s2) ?B" "avail ?h (km s2) = avail ?h m1"
    using heap_rep_write [OF r1(1) out] kz.avail_write [OF r1(1) out] by simp_all
  have kh: "kheap s2 = kheap s" using task_list_remove_eq [OF refl refl, of t s1] by (simp add: s2_def s1_def)
  have s': "s' = s2\<lparr>km := kfree ?h t (km s2)\<rparr>"
    by (simp add: s'_def task_free_def Let_def ob m1_def [symmetric] s1_def [symmetric] s2_def [symmetric] kh)
  have fr3: "km s' a = km s2 a" if "owned_byte (block_addr ?h) ?B a" for a
    using kz.release_frame [OF r2(1), of b 1 a] that by (simp add: s' t)
  have w3: "load32 (km s') (v + 56) = load32 (km s2) (v + 56)" "load32 (km s') (v + 60) = load32 (km s2) (v + 60)" if "v \<in> set ts" for v
    using tasks_owned_word [OF own2 _ fr3, where t = v and i = 56] tasks_owned_word [OF own2 _ fr3, where t = v and i = 60] that by simp_all
  show "heap_rep ?h (km s') A" using kz.release_rep [OF r2(1), of b 1] A by (simp add: s' t fun_upd_idem)
  show "avail ?h (km s') = avail ?h (km s) + 1027"
    using kz.avail_release [OF r2(1), of b 1] r2(2) r1(2) by (simp add: s' t)
  show "task_queue s' ts" using s2(1) w3(1) path_cong [of ts "km s'" "km s2"] by (simp add: task_queue_def s')
  show "current_task s = t \<or> current_task s' = current_task s" using s2(2) by (simp add: s' s1_def)
  show "kheap s' = kheap s" by (simp add: s' kh)
  show "km s' a = km s a" if "owned_byte (block_addr ?h) A a" "ts = [] \<or> \<not> in_range (last ts + 56) 4 a"
    using fr3 fr2 fr1 that kz.owned_byte_upd [where A = A, OF A] by simp
  have "load32 (km s2) (v + 60) = load32 m1 (v + 60)" if "v \<in> set ts" for v
    using that q1(1) by (cases ts rule: rev_cases)
      (auto simp: km2 task_queue_def tasks_disj_append disj_range_sym [of _ _ v] task_field_store mem_simps)
  then show "prevs (km s') 0 ts" using q1(2) w3(2) prevs_cong [of ts "km s'" m1] by (simp add: s1_def prevs_append)
qed

text \<open>C18. Releasing a task that was just made gives back every block it took and leaves the list as it was.\<close>

theorem task_new_free:
  assumes "heap_rep (kheap s) (km s) A" and "1027 \<le> avail (kheap s) (km s)"
    and "image_owned (kheap s) (km s) A process" and "tasks_owned (kheap s) A ts"
    and "task_queue s ts" and "prevs (km s) 0 ts" and "task_new process s = (task, s1)" and "task_free task s1 = (res, s2)"
  shows "res = 0 \<and> heap_rep (kheap s) (km s2) A \<and> avail (kheap s) (km s2) = avail (kheap s) (km s)
    \<and> task_queue s2 ts \<and> prevs (km s2) 0 ts \<and> (ts \<noteq> [] \<longrightarrow> current_task s2 = current_task s)
    \<and> (\<forall>a. owned_byte (block_addr (kheap s)) A a \<longrightarrow> ts = [] \<or> \<not> in_range (last ts + 56) 4 a \<longrightarrow> km s2 a = km s a)"
proof (rule task_newE [OF assms(1-6)])
  fix b ob db bs m
  let ?t = "block_addr (kheap s) b"
  let ?s' = "s\<lparr>km := m, task_head := (if ts = [] then ?t else task_head s), task_tail := ?t,
    current_task := (if ts = [] then ?t else current_task s)\<rparr>"
  assume n: "task_new process s = (?t, ?s')" "A b = None" "pgd_at (kheap s) m (A(b \<mapsto> 1)) ob db bs"
    "avail (kheap s) m + 1027 = avail (kheap s) (km s)" "load32 m ?t = block_addr (kheap s) ob"
    "path m (if ts = [] then ?t else task_head s) (ts @ [?t]) 0" "prevs m 0 (ts @ [?t])" "tasks_disj (ts @ [?t])"
    "\<And>a. owned_byte (block_addr (kheap s)) A a \<Longrightarrow> ts = [] \<or> \<not> in_range (last ts + 56) 4 a \<Longrightarrow> m a = km s a"
  have e: "task = ?t" "s1 = ?s'" using n(1) assms(7) by simp_all
  have q: "task_queue s1 (ts @ [task])" using n(6,8) assms(5) by (auto simp: task_queue_def e)
  have s2: "s2 = snd (task_free task s1)" "res = 0" using assms(8) by (auto simp: task_free_def Let_def)
  have c: "current_task s1 \<noteq> task" if "ts \<noteq> []"
    using that assms(5) n(8) tasks_disj_distinct [of "ts @ [?t]"] by (auto simp: e task_queue_def)
  note f = task_free_last [of s1 A b ob db bs task ts, folded s2(1)]
  show ?thesis using f n assms(4) q c s2(2) by (auto simp: e)
qed

text \<open>A process of three blocks in an otherwise empty kernel heap.\<close>

definition lone_process :: "ptr \<times> mem" where
  "lone_process = (let (p, m) = kzalloc kernel_heap 9364 (\<lambda>_. 0) in (p, m(p + 8308 := 1)))"

definition lone_kernel :: kernel where
  "lone_kernel = example_kernel\<lparr>km := snd lone_process, task_head := 0, task_tail := 0, current_task := 0\<rparr>"

lemma lone_kernel_heap:
  obtains A where "heap_rep (kheap lone_kernel) (km lone_kernel) A" "1027 \<le> avail (kheap lone_kernel) (km lone_kernel)"
    "image_owned (kheap lone_kernel) (km lone_kernel) A (fst lone_process)"
    "\<And>a. in_range (fst lone_process) 9364 a \<Longrightarrow> a \<noteq> fst lone_process + 8308 \<Longrightarrow> km lone_kernel a = 0"
    "avail (kheap lone_kernel) (km lone_kernel) = 25597"
proof -
  let ?r = "kzalloc kernel_heap 9364 (\<lambda>_. 0)"
  have b3: "blocks_for 9364 = 3" by (simp add: blocks_for_def)
  have fits: "heap_fits kernel_heap (\<lambda>_. 0) 9364"
    by (auto simp: heap_fits_def b3 free_run_def taken_def blk_def intro!: exI [of _ 0])
  obtain b where b: "fst ?r = block_addr kernel_heap b" "heap_rep kernel_heap (snd ?r) [b \<mapsto> 3]"
      "\<And>a. in_range (block_addr kernel_heap b) (unat (9364 :: u32)) a \<Longrightarrow> snd ?r a = 0"
    using kzalloc_runE [OF kernel_heap_rep_zero fits] unfolding b3 by metis
  define m where "m = (snd ?r)(fst ?r + 8308 := 1)"
  have own: "owned_byte (block_addr kernel_heap) [b \<mapsto> 3] a" if "in_range (fst ?r) 9364 a" for a
    using owned_byteI [of "[b \<mapsto> 3]" b 3] in_range_mono [OF that, of 12288] by (simp add: b)
  have "in_range (fst ?r) 9364 (fst ?r + of_nat 8308)" by (rule in_range_of_nat) simp_all
  then have out: "m a = snd ?r a" if "\<not> owned_byte (block_addr kernel_heap) [b \<mapsto> 3] a" for a
    using own that by (auto simp: m_def)
  have rep: "heap_rep kernel_heap m [b \<mapsto> 3]" by (rule heap_rep_write [OF b(2) out])
  have "avail kernel_heap (\<lambda>_. 0) = avail kernel_heap (snd ?r) + 3"
    using avail_after [OF kernel_heap_rep_zero b(2)] by simp
  then have "avail kernel_heap m = 25597"
    using kz.avail_write [OF b(2) out] by (simp add: kernel_heap_avail_zero)
  moreover have "km lone_kernel = m" "kheap lone_kernel = kernel_heap" "fst lone_process = fst ?r"
    by (simp_all add: lone_kernel_def lone_process_def example_kernel_def split_beta m_def)
  moreover have "image_owned kernel_heap m [b \<mapsto> 3] (fst ?r)"
    using own by (simp add: image_owned_def pr_filetype_def m_def)
  moreover have "m a = 0" if "in_range (fst ?r) 9364 a" "a \<noteq> fst ?r + 8308" for a
    using b(1,3) that by (simp add: m_def)
  ultimately show thesis using that rep by simp
qed

lemma lone_kernel_queue: "task_queue lone_kernel []" "prevs (km lone_kernel) 0 []" "tasks_owned (kheap lone_kernel) A []"
  by (simp_all add: task_queue_def tasks_owned_def lone_kernel_def)

theorem task_new_appends_witness:
  "\<exists>task s'. task_new (fst lone_process) lone_kernel = (task, s') \<and> task_queue s' [task]
     \<and> rg_ip (tk_registers (task_at (km s') task)) = 0x400000 \<and> rg_cs (tk_registers (task_at (km s') task)) = 0x1b"
proof -
  have ep: "entry_point (km lone_kernel) (fst lone_process) = 0x400000"
    by (simp add: entry_point_def pr_filetype_def lone_kernel_def lone_process_def split_beta)
  show ?thesis
  proof (rule lone_kernel_heap)
    fix A assume "heap_rep (kheap lone_kernel) (km lone_kernel) A" "1027 \<le> avail (kheap lone_kernel) (km lone_kernel)"
      "image_owned (kheap lone_kernel) (km lone_kernel) A (fst lone_process)"
    from task_new_appends [OF this lone_kernel_queue(3) lone_kernel_queue(1,2)] show ?thesis
      unfolding ep by auto
  qed
qed

theorem task_new_free_witness:
  "case task_new (fst lone_process) lone_kernel of (task, s1) \<Rightarrow>
     avail kernel_heap (km (snd (task_free task s1))) = avail kernel_heap (km lone_kernel)"
proof (rule lone_kernel_heap)
  fix A assume a: "heap_rep (kheap lone_kernel) (km lone_kernel) A" "1027 \<le> avail (kheap lone_kernel) (km lone_kernel)"
    "image_owned (kheap lone_kernel) (km lone_kernel) A (fst lone_process)"
  obtain task s1 where n: "task_new (fst lone_process) lone_kernel = (task, s1)" by force
  obtain res s2 where f: "task_free task s1 = (res, s2)" by force
  have "kheap lone_kernel = kernel_heap" by (simp add: lone_kernel_def example_kernel_def)
  then show ?thesis using task_new_free [OF a lone_kernel_queue(3) lone_kernel_queue(1,2) n f] by (simp add: n f)
qed

end
