(* ===== verification/Process.thy ===== *)
theory Process
  imports TaskHeap
begin

text \<open>
  \<^verbatim>\<open>src/src/task/process.c\<close> and \<^verbatim>\<open>process.h\<close>: processes in kernel memory, loading of programs into them, the memory
  and the arguments they are given, and their end. \<open>None\<close> stands for a call that does not return.
\<close>

section \<open>Structures\<close>

text \<open>\<^verbatim>\<open>struct process\<close>, 9364 bytes.\<close>

record process_allocation =
  al_ptr :: ptr
  al_size :: u32

record process =
  ps_id :: u16
  ps_filename :: "u8 list"
  ps_task :: ptr
  ps_allocations :: "nat \<Rightarrow> process_allocation"
  ps_filetype :: u8
  ps_ptr :: ptr
  ps_stack :: ptr
  ps_size :: u32
  kb_buffer :: "u8 list"
  kb_head :: int
  kb_tail :: int
  ps_argc :: int
  ps_argv :: ptr

definition process_at :: "mem \<Rightarrow> ptr \<Rightarrow> process" where
  "process_at m p = \<lparr>ps_id = load16 m p, ps_filename = bytes_at m (p + 2) 108, ps_task = load32 m (p + 112),
     ps_allocations = (\<lambda>i. \<lparr>al_ptr = load32 m (p + 116 + of_nat (8 * i)), al_size = load32 m (p + 116 + of_nat (8 * i) + 4)\<rparr>),
     ps_filetype = pr_filetype m p, ps_ptr = pr_ptr m p, ps_stack = load32 m (p + 8316), ps_size = load32 m (p + 8320),
     kb_buffer = bytes_at m (p + 8324) 1024, kb_head = c_int (load32 m (p + 9348)), kb_tail = c_int (load32 m (p + 9352)),
     ps_argc = c_int (load32 m (p + 9356)), ps_argv = load32 m (p + 9360)\<rparr>"

lemma process_at_simps [simp]:
  "ps_id (process_at m p) = load16 m p" "ps_task (process_at m p) = load32 m (p + 112)"
  "al_ptr (ps_allocations (process_at m p) i) = load32 m (p + 116 + of_nat (8 * i))"
  "al_size (ps_allocations (process_at m p) i) = load32 m (p + 116 + of_nat (8 * i) + 4)"
  "ps_filetype (process_at m p) = m (p + 8308)" "ps_ptr (process_at m p) = load32 m (p + 8312)"
  "ps_stack (process_at m p) = load32 m (p + 8316)" "ps_size (process_at m p) = load32 m (p + 8320)"
  "kb_head (process_at m p) = c_int (load32 m (p + 9348))" "kb_tail (process_at m p) = c_int (load32 m (p + 9352))"
  "ps_argc (process_at m p) = c_int (load32 m (p + 9356))" "ps_argv (process_at m p) = load32 m (p + 9360)"
  by (simp_all add: process_at_def pr_filetype_def pr_ptr_def)

text \<open>\<^verbatim>\<open>struct command_argument\<close>: 512 characters and the next argument.\<close>

definition ca_next :: "mem \<Rightarrow> ptr \<Rightarrow> ptr" where
  "ca_next m p = load32 m (p + 512)"

abbreviation (input) PROCESS_FILETYPE_ELF :: u8 where "PROCESS_FILETYPE_ELF \<equiv> 0"
abbreviation (input) PROCESS_FILETYPE_BINARY :: u8 where "PROCESS_FILETYPE_BINARY \<equiv> 1"
abbreviation (input) LIEBE_OS_MAX_PROCESSES :: "'a::numeral" where "LIEBE_OS_MAX_PROCESSES \<equiv> 12"
abbreviation (input) LIEBE_OS_MAX_PROGRAM_ALLOCATIONS :: "'a::numeral" where "LIEBE_OS_MAX_PROGRAM_ALLOCATIONS \<equiv> 1024"
abbreviation (input) LIEBE_OS_USER_PROGRAM_STACK_SIZE :: u32 where "LIEBE_OS_USER_PROGRAM_STACK_SIZE \<equiv> 1024 * 16"
abbreviation (input) LIEBE_OS_PROGRAM_VIRTUAL_STACK_ADDRESS_END :: u32
  where "LIEBE_OS_PROGRAM_VIRTUAL_STACK_ADDRESS_END \<equiv> LIEBE_OS_PROGRAM_VIRTUAL_STACK_ADDRESS_START - 1024 * 16"

text \<open>The page directory of the task of a process.\<close>

definition process_directory :: "mem \<Rightarrow> ptr \<Rightarrow> ptr" where
  "process_directory m process = get_page_directory_entry (tk_page_directory (task_at m (ps_task (process_at m process)))) m"

section \<open>The process table\<close>

definition process_init :: "ptr \<Rightarrow> 'a kernel_scheme \<Rightarrow> 'a kernel_scheme" where
  "process_init process s = s\<lparr>km := snd (memset (km s) process 0 9364)\<rparr>"

definition process_current :: "'a kernel_scheme \<Rightarrow> ptr" where
  "process_current s = current_process s"

definition process_get :: "int \<Rightarrow> 'a kernel_scheme \<Rightarrow> ptr" where
  "process_get process_id s =
     (if process_id < 0 \<or> LIEBE_OS_MAX_PROCESSES \<le> process_id then c_uint (- EINVARG)
      else processes s ! nat process_id)"

definition process_get_free_slot :: "'a kernel_scheme \<Rightarrow> int" where
  "process_get_free_slot s = (case free_slot (processes s) 0 of Some i \<Rightarrow> int i | None \<Rightarrow> - EISTKN)"

definition process_switch :: "ptr \<Rightarrow> 'a kernel_scheme \<Rightarrow> int \<times> 'a kernel_scheme" where
  "process_switch process s = (0, s\<lparr>current_process := process\<rparr>)"

section \<open>Programs\<close>

definition process_load_binary ::
    "(ptr \<Rightarrow> 'a kernel_scheme fs_ops) \<Rightarrow> ptr \<Rightarrow> file_stat \<Rightarrow> ptr \<Rightarrow> ptr \<Rightarrow> 'a kernel_scheme \<Rightarrow> (int \<times> 'a kernel_scheme) option" where
  "process_load_binary ops mode_r stat fileName process s =
     do {
       (fd, s) \<leftarrow> fopen ops fileName mode_r s;
       if fd = 0 then Some (- EIO, snd (fclose ops fd s))
       else
         let (res, stat) = fstat ops fd stat s
         in if res \<noteq> OK then Some (res, snd (fclose ops fd s))
            else
              let (program_data_ptr, m) = kzalloc (kheap s) (st_filesize stat) (km s);
                  s = s\<lparr>km := m\<rparr>
              in if program_data_ptr = 0 then Some (- ENOMEM, snd (fclose ops fd s))
                 else do {
                   (n, s) \<leftarrow> fread ops program_data_ptr (st_filesize stat) 1 fd s;
                   if n \<noteq> 1 then Some (res - EIO, snd (fclose ops fd s))
                   else
                     let m = (km s)(process + 8308 := PROCESS_FILETYPE_BINARY);
                         m = store32 m (process + 8312) program_data_ptr;
                         m = store32 m (process + 8320) (st_filesize stat)
                     in Some (res, snd (fclose ops fd (s\<lparr>km := m\<rparr>)))
                 }
     }"

definition process_load_elf ::
    "(ptr \<Rightarrow> 'a kernel_scheme fs_ops) \<Rightarrow> ptr \<Rightarrow> file_stat \<Rightarrow> ptr \<Rightarrow> ptr \<Rightarrow> 'a kernel_scheme \<Rightarrow> (int \<times> 'a kernel_scheme) option" where
  "process_load_elf ops mode_r stat filename process s =
     do {
       (res, file, s) \<leftarrow> elf_load ops mode_r stat filename s;
       if res < 0 then Some (res, s)
       else
         let m = (km s)(process + 8308 := PROCESS_FILETYPE_ELF);
             m = store32 m (process + 8312) (case file of Some e \<Rightarrow> e | None \<Rightarrow> 0)
         in Some (res, s\<lparr>km := m\<rparr>)
     }"

definition process_load_data ::
    "(ptr \<Rightarrow> 'a kernel_scheme fs_ops) \<Rightarrow> ptr \<Rightarrow> file_stat \<Rightarrow> ptr \<Rightarrow> ptr \<Rightarrow> 'a kernel_scheme \<Rightarrow> (int \<times> 'a kernel_scheme) option" where
  "process_load_data ops mode_r stat fileName process s =
     do {
       (res, s) \<leftarrow> process_load_elf ops mode_r stat fileName process s;
       if res = - EINFORMAT then process_load_binary ops mode_r stat fileName process s else Some (res, s)
     }"

text \<open>The loop of \<^verbatim>\<open>process_map_elf\<close> over the program headers from number \<open>i\<close> on, \<open>n\<close> of them left.\<close>

fun process_map_elf_loop :: "ptr \<Rightarrow> ptr \<Rightarrow> ptr \<Rightarrow> nat \<Rightarrow> nat \<Rightarrow> int \<Rightarrow> mem \<Rightarrow> int \<times> mem" where
  "process_map_elf_loop process elf_file phdrs 0 i res m = (res, m)"
| "process_map_elf_loop process elf_file phdrs (Suc n) i res m =
     (let phdr = phdrs + of_nat (32 * i);
          phdr_phys_address = elf_phdr_phys_address m elf_file phdr;
          flags = (if p_flags (elf32_phdr_at m phdr) AND PF_W \<noteq> 0 then 7 else 5);
          (res, m) = paging_map_to (process_directory m process)
            (paging_align_to_lower_page (p_vaddr (elf32_phdr_at m phdr))) (paging_align_to_lower_page phdr_phys_address)
            (paging_align_address (phdr_phys_address + p_memsz (elf32_phdr_at m phdr))) flags m
      in if res < 0 then (res, m) else process_map_elf_loop process elf_file phdrs n (i + 1) res m)"

definition process_map_elf :: "ptr \<Rightarrow> mem \<Rightarrow> int \<times> mem" where
  "process_map_elf process m =
     (let elf_file = ps_ptr (process_at m process);
          header = elf_header m elf_file;
          phdrs = elf_pheader m header
      in process_map_elf_loop process elf_file phdrs (unat (e_phnum (elf_header_at m header))) 0 0 m)"

definition process_map_binary :: "ptr \<Rightarrow> mem \<Rightarrow> int \<times> mem" where
  "process_map_binary process m =
     paging_map_to (process_directory m process) LIEBE_OS_PROGRAM_VIRTUAL_ADDRESS (ps_ptr (process_at m process))
       (paging_align_address (ps_ptr (process_at m process) + ps_size (process_at m process))) 7 m"

definition process_map_memory :: "ptr \<Rightarrow> 'a kernel_scheme \<Rightarrow> (int, 'a kernel_scheme) outcome" where
  "process_map_memory process s =
     (let ft = ps_filetype (process_at (km s) process)
      in if ft \<noteq> PROCESS_FILETYPE_ELF \<and> ft \<noteq> PROCESS_FILETYPE_BINARY
         then Panicked ''process_map_memory: Invalid filetype\<newline>''
         else
           let (res, m) = (if ft = PROCESS_FILETYPE_ELF then process_map_elf process (km s) else process_map_binary process (km s))
           in if res < 0 then Returned res (s\<lparr>km := m\<rparr>)
              else
                let (_, m) = paging_map_to (process_directory m process) LIEBE_OS_PROGRAM_VIRTUAL_STACK_ADDRESS_END
                      (ps_stack (process_at m process))
                      (paging_align_address (ps_stack (process_at m process) + LIEBE_OS_USER_PROGRAM_STACK_SIZE)) 7 m
                in Returned res (s\<lparr>km := m\<rparr>))"

text \<open>The exit of \<^verbatim>\<open>process_load_for_slot\<close>: on an error the task of \<^verbatim>\<open>_process\<close> (here \<open>new_process\<close>) is released, if there is one.\<close>

definition process_load_exit :: "int \<Rightarrow> ptr \<Rightarrow> 'a kernel_scheme \<Rightarrow> 'a kernel_scheme" where
  "process_load_exit res new_process s =
     (if res < 0 \<and> new_process \<noteq> 0 \<and> ps_task (process_at (km s) new_process) \<noteq> 0
      then snd (task_free (ps_task (process_at (km s) new_process)) s) else s)"

text \<open>\<open>process\<close> is where the caller wants the new process: it is tested, and the process written there is the
  second component of the result. \<^verbatim>\<open>_process\<close> has no value before the allocation: \<open>garbage\<close>.\<close>

definition process_load_for_slot ::
    "(ptr \<Rightarrow> 'a kernel_scheme fs_ops) \<Rightarrow> ptr \<Rightarrow> file_stat \<Rightarrow> ptr \<Rightarrow> ptr \<Rightarrow> ptr \<Rightarrow> int \<Rightarrow> 'a kernel_scheme
      \<Rightarrow> (int \<times> ptr option, 'a kernel_scheme) outcome option" where
  "process_load_for_slot ops mode_r stat garbage fileName process process_slot s =
     (if process_get process_slot s \<noteq> 0
      then Some (Returned (- EISTKN, None) (process_load_exit (- EISTKN) garbage s))
      else
        let (new_process, m) = kzalloc (kheap s) 9364 (km s);
            s = s\<lparr>km := m\<rparr>
        in if process = 0 then Some (Returned (- ENOMEM, None) (process_load_exit (- ENOMEM) new_process s))
           else do {
             (res, s) \<leftarrow> process_load_data ops mode_r stat fileName new_process (process_init new_process s);
             if res < 0 then Some (Returned (res, None) (process_load_exit res new_process s))
             else
               let (program_stack_ptr, m) = kzalloc (kheap s) LIEBE_OS_USER_PROGRAM_STACK_SIZE (km s);
                   s = s\<lparr>km := m\<rparr>
               in if program_stack_ptr = 0
                  then Some (Returned (- ENOMEM, None) (process_load_exit (- ENOMEM) new_process s))
                  else
                    let m = snd (strncpy (km s) (new_process + 2) fileName LIEBE_OS_MAX_PATH_LEN);
                        m = store32 m (new_process + 8316) program_stack_ptr;
                        m = store16 m new_process (word_of_int process_slot);
                        (task, s) = task_new new_process (s\<lparr>km := m\<rparr>)
                    in if task = 0 then Some (Returned (0, None) s)
                       else
                         let s = s\<lparr>km := store32 (km s) (new_process + 112) task\<rparr>
                         in case process_map_memory new_process s of
                              Returned res s \<Rightarrow>
                                (if res < 0 then Some (Returned (res, None) (process_load_exit res new_process s))
                                 else Some (Returned (res, Some new_process)
                                        (s\<lparr>processes := (processes s)[nat process_slot := new_process]\<rparr>)))
                            | Panicked msg \<Rightarrow> Some (Panicked msg)
                            | Entered r s \<Rightarrow> Some (Entered r s)
           })"

definition process_load ::
    "(ptr \<Rightarrow> 'a kernel_scheme fs_ops) \<Rightarrow> ptr \<Rightarrow> file_stat \<Rightarrow> ptr \<Rightarrow> ptr \<Rightarrow> ptr \<Rightarrow> 'a kernel_scheme
      \<Rightarrow> (int \<times> ptr option, 'a kernel_scheme) outcome option" where
  "process_load ops mode_r stat garbage filename process s =
     (let process_slot = process_get_free_slot s
      in if process_slot < 0 then Some (Returned (- EISTKN, None) s)
         else process_load_for_slot ops mode_r stat garbage filename process process_slot s)"

text \<open>\<^verbatim>\<open>process_load_switch\<close>: when loading reports 0 the process that the caller's variable then holds becomes
  current. The callers set the variable to null before.\<close>

definition process_load_switch ::
    "(ptr \<Rightarrow> 'a kernel_scheme fs_ops) \<Rightarrow> ptr \<Rightarrow> file_stat \<Rightarrow> ptr \<Rightarrow> ptr \<Rightarrow> ptr \<Rightarrow> 'a kernel_scheme
      \<Rightarrow> (int \<times> ptr option, 'a kernel_scheme) outcome option" where
  "process_load_switch ops mode_r stat garbage filename process s =
     do {
       r \<leftarrow> process_load ops mode_r stat garbage filename process s;
       case r of
         Returned (res, p) s \<Rightarrow>
           (if res = 0 then Some (Returned (res, p) (snd (process_switch (case p of Some q \<Rightarrow> q | None \<Rightarrow> 0) s)))
            else Some (Returned (res, p) s))
       | _ \<Rightarrow> Some r
     }"

section \<open>Memory of a process\<close>

text \<open>The search of both loops over the allocations, from number \<open>i\<close> on, \<open>n\<close> of them left.\<close>

fun allocation_index :: "mem \<Rightarrow> ptr \<Rightarrow> ptr \<Rightarrow> nat \<Rightarrow> nat \<Rightarrow> nat option" where
  "allocation_index m process p i 0 = None"
| "allocation_index m process p i (Suc n) =
     (if al_ptr (ps_allocations (process_at m process) i) = p then Some i else allocation_index m process p (i + 1) n)"

definition process_find_free_allocation_index :: "ptr \<Rightarrow> mem \<Rightarrow> int" where
  "process_find_free_allocation_index process m =
     (case allocation_index m process 0 0 LIEBE_OS_MAX_PROGRAM_ALLOCATIONS of Some i \<Rightarrow> int i | None \<Rightarrow> - ENOMEM)"

definition allocation_set :: "ptr \<Rightarrow> int \<Rightarrow> ptr \<Rightarrow> u32 \<Rightarrow> mem \<Rightarrow> mem" where
  "allocation_set process index p sz m =
     (let m = store32 m (process + 116 + of_nat (8 * nat index)) p
      in store32 m (process + 116 + of_nat (8 * nat index) + 4) sz)"

definition process_malloc :: "ptr \<Rightarrow> u32 \<Rightarrow> 'a kernel_scheme \<Rightarrow> ptr \<times> 'a kernel_scheme" where
  "process_malloc process sz s =
     (let (p, m) = kzalloc (kheap s) sz (km s);
          s = s\<lparr>km := m\<rparr>
      in if p = 0 then (0, s)
         else
           let index = process_find_free_allocation_index process (km s)
           in if index < 0 then (0, s\<lparr>km := kfree (kheap s) p (km s)\<rparr>)
              else
                let (res, m) = paging_map_to (process_directory (km s) process) p p (paging_align_address (p + sz)) 7 (km s);
                    s = s\<lparr>km := m\<rparr>
                in if res < 0 then (0, s\<lparr>km := kfree (kheap s) p (km s)\<rparr>)
                   else (p, s\<lparr>km := allocation_set process index p sz (km s)\<rparr>))"

definition is_current_process_ptr :: "ptr \<Rightarrow> ptr \<Rightarrow> mem \<Rightarrow> int" where
  "is_current_process_ptr process p m =
     (case allocation_index m process p 0 LIEBE_OS_MAX_PROGRAM_ALLOCATIONS of Some i \<Rightarrow> int i | None \<Rightarrow> - 1)"

definition process_free :: "ptr \<Rightarrow> ptr \<Rightarrow> 'a kernel_scheme \<Rightarrow> 'a kernel_scheme" where
  "process_free process p s =
     (let allocation_idx = is_current_process_ptr process p (km s)
      in if allocation_idx < 0 then s
         else
           let al = ps_allocations (process_at (km s) process) (nat allocation_idx);
               (res, m) = paging_map_to (process_directory (km s) process) (al_ptr al) (al_ptr al)
                 (paging_align_address (al_ptr al + al_size al)) 0 (km s);
               s = s\<lparr>km := m\<rparr>
           in if res < 0 then s
              else
                let s = s\<lparr>km := allocation_set process allocation_idx 0 0 (km s)\<rparr>
                in s\<lparr>km := kfree (kheap s) p (km s)\<rparr>)"

section \<open>Arguments\<close>

definition process_get_arguments :: "ptr \<Rightarrow> mem \<Rightarrow> int \<times> ptr" where
  "process_get_arguments process m = (ps_argc (process_at m process), ps_argv (process_at m process))"

partial_function (option) process_count_loop :: "mem \<Rightarrow> ptr \<Rightarrow> int \<Rightarrow> int option" where
  "process_count_loop m current count =
     (if current \<noteq> 0 then process_count_loop m (ca_next m current) (count + 1) else Some count)"

definition process_count_commnad_arguments :: "mem \<Rightarrow> ptr \<Rightarrow> int option" where
  "process_count_commnad_arguments m root_argument = process_count_loop m root_argument 0"

partial_function (option) process_inject_loop ::
    "ptr \<Rightarrow> ptr \<Rightarrow> ptr \<Rightarrow> u32 \<Rightarrow> 'a kernel_scheme \<Rightarrow> (int \<times> 'a kernel_scheme) option" where
  "process_inject_loop process argv current i s =
     (if current \<noteq> 0 then
        let (argument_str, s) = process_malloc process 512 s
        in if argument_str = 0 then Some (- ENOMEM, s)
           else
             let m = snd (strncpy (km s) argument_str current 512);
                 m = store32 m (argv + 4 * i) argument_str
             in process_inject_loop process argv (ca_next m current) (i + 1) (s\<lparr>km := m\<rparr>)
      else Some (0, s))"

definition process_inject_arguments :: "ptr \<Rightarrow> ptr \<Rightarrow> 'a kernel_scheme \<Rightarrow> (int \<times> 'a kernel_scheme) option" where
  "process_inject_arguments process root_argument s =
     do {
       argc \<leftarrow> process_count_commnad_arguments (km s) root_argument;
       if argc = 0 then Some (- EIO, s)
       else
         let (argv, s) = process_malloc process (4 * c_uint argc) s
         in if argv = 0 then Some (- ENOMEM, s)
            else do {
              (res, s) \<leftarrow> process_inject_loop process argv root_argument 0 s;
              if res < 0 then Some (res, s)
              else
                let m = store32 (km s) (process + 9356) (c_uint argc)
                in Some (res, s\<lparr>km := store32 m (process + 9360) argv\<rparr>)
            }
     }"

section \<open>The end of a process\<close>

definition process_terminate_allocations :: "ptr \<Rightarrow> 'a kernel_scheme \<Rightarrow> int \<times> 'a kernel_scheme" where
  "process_terminate_allocations process s =
     (0, s\<lparr>km := fold (\<lambda>i m. kfree (kheap s) (al_ptr (ps_allocations (process_at m process) i)) m)
       [0..<LIEBE_OS_MAX_PROGRAM_ALLOCATIONS] (km s)\<rparr>)"

definition process_free_binary_data :: "ptr \<Rightarrow> 'a kernel_scheme \<Rightarrow> int \<times> 'a kernel_scheme" where
  "process_free_binary_data process s = (0, s\<lparr>km := kfree (kheap s) (ps_ptr (process_at (km s) process)) (km s)\<rparr>)"

definition process_free_elf_data :: "ptr \<Rightarrow> 'a kernel_scheme \<Rightarrow> int \<times> 'a kernel_scheme" where
  "process_free_elf_data process s = (0, elf_close (ps_ptr (process_at (km s) process)) s)"

definition process_free_program_data :: "ptr \<Rightarrow> 'a kernel_scheme \<Rightarrow> int \<times> 'a kernel_scheme" where
  "process_free_program_data process s =
     (let ft = ps_filetype (process_at (km s) process)
      in if ft = PROCESS_FILETYPE_BINARY then process_free_binary_data process s
         else if ft = PROCESS_FILETYPE_ELF then process_free_elf_data process s
         else (- EINVARG, s))"

definition process_switch_to_any :: "'a kernel_scheme \<Rightarrow> (unit, 'a kernel_scheme) outcome" where
  "process_switch_to_any s =
     (case find (\<lambda>p. p \<noteq> 0) (processes s) of
        Some p \<Rightarrow> Returned () (snd (process_switch p s))
      | None \<Rightarrow> Panicked ''No process to switch too \<newline>'')"

text \<open>The process table is indexed by the identifier of the process, which \<^verbatim>\<open>process_load_for_slot\<close> keeps below its
  length.\<close>

definition process_unlink :: "ptr \<Rightarrow> 'a kernel_scheme \<Rightarrow> (unit, 'a kernel_scheme) outcome" where
  "process_unlink process s =
     (let s = s\<lparr>processes := (processes s)[unat (ps_id (process_at (km s) process)) := 0]\<rparr>
      in if current_process s = process then process_switch_to_any s else Returned () s)"

definition process_terminate :: "ptr \<Rightarrow> 'a kernel_scheme \<Rightarrow> (int, 'a kernel_scheme) outcome" where
  "process_terminate process s =
     (let s = snd (process_terminate_allocations process s);
          (res, s) = process_free_program_data process s
      in if res < 0 then Returned res s
         else
           let s = s\<lparr>km := kfree (kheap s) (ps_stack (process_at (km s) process)) (km s)\<rparr>;
               s = snd (task_free (ps_task (process_at (km s) process)) s)
           in case process_unlink process s of
                Returned _ s \<Rightarrow> Returned res s
              | Panicked msg \<Rightarrow> Panicked msg
              | Entered r s \<Rightarrow> Entered r s)"

end
