(* ===== verification/ProcessMem.thy ===== *)
theory ProcessMem
  imports Process
begin

text \<open>
  The memory of processes: what \<^verbatim>\<open>process_malloc\<close> and \<^verbatim>\<open>process_free\<close> of \<^verbatim>\<open>src/src/task/process.c\<close> do to the heap, to the page
  directory of the process and to its table of allocations, and what a program sees of its image and its stack
  after \<^verbatim>\<open>process_map_memory\<close>.
\<close>

section \<open>Frames\<close>

lemma paging_set_owned:
  assumes p: "pgd_at h m A ob db bs" and a: "owned_byte (block_addr h) A a"
  shows "snd (paging_set (block_addr h db) v x m) a = m a"
proof (cases "is_page_aligned v")
  case True
  note d = pgd_atD [OF p]
  let ?b = "bs ! pde_index v" let ?S = "insert ob (insert db (set bs))"
  have b: "?b \<in> ?S" using d(12) [OF pde_index_lt] by simp
  then have "insert ?b ?S = ?S" by auto
  then have "\<not> in_range (block_addr h ?b + of_nat (4 * pte_index v)) 4 a"
    using pgd_word_not_owned [of h m A ?b ?S a] d(1,6-8) a pte_index_lt by auto
  then show ?thesis
    using True d(11) [OF pde_index_lt] by (simp add: paging_set_eq pte_addr_def store32_other)
qed (simp add: paging_set_def)

lemma map_range_loop_owned:
  assumes "pgd_at h m A ob db bs" and "owned_byte (block_addr h) A a"
  shows "snd (paging_map_range_loop (block_addr h db) virt phys n flags res m) a = m a"
  using assms(1)
proof (induction n arbitrary: virt phys res m)
  case (Suc n)
  let ?r = "paging_map (block_addr h db) virt phys flags m"
  have "pgd_at h (snd ?r) A ob db bs" "snd ?r a = m a"
    using Suc.prems pgd_at_paging_set(1) [OF Suc.prems] paging_set_owned [OF Suc.prems assms(2)] by (simp_all add: paging_map_def)
  then show ?case using Suc.IH by (simp add: split_beta Let_def)
qed simp

lemma paging_map_range_pgd:
  assumes "pgd_at h m A ob db bs"
  shows "pgd_at h (snd (paging_map_range (block_addr h db) virt phys n flags m)) A ob db bs"
    and "avail h (snd (paging_map_range (block_addr h db) virt phys n flags m)) = avail h m"
    and "owned_byte (block_addr h) A a \<Longrightarrow> snd (paging_map_range (block_addr h db) virt phys n flags m) a = m a"
  using pgd_at_map_range_loop [OF assms] map_range_loop_owned [OF assms] by (simp_all add: paging_map_range_def)

text \<open>A new run beside a page directory.\<close>

lemma pgd_at_kzalloc:
  assumes p: "pgd_at h m A ob db bs" and f: "heap_fits h m n"
  obtains b where "fst (kzalloc h n m) = block_addr h b" "A b = None" "block_addr h b \<noteq> 0" "b + blocks_for n \<le> hp_total h"
    "pgd_at h (snd (kzalloc h n m)) (A(b \<mapsto> blocks_for n)) ob db bs"
    "avail h (snd (kzalloc h n m)) + blocks_for n = avail h m"
    "\<And>a. owned_byte (block_addr h) A a \<Longrightarrow> snd (kzalloc h n m) a = m a"
    "\<And>a. in_range (block_addr h b) (unat n) a \<Longrightarrow> snd (kzalloc h n m) a = 0"
    "\<And>v. is_page_aligned v \<Longrightarrow> paging_get (block_addr h db) v (snd (kzalloc h n m)) = paging_get (block_addr h db) v m"
proof -
  note d = pgd_atD [OF p]
  let ?S = "insert ob (insert db (set bs))" and ?m = "snd (kzalloc h n m)"
  obtain b where b: "fst (kzalloc h n m) = block_addr h b" "own_pages A ?S b = None" "block_addr h b \<noteq> 0"
      "heap_rep h ?m ((own_pages A ?S)(b \<mapsto> blocks_for n))" "avail h ?m + blocks_for n = avail h m"
      "\<And>a. owned_byte (block_addr h) (own_pages A ?S) a \<Longrightarrow> ?m a = m a"
      "\<And>a. in_range (block_addr h b) (unat n) a \<Longrightarrow> ?m a = 0"
    using kzalloc_runE [OF d(1) f] by metis
  have new: "b \<notin> ?S" "A b = None" using b(2) by (auto simp: own_pages_def split: if_splits)
  have B: "(own_pages A ?S)(b \<mapsto> blocks_for n) = own_pages (A(b \<mapsto> blocks_for n)) ?S"
    using new(1) by (auto simp: own_pages_def fun_eq_iff)
  have none: "\<forall>c\<in>?S. A c = None" using d(6-8) by auto
  have word: "load32 ?m (block_addr h c + of_nat (4 * j)) = load32 m (block_addr h c + of_nat (4 * j))"
    if "c \<in> ?S" "j < 1024" for c j
    by (rule owned_word [where B = "own_pages A ?S", OF own_pages_simps(3) [OF that(1)] that(2) b(6)])
  have tab: "table_of ?m (block_addr h db) i = table_of m (block_addr h db) i" if "i < 1024" for i
    using word [of db i] that by (simp add: table_of_def del: of_nat_mult)
  have p': "pgd_at h ?m (A(b \<mapsto> blocks_for n)) ob db bs"
    using b(4) [unfolded B] p new none word [of ob 0] tab by (auto simp: pgd_at_def)
  have get: "paging_get (block_addr h db) v ?m = paging_get (block_addr h db) v m" if "is_page_aligned v" for v
    using tab [OF pde_index_lt] d(11) [OF pde_index_lt] word [of "bs ! pde_index v" "pte_index v"] d(12) [OF pde_index_lt] pte_index_lt
    by (simp add: paging_get_eq [OF that] pte_addr_def del: of_nat_mult)
  have le: "b + blocks_for n \<le> hp_total h" using heap_repD(3) [OF b(4), of b] by simp
  show thesis
    using that [OF b(1) new(2) b(3) le p' b(5) _ b(7) get] b(6) owned_byte_own_pages [OF _ none] by blast
qed

section \<open>The table of allocations\<close>

lemma allocation_index_Some:
  "allocation_index m process p i n = Some j \<longleftrightarrow> i \<le> j \<and> j < i + n
     \<and> al_ptr (ps_allocations (process_at m process) j) = p
     \<and> (\<forall>k. i \<le> k \<and> k < j \<longrightarrow> al_ptr (ps_allocations (process_at m process) k) \<noteq> p)"
proof (induction n arbitrary: i)
  case (Suc n)
  show ?case
  proof (cases "al_ptr (ps_allocations (process_at m process) i) = p")
    case True
    then show ?thesis by (auto simp: not_less le_antisym)
  next
    case False
    then have "allocation_index m process p i (Suc n) = Some j \<longleftrightarrow> allocation_index m process p (Suc i) n = Some j" by simp
    also have "\<dots> \<longleftrightarrow> i \<le> j \<and> j < i + Suc n \<and> al_ptr (ps_allocations (process_at m process) j) = p
     \<and> (\<forall>k. i \<le> k \<and> k < j \<longrightarrow> al_ptr (ps_allocations (process_at m process) k) \<noteq> p)"
      unfolding Suc.IH using False by (auto simp del: process_at_simps) (metis Suc_leI le_neq_implies_less nat_less_le)+
    finally show ?thesis .
  qed
qed simp

lemma allocation_set_other: "\<not> in_range (process + 116) 8192 a \<Longrightarrow> i < 1024 \<Longrightarrow> allocation_set process (int i) p sz m a = m a"
proof -
  assume a: "\<not> in_range (process + 116) 8192 a" and i: "i < 1024"
  have "\<not> in_range (process + 116 + of_nat (8 * i)) 4 a" "\<not> in_range (process + 116 + of_nat (8 * i) + 4) 4 a"
    using a i in_range_suffix(1) [of "8 * i" 4 8192 "process + 116" a] in_range_suffix(1) [of "8 * i + 4" 4 8192 "process + 116" a]
    by (auto simp: algebra_simps)
  then show ?thesis by (simp add: allocation_set_def store32_other del: of_nat_mult)
qed

lemma allocation_set_get:
  assumes "i < 1024" and "j < 1024"
  shows "ps_allocations (process_at (allocation_set process (int i) p sz m) process) j =
    (if j = i then \<lparr>al_ptr = p, al_size = sz\<rparr> else ps_allocations (process_at m process) j)"
proof -
  define W where "W k = process + 116 + of_nat (4 * k)" for k
  have w: "process + 116 + of_nat (8 * k) = W (2 * k)" "W (2 * k) + 4 = W (2 * k + 1)" for k
    by (simp_all add: W_def)
  have d: "disj_range (W k) 4 (W l) 4" if "k \<noteq> l" "k < 2048" "l < 2048" for k l
    unfolding W_def by (rule word_index_disj) (use that in simp_all)
  have "2 * i \<noteq> 2 * j + 1" "2 * i + 1 \<noteq> 2 * j" by presburger+
  then show ?thesis
    using assms d [of "2 * i" "2 * j"] d [of "2 * i" "2 * j + 1"] d [of "2 * i + 1" "2 * j"] d [of "2 * i + 1" "2 * j + 1"]
      d [of "2 * i + 1" "2 * i"]
    unfolding process_at_def allocation_set_def Let_def nat_int w
    by (auto simp: load32_store32 load32_store32_disj)
qed

section \<open>Sizes\<close>

lemma align_run:
  assumes "is_page_aligned p" and "unat sz \<le> 4294963200"
  shows "paging_align_address (p + sz) = p + of_nat (4096 * blocks_for sz)"
proof -
  let ?q = "unat sz div 4096" and ?r = "unat sz mod 4096"
  have sz: "sz = of_nat (4096 * ?q) + of_nat ?r" unfolding of_nat_add [symmetric] by simp
  have "unat (p + of_nat (unat sz)) mod 4096 = (unat p + unat sz) mod 4096" by (rule unat_add_mod_page)
  then have um: "unat (p + sz) mod 4096 = ?r"
    using assms(1) mod_add_left_eq [of "unat p" 4096 "unat sz"] by (simp add: is_page_aligned_unat)
  then have m: "(p + sz) mod 4096 = of_nat ?r"
    using word_arith_nat_mod [of "p + sz" 4096] by (simp only: unat_numeral_4096)
  have r0: "(of_nat ?r :: u32) = 0 \<longleftrightarrow> ?r = 0"
    using unat_of_nat_u32 [of ?r] unat_eq_zero [of "of_nat ?r :: u32"] mod_less_divisor [of 4096 "unat sz"] by simp
  show ?thesis
  proof (cases "?r = 0")
    case True
    then have "(p + sz) mod 4096 = 0" "of_nat (4096 * blocks_for sz) = (of_nat (unat sz) :: u32)"
      using m round_up_exact [of "unat sz"] by (simp_all only: blocks_for_def) simp_all
    then show ?thesis by (simp add: paging_align_address_def del: of_nat_mult)
  next
    case False
    then have "(p + sz) mod 4096 \<noteq> 0" using m r0 by simp
    then have "paging_align_address (p + sz) = p + sz + 4096 - of_nat ?r" using m by (simp add: paging_align_address_def)
    also have "\<dots> = p + of_nat (unat sz - ?r + 4096)" by (simp add: of_nat_diff)
    also have "unat sz - ?r + 4096 = 4096 * blocks_for sz" unfolding blocks_for_def by (rule round_up_ceil [OF False])
    finally show ?thesis .
  qed
qed

section \<open>Processes with their page directory\<close>

text \<open>
  A process in blocks the kernel owns: its task and the page directory of the task are in place, and every entry
  of its table of allocations is null or the start of an owned run.
\<close>

definition allocations_owned :: "heap \<Rightarrow> mem \<Rightarrow> (nat \<rightharpoonup> nat) \<Rightarrow> ptr \<Rightarrow> bool" where
  "allocations_owned h m A process \<longleftrightarrow> (\<forall>i<1024. let p = al_ptr (ps_allocations (process_at m process) i)
     in p = 0 \<or> (\<exists>b k. A b = Some k \<and> p = block_addr h b))"

definition process_mem :: "heap \<Rightarrow> mem \<Rightarrow> (nat \<rightharpoonup> nat) \<Rightarrow> ptr \<Rightarrow> nat \<Rightarrow> nat \<Rightarrow> nat list \<Rightarrow> bool" where
  "process_mem h m A process ob db bs \<longleftrightarrow> pgd_at h m A ob db bs \<and> unat (hp_saddr h) + 4096 * hp_total h < 4294967296
     \<and> (\<forall>a. in_range process 9364 a \<longrightarrow> owned_byte (block_addr h) A a)
     \<and> (\<forall>a. in_range (ps_task (process_at m process)) 64 a \<longrightarrow> owned_byte (block_addr h) A a)
     \<and> disj_range process 9364 (ps_task (process_at m process)) 64
     \<and> tk_page_directory (task_at m (ps_task (process_at m process))) = block_addr h ob
     \<and> allocations_owned h m A process"

lemma process_memD:
  assumes "process_mem h m A process ob db bs"
  shows "pgd_at h m A ob db bs" "wf_heap h" "process_directory m process = block_addr h db"
    "unat (hp_saddr h) + 4096 * hp_total h < 4294967296"
    "\<And>a. in_range process 9364 a \<Longrightarrow> owned_byte (block_addr h) A a"
    "i < 1024 \<Longrightarrow> in_range (process + 116 + of_nat (8 * i)) 8 a \<Longrightarrow> owned_byte (block_addr h) A a"
    "allocations_owned h m A process"
proof -
  show p: "pgd_at h m A ob db bs" and o: "\<And>a. in_range process 9364 a \<Longrightarrow> owned_byte (block_addr h) A a"
    using assms by (simp_all add: process_mem_def)
  show "wf_heap h" using heap_repD(1) [OF pgd_atD(1) [OF p]] .
  show "process_directory m process = block_addr h db"
    using assms pgd_atD(10) [OF p] by (simp add: process_mem_def process_directory_def get_page_directory_entry_def)
  show "owned_byte (block_addr h) A a" if "i < 1024" "in_range (process + 116 + of_nat (8 * i)) 8 a"
    using that o in_range_suffix(1) [of "116 + 8 * i" 8 9364 process a] by (simp add: algebra_simps)
qed (use assms in \<open>simp_all add: process_mem_def\<close>)

text \<open>What leaves the owned bytes alone leaves the process alone.\<close>

lemma process_fields_low:
  assumes o: "\<And>a. in_range process 8308 a \<Longrightarrow> m' a = m a"
  shows "ps_task (process_at m' process) = ps_task (process_at m process)"
    and "i < 1024 \<Longrightarrow> ps_allocations (process_at m' process) i = ps_allocations (process_at m process) i"
    and "allocation_index m' process p 0 1024 = allocation_index m process p 0 1024"
proof -
  have w: "load32 m' (process + of_nat k) = load32 m (process + of_nat k)" if "k + 4 \<le> 8308" for k
    by (rule load32_cong) (use o in_range_suffix(1) [of k 4 8308 process] that in simp)
  show "ps_task (process_at m' process) = ps_task (process_at m process)" using w [of 112] by simp
  show sl: "ps_allocations (process_at m' process) i = ps_allocations (process_at m process) i" if "i < 1024" for i
    using w [of "116 + 8 * i"] w [of "120 + 8 * i"] that by (simp add: process_at_def algebra_simps)
  have "allocation_index m' process p 0 1024 = Some j \<longleftrightarrow> allocation_index m process p 0 1024 = Some j" for j
    unfolding allocation_index_Some using sl by (auto simp del: process_at_simps)
  then show "allocation_index m' process p 0 1024 = allocation_index m process p 0 1024"
    by (metis not_None_eq)
qed

lemma process_fields_cong:
  assumes o: "\<And>a. in_range process 9364 a \<Longrightarrow> m' a = m a"
  shows "ps_task (process_at m' process) = ps_task (process_at m process)"
    and "i < 1024 \<Longrightarrow> ps_allocations (process_at m' process) i = ps_allocations (process_at m process) i"
    and "allocation_index m' process p 0 1024 = allocation_index m process p 0 1024"
  by (rule process_fields_low; use o in_range_mono [of process 8308 _ 9364] in auto)+


text \<open>The pointer to the task lies in front of the table.\<close>

lemma ps_task_frame:
  assumes "\<And>a. in_range process 9364 a \<Longrightarrow> \<not> in_range (process + 116) 8192 a \<Longrightarrow> m' a = m a"
  shows "ps_task (process_at m' process) = ps_task (process_at m process)"
proof -
  have d: "disj_range (process + of_nat 116) 8192 (process + of_nat 112) 4" by (auto simp: disj_range_def)
  have "m' a = m a" if "in_range (process + 112) 4 a" for a
    using assms that in_range_suffix(1) [of 112 4 9364 process a] disj_rangeD2 [OF d, of a] by simp
  then have "load32 m' (process + 112) = load32 m (process + 112)" by (rule load32_cong)
  then show ?thesis by simp
qed

lemma process_mem_fields:
  assumes m: "process_mem h m A process ob db bs" and p: "pgd_at h m' A' ob db bs"
    and o: "\<And>a. in_range process 9364 a \<Longrightarrow> owned_byte (block_addr h) A' a"
      "\<And>a. in_range (ps_task (process_at m process)) 64 a \<Longrightarrow> owned_byte (block_addr h) A' a"
    and fr: "\<And>a. in_range process 8308 a \<Longrightarrow> m' a = m a"
      "\<And>a. in_range (ps_task (process_at m process)) 64 a \<Longrightarrow> m' a = m a"
    and al: "allocations_owned h m' A' process"
  shows "process_mem h m' A' process ob db bs"
proof -
  let ?t = "ps_task (process_at m process)"
  have t: "ps_task (process_at m' process) = ?t" using process_fields_low(1) fr(1) by blast
  have "load32 m' ?t = load32 m ?t"
    by (rule load32_cong) (use fr(2) in_range_mono [of ?t 4 _ 64] in auto)
  then show ?thesis using m p o al t by (simp add: process_mem_def del: process_at_simps)
qed

lemma process_mem_move:
  assumes m: "process_mem h m A process ob db bs" and p: "pgd_at h m' A' ob db bs"
    and o: "\<And>a. in_range process 9364 a \<Longrightarrow> owned_byte (block_addr h) A' a"
      "\<And>a. in_range (ps_task (process_at m process)) 64 a \<Longrightarrow> owned_byte (block_addr h) A' a"
    and fr: "\<And>a. owned_byte (block_addr h) A a \<Longrightarrow> m' a = m a"
    and al: "allocations_owned h m' A' process"
  shows "process_mem h m' A' process ob db bs"
  by (rule process_mem_fields [OF m p o _ _ al]) (use m fr in_range_mono [of process 8308 _ 9364] in \<open>auto simp: process_mem_def\<close>)

lemma process_mem_keep:
  assumes m: "process_mem h m A process ob db bs" and p: "pgd_at h m' A' ob db bs"
    and o: "\<And>a. owned_byte (block_addr h) A a \<Longrightarrow> owned_byte (block_addr h) A' a"
    and fr: "\<And>a. owned_byte (block_addr h) A a \<Longrightarrow> m' a = m a"
    and al: "allocations_owned h m' A' process"
  shows "process_mem h m' A' process ob db bs"
  by (rule process_mem_move [OF m p _ _ fr al]) (use m o in \<open>auto simp: process_mem_def\<close>)

lemma process_mem_map:
  assumes "process_mem h m A process ob db bs" and "pgd_at h m' A ob db bs" and fr: "\<And>a. owned_byte (block_addr h) A a \<Longrightarrow> m' a = m a"
  shows "process_mem h m' A process ob db bs"
proof -
  have "allocations_owned h m' A process"
    using process_fields_cong(2) [of process m' m] fr process_memD(5,7) [OF assms(1)]
    unfolding allocations_owned_def by (metis (no_types, lifting))
  then show ?thesis by (intro process_mem_keep [OF assms(1,2) _ fr]) auto
qed

text \<open>A write to one entry of the table.\<close>

lemma process_mem_set:
  assumes m: "process_mem h m A process ob db bs" and i: "i < 1024" and q: "q = 0 \<or> (\<exists>b k. A b = Some k \<and> q = block_addr h b)"
  shows "process_mem h (allocation_set process (int i) q sz m) A process ob db bs"
    and "avail h (allocation_set process (int i) q sz m) = avail h m"
proof -
  note d = process_memD [OF m]
  let ?m = "allocation_set process (int i) q sz m" and ?t = "ps_task (process_at m process)"
  have slots: "in_range process 9364 a" if "in_range (process + 116) 8192 a" for a
    using in_range_suffix(1) [of 116 8192 9364 process a] that by simp
  have out: "?m a = m a" if "\<not> in_range (process + 116) 8192 a" for a using allocation_set_other [OF that i] .
  have w: "load32 ?m p = load32 m p" if "disj_range (process + 116) 8192 p 4" for p
    by (rule load32_cong) (use out disj_rangeD2 [OF that] in blast)
  note wr = pgd_at_owned_write [OF d(1), of ?m, OF out]
  have p: "pgd_at h ?m A ob db bs" "avail h ?m = avail h m" using wr slots d(5) by blast+
  have t: "ps_task (process_at ?m process) = ?t" by (rule ps_task_frame) (rule out)
  have "disj_range (process + 116) 8192 ?t 4"
  proof (rule disj_rangeI)
    fix a assume "in_range (process + 116) 8192 a" "in_range ?t 4 a"
    then show False using slots m disj_rangeD [of process 9364 ?t 64 a] in_range_mono [of ?t 4 a 64]
      by (auto simp: process_mem_def)
  qed
  then have "load32 ?m ?t = load32 m ?t" by (rule w)
  moreover have "allocations_owned h ?m A process"
    using d(7) q allocation_set_get [OF i] unfolding allocations_owned_def by (auto simp del: process_at_simps simp: Let_def)
  ultimately show "process_mem h ?m A process ob db bs"
    using m p(1) t by (simp add: process_mem_def del: process_at_simps)
  show "avail h ?m = avail h m" by (rule p(2))
qed

lemma pgd_get_owned_write:
  assumes p: "pgd_at h m A ob db bs" and fr: "\<And>a. \<not> owned_byte (block_addr h) A a \<Longrightarrow> m' a = m a" and v: "is_page_aligned v"
  shows "paging_get (block_addr h db) v m' = paging_get (block_addr h db) v m"
proof -
  have p': "pgd_at h m' A ob db bs" using pgd_at_owned_write(1) [OF p] fr by blast
  note d = pgd_atD [OF p] and d' = pgd_atD [OF p']
  let ?b = "bs ! pde_index v" let ?S = "insert ob (insert db (set bs))"
  have "insert ?b ?S = ?S" using d(12) [OF pde_index_lt] by auto
  then have "load32 m' (block_addr h ?b + of_nat (4 * pte_index v)) = load32 m (block_addr h ?b + of_nat (4 * pte_index v))"
    using pgd_word_not_owned [of h m A ?b ?S _ "pte_index v"] d(1,6-8) fr pte_index_lt by (intro load32_cong) auto
  then show ?thesis
    using d(11) [OF pde_index_lt] d'(11) [OF pde_index_lt] by (simp add: paging_get_eq [OF v] pte_addr_def)
qed

lemma page_in_run:
  assumes "is_page_aligned p" and "is_page_aligned v" and "4096 * k \<le> 4294967296"
  shows "in_range p (4096 * k) v \<longleftrightarrow> (\<exists>i<k. v = p + of_nat (4096 * i))"
proof
  assume r: "in_range p (4096 * k) v"
  let ?d = "unat (v - p)"
  have "unat (p + of_nat ?d) mod 4096 = (unat p + ?d) mod 4096" by (rule unat_add_mod_page)
  then have "?d mod 4096 = 0"
    using assms(1,2) mod_add_left_eq [of "unat p" 4096 ?d] by (simp add: is_page_aligned_unat)
  then have d: "4096 * (?d div 4096) = ?d" using mult_div_mod_eq [of 4096 ?d] by simp
  then have "v = p + of_nat (4096 * (?d div 4096))" unfolding d by simp
  moreover have "?d div 4096 < k" using r by (simp add: in_range_def div_less_iff_less_mult mult.commute)
  ultimately show "\<exists>i<k. v = p + of_nat (4096 * i)" by blast
next
  assume "\<exists>i<k. v = p + of_nat (4096 * i)"
  then show "in_range p (4096 * k) v"
    using assms(3) in_range_of_nat [of "4096 * i" "4096 * k" p for i] by auto
qed

lemma pgd_fresh_not_owned:
  assumes p: "pgd_at h m (A(b \<mapsto> k)) ob db bs" and A: "A b = None" and a: "owned_byte (block_addr h) A a"
  shows "\<not> in_range (block_addr h b) (4096 * k) a"
proof
  assume r: "in_range (block_addr h b) (4096 * k) a"
  let ?B = "own_pages (A(b \<mapsto> k)) (insert ob (insert db (set bs)))"
  obtain c n where c: "A c = Some n" "in_range (block_addr h c) (4096 * n) a" using a by (auto simp: owned_byte_def)
  have "?B b = Some k" "?B c = Some n" "b \<noteq> c"
    using p c(1) A by (auto simp: pgd_at_def own_pages_def split: if_splits)
  then show False using heap_rep_disj [OF pgd_atD(1) [OF p]] r c(2) disj_rangeD by blast
qed

text \<open>Mapping a run of blocks at its own addresses.\<close>

lemma map_run:
  fixes flags :: u32
  assumes p: "pgd_at h m A ob db bs" and b: "b + k \<le> hp_total h" and bd: "unat (hp_saddr h) + 4096 * hp_total h < 4294967296"
    and e: "e = block_addr h b + of_nat (4096 * k)"
  defines "r \<equiv> paging_map_to (block_addr h db) (block_addr h b) (block_addr h b) e flags m"
  shows "fst r = 0" "pgd_at h (snd r) A ob db bs" "avail h (snd r) = avail h m"
    "owned_byte (block_addr h) A a \<Longrightarrow> snd r a = m a"
    "is_page_aligned v \<Longrightarrow> paging_get (block_addr h db) v (snd r) =
       (if in_range (block_addr h b) (4096 * k) v then v OR flags else paging_get (block_addr h db) v m)"
proof -
  let ?p = "block_addr h b"
  have wf: "wf_heap h" using heap_repD(1) [OF pgd_atD(1) [OF p]] .
  have al: "is_page_aligned ?p" by (rule block_addr_aligned [OF wf])
  have "4096 * b + 4096 * k \<le> 4096 * hp_total h" using b by simp
  then have bb: "unat (hp_saddr h) + 4096 * b + 4096 * k < 4294967296" using bd by linarith
  then have "unat ?p = unat (hp_saddr h) + 4096 * b"
    unfolding block_addr_def using unat_of_nat_u32 [of "4096 * b"] by (simp only: unat_word_ariths) simp
  then have "unat ?p + 4096 * k < 4294967296" using bb by simp
  then have r: "r = paging_map_range (block_addr h db) ?p ?p (int k) flags m"
    unfolding r_def e by (intro paging_map_to_pages al)
  have k: "4096 * k \<le> 4294967296" "int k \<le> 1048576" using bb by linarith+
  show "pgd_at h (snd r) A ob db bs" "avail h (snd r) = avail h m"
    "owned_byte (block_addr h) A a \<Longrightarrow> snd r a = m a"
    unfolding r using paging_map_range_pgd [OF p] by simp_all
  note g = paging_map_range_get [OF wf_pgd_pgd_at [OF p] al al _ k(2), where flags = flags, folded r]
  show "fst r = 0" using g(1) by simp
  show "paging_get (block_addr h db) v (snd r) =
       (if in_range ?p (4096 * k) v then v OR flags else paging_get (block_addr h db) v m)" if v: "is_page_aligned v"
    using g(3,4) v unfolding page_in_run [OF al v k(1)] by auto
qed

text \<open>What \<^verbatim>\<open>process_malloc\<close> and \<^verbatim>\<open>process_free\<close> share: a run mapped with other flags, then an entry of the table written.\<close>

lemma process_map_set:
  fixes flags :: u32 and h m process b sz i q n
  defines "r \<equiv> paging_map_to (process_directory m process) (block_addr h b) (block_addr h b) (paging_align_address (block_addr h b + sz)) flags m"
  defines "m' \<equiv> allocation_set process (int i) q n (snd r)"
  assumes mem: "process_mem h m A process ob db bs" and k: "b + blocks_for sz \<le> hp_total h" and sz: "unat sz \<le> 4294963200"
    and i: "i < 1024" and q: "q = 0 \<or> (\<exists>c l. A c = Some l \<and> q = block_addr h c)"
  shows "fst r = 0" and "process_mem h m' A process ob db bs" and "avail h m' = avail h m"
    and "j < 1024 \<Longrightarrow> ps_allocations (process_at m' process) j =
      (if j = i then \<lparr>al_ptr = q, al_size = n\<rparr> else ps_allocations (process_at m process) j)"
    and "is_page_aligned v \<Longrightarrow> paging_get (block_addr h db) v m' =
       (if in_range (block_addr h b) (4096 * blocks_for sz) v then v OR flags else paging_get (block_addr h db) v m)"
    and "owned_byte (block_addr h) A a \<Longrightarrow> \<not> in_range (process + 116) 8192 a \<Longrightarrow> m' a = m a"
    and "ps_task (process_at m' process) = ps_task (process_at m process)"
proof -
  note d = process_memD [OF mem]
  note r = map_run [OF d(1) k d(4) align_run [OF block_addr_aligned [OF d(2)] sz], where flags = flags, folded r_def [unfolded d(3)]]
  have f: "ps_allocations (process_at (snd r) process) j = ps_allocations (process_at m process) j" if "j < 1024" for j
    by (rule process_fields_cong(2) [OF _ that]) (simp only: r(4) d(5))
  have "allocations_owned h (snd r) A process" using d(7) f by (simp add: allocations_owned_def del: process_at_simps)
  then have mem2: "process_mem h (snd r) A process ob db bs" by (intro process_mem_keep [OF mem r(2) _ r(4)]) auto
  note mem3 = process_mem_set [OF mem2 i q, of n, folded m'_def]
  show "fst r = 0" "process_mem h m' A process ob db bs" "avail h m' = avail h m" using r(1,3) mem3 by simp_all
  show "ps_allocations (process_at m' process) j = (if j = i then \<lparr>al_ptr = q, al_size = n\<rparr> else ps_allocations (process_at m process) j)"
    if "j < 1024" using allocation_set_get [OF i that] f that by (simp add: m'_def del: process_at_simps)
  have out: "m' a = snd r a" if "\<not> in_range (process + 116) 8192 a" for a using allocation_set_other [OF that i] by (simp add: m'_def)
  have slots: "owned_byte (block_addr h) A a" if "in_range (process + 116) 8192 a" for a
    using in_range_suffix(1) [of 116 8192 9364 process a] that d(5) by simp
  show "paging_get (block_addr h db) v m' = (if in_range (block_addr h b) (4096 * blocks_for sz) v then v OR flags else paging_get (block_addr h db) v m)"
    if v: "is_page_aligned v"
  proof -
    have "m' a = snd r a" if "\<not> owned_byte (block_addr h) A a" for a using that out slots by blast
    then have "paging_get (block_addr h db) v m' = paging_get (block_addr h db) v (snd r)"
      by (intro pgd_get_owned_write [OF r(2) _ v]) blast
    then show ?thesis using r(5) [OF v] by simp
  qed
  show fr: "m' a = m a" if "owned_byte (block_addr h) A a" "\<not> in_range (process + 116) 8192 a" for a
    using out [OF that(2)] r(4) [OF that(1)] by simp
  show "ps_task (process_at m' process) = ps_task (process_at m process)"
    by (rule ps_task_frame) (use fr d(5) in simp)
qed

lemma process_mallocE:
  assumes mem: "process_mem (kheap s) (km s) A process ob db bs" and f: "heap_fits (kheap s) (km s) sz"
    and idx: "allocation_index (km s) process 0 0 1024 = Some i"
  obtains b m where "process_malloc process sz s = (block_addr (kheap s) b, s\<lparr>km := m\<rparr>)" "A b = None"
    "block_addr (kheap s) b \<noteq> 0" "b + blocks_for sz \<le> hp_total (kheap s)"
    "process_mem (kheap s) m (A(b \<mapsto> blocks_for sz)) process ob db bs"
    "avail (kheap s) m + blocks_for sz = avail (kheap s) (km s)"
    "\<And>a. in_range (block_addr (kheap s) b) (unat sz) a \<Longrightarrow> m a = 0"
    "\<And>j. j < 1024 \<Longrightarrow> ps_allocations (process_at m process) j =
       (if j = i then \<lparr>al_ptr = block_addr (kheap s) b, al_size = sz\<rparr> else ps_allocations (process_at (km s) process) j)"
    "\<And>v. is_page_aligned v \<Longrightarrow> paging_get (block_addr (kheap s) db) v m =
       (if in_range (block_addr (kheap s) b) (4096 * blocks_for sz) v then v OR 7 else paging_get (block_addr (kheap s) db) v (km s))"
    "\<And>a. owned_byte (block_addr (kheap s)) A a \<Longrightarrow> \<not> in_range (process + 116) 8192 a \<Longrightarrow> m a = km s a"
proof -
  let ?h = "kheap s" and ?k = "blocks_for sz"
  note d = process_memD [OF mem]
  obtain b where b: "fst (kzalloc ?h sz (km s)) = block_addr ?h b" "A b = None" "block_addr ?h b \<noteq> 0" "b + ?k \<le> hp_total ?h"
      "pgd_at ?h (snd (kzalloc ?h sz (km s))) (A(b \<mapsto> ?k)) ob db bs" "avail ?h (snd (kzalloc ?h sz (km s))) + ?k = avail ?h (km s)"
      "\<And>a. owned_byte (block_addr ?h) A a \<Longrightarrow> snd (kzalloc ?h sz (km s)) a = km s a"
      "\<And>a. in_range (block_addr ?h b) (unat sz) a \<Longrightarrow> snd (kzalloc ?h sz (km s)) a = 0"
      "\<And>v. is_page_aligned v \<Longrightarrow> paging_get (block_addr ?h db) v (snd (kzalloc ?h sz (km s))) = paging_get (block_addr ?h db) v (km s)"
    using pgd_at_kzalloc [OF d(1) f] by metis
  let ?p = "block_addr ?h b" and ?B = "A(b \<mapsto> ?k)"
  define m1 where "m1 = snd (kzalloc ?h sz (km s))"
  have up: "owned_byte (block_addr ?h) ?B a" if "owned_byte (block_addr ?h) A a" for a
    using kz.owned_byte_upd [where A = A, OF b(2) that] .
  have alo: "allocations_owned ?h m ?B process" if "\<And>j. j < 1024 \<Longrightarrow> ps_allocations (process_at m process) j = ps_allocations (process_at (km s) process) j" for m
    using d(7) b(2) that unfolding allocations_owned_def Let_def by (metis fun_upd_other option.distinct(1))
  have f1: "ps_allocations (process_at m1 process) j = ps_allocations (process_at (km s) process) j" if "j < 1024" for j
    by (rule process_fields_cong(2) [OF _ that]) (simp only: m1_def b(7) d(5))
  have mem1: "process_mem ?h m1 ?B process ob db bs"
    by (rule process_mem_keep [OF mem _ up _ alo [OF f1]]) (use b(5,7) in \<open>simp_all add: m1_def\<close>)
  note d1 = process_memD [OF mem1]
  have i: "i < 1024" using idx unfolding allocation_index_Some by simp
  have "allocation_index m1 process 0 0 1024 = Some i"
    unfolding idx [symmetric] by (rule process_fields_cong(3)) (simp only: m1_def b(7) d(5))
  then have idx1: "process_find_free_allocation_index process m1 = int i"
    by (simp only: process_find_free_allocation_index_def option.case)
  have sz: "unat sz \<le> 4294963200" using f by (simp add: heap_fits_def)
  define r where "r = paging_map_to (process_directory m1 process) ?p ?p (paging_align_address (?p + sz)) 7 m1"
  define m where "m = allocation_set process (int i) ?p sz (snd r)"
  have q: "?p = 0 \<or> (\<exists>c k. ?B c = Some k \<and> ?p = block_addr ?h c)" by auto
  note ms = process_map_set(2-7) [OF mem1 b(4) sz i q, where flags = 7 and n = sz, folded r_def, folded m_def]
  have ok: "fst r = 0" unfolding r_def by (rule process_map_set(1) [OF mem1 b(4) sz i q])
  show thesis
  proof (rule that [of b m])
    show "process_malloc process sz s = (?p, s\<lparr>km := m\<rparr>)"
      using b(1,3) ok idx1 by (simp add: process_malloc_def split_beta m1_def [symmetric] r_def [symmetric] m_def)
    show "avail ?h m + ?k = avail ?h (km s)" using ms(2) b(6) by (simp add: m1_def)
    show "ps_allocations (process_at m process) j = (if j = i then \<lparr>al_ptr = ?p, al_size = sz\<rparr>
        else ps_allocations (process_at (km s) process) j)" if "j < 1024" for j
      using ms(3) f1 that by (simp del: process_at_simps)
    show "m a = 0" if a: "in_range ?p (unat sz) a" for a
    proof -
      have o: "owned_byte (block_addr ?h) ?B a" using owned_byteI [of ?B b ?k] in_range_mono [OF a blocks_for_bound] by simp
      have "\<not> owned_byte (block_addr ?h) A a"
        using pgd_fresh_not_owned [OF d1(1) b(2)] in_range_mono [OF a blocks_for_bound] by blast
      then have "\<not> in_range (process + 116) 8192 a" using in_range_suffix(1) [of 116 8192 9364 process a] d(5) by auto
      then show ?thesis using ms(5) [OF o] b(8) [OF a] by (simp add: m1_def)
    qed
    show "paging_get (block_addr ?h db) v m = (if in_range ?p (4096 * ?k) v then v OR 7 else paging_get (block_addr ?h db) v (km s))"
      if v: "is_page_aligned v" for v using ms(4) [OF v] b(9) [OF v] by (simp add: m1_def)
    show "m a = km s a" if "owned_byte (block_addr ?h) A a" "\<not> in_range (process + 116) 8192 a" for a
      using ms(5) [OF up [OF that(1)] that(2)] b(7) [OF that(1)] by (simp add: m1_def)
  qed (rule b(2-4) ms(1))+
qed

text \<open>Releasing an owned run beside a page directory.\<close>

lemma pgd_at_kfree:
  assumes p: "pgd_at h m A ob db bs" and A: "A b = Some k"
  shows "pgd_at h (kfree h (block_addr h b) m) (A(b := None)) ob db bs"
    and "avail h (kfree h (block_addr h b) m) = avail h m + k"
    and "owned_byte (block_addr h) A a \<Longrightarrow> kfree h (block_addr h b) m a = m a"
    and "is_page_aligned v \<Longrightarrow> paging_get (block_addr h db) v (kfree h (block_addr h b) m) = paging_get (block_addr h db) v m"
proof -
  note d = pgd_atD [OF p]
  let ?S = "insert ob (insert db (set bs))" and ?m = "kfree h (block_addr h b) m"
  have none: "\<forall>c\<in>?S. A c = None" using d(6-8) by auto
  have b: "b \<notin> ?S" "own_pages A ?S b = Some k" using none A by (auto simp: own_pages_def)
  have B: "(own_pages A ?S)(b := None) = own_pages (A(b := None)) ?S"
    using b(1) by (auto simp: own_pages_def fun_eq_iff)
  have fr: "?m a = m a" if "owned_byte (block_addr h) (own_pages A ?S) a" for a
    by (rule kz.release_frame [OF d(1) b(2) that])
  have word: "load32 ?m (block_addr h c + of_nat (4 * j)) = load32 m (block_addr h c + of_nat (4 * j))"
    if "c \<in> ?S" "j < 1024" for c j
    by (rule owned_word [where B = "own_pages A ?S", OF own_pages_simps(3) [OF that(1)] that(2) fr])
  have tab: "table_of ?m (block_addr h db) i = table_of m (block_addr h db) i" if "i < 1024" for i
    using word [of db i] that by (simp add: table_of_def del: of_nat_mult)
  show "pgd_at h ?m (A(b := None)) ob db bs"
    using kz.release_rep [OF d(1) b(2), unfolded B] p b(1) none word [of ob 0] tab by (auto simp: pgd_at_def)
  show "avail h ?m = avail h m + k" by (rule kz.avail_release [OF d(1) b(2)])
  show "?m a = m a" if "owned_byte (block_addr h) A a" using fr owned_byte_own_pages [OF that none] .
  show "paging_get (block_addr h db) v ?m = paging_get (block_addr h db) v m" if "is_page_aligned v"
    using tab [OF pde_index_lt] d(11) [OF pde_index_lt] word [of "bs ! pde_index v" "pte_index v"] d(12) [OF pde_index_lt] pte_index_lt
    by (simp add: paging_get_eq [OF that] pte_addr_def del: of_nat_mult)
qed

lemma owned_block_inj:
  assumes "heap_rep h m B" and "B b = Some k" and "B c = Some n" and "block_addr h b = block_addr h c"
  shows "b = c"
proof (rule ccontr)
  assume "b \<noteq> c"
  from heap_rep_disj [OF assms(1-3) this] have "disj_range (block_addr h b) (4096 * k) (block_addr h b) (4096 * n)"
    by (simp add: assms(4))
  then show False using heap_repD(2) [OF assms(1,2)] heap_repD(2) [OF assms(1,3)] by (auto simp: disj_range_def)
qed

lemma process_free_run:
  assumes mem: "process_mem (kheap s) (km s) (A(b \<mapsto> blocks_for sz)) process ob db bs" and A: "A b = None"
    and k: "b + blocks_for sz \<le> hp_total (kheap s)" and sz: "unat sz \<le> 4294963200" and i: "i < 1024"
    and sl: "ps_allocations (process_at (km s) process) i = \<lparr>al_ptr = block_addr (kheap s) b, al_size = sz\<rparr>"
    and oth: "\<And>j. j < 1024 \<Longrightarrow> j \<noteq> i \<Longrightarrow> al_ptr (ps_allocations (process_at (km s) process) j) = 0
      \<or> (\<exists>c n. A c = Some n \<and> al_ptr (ps_allocations (process_at (km s) process) j) = block_addr (kheap s) c)"
    and own: "\<And>a. in_range process 9364 a \<Longrightarrow> owned_byte (block_addr (kheap s)) A a"
      "\<And>a. in_range (ps_task (process_at (km s) process)) 64 a \<Longrightarrow> owned_byte (block_addr (kheap s)) A a"
  obtains m where "process_free process (block_addr (kheap s) b) s = s\<lparr>km := m\<rparr>"
    "process_mem (kheap s) m A process ob db bs" "avail (kheap s) m = avail (kheap s) (km s) + blocks_for sz"
    "\<And>j. j < 1024 \<Longrightarrow> ps_allocations (process_at m process) j =
       (if j = i then \<lparr>al_ptr = 0, al_size = 0\<rparr> else ps_allocations (process_at (km s) process) j)"
    "\<And>v. is_page_aligned v \<Longrightarrow> paging_get (block_addr (kheap s) db) v m =
       (if in_range (block_addr (kheap s) b) (4096 * blocks_for sz) v then v else paging_get (block_addr (kheap s) db) v (km s))"
    "\<And>a. owned_byte (block_addr (kheap s)) A a \<Longrightarrow> \<not> in_range (process + 116) 8192 a \<Longrightarrow> m a = km s a"
proof -
  let ?h = "kheap s" and ?k = "blocks_for sz" and ?p = "block_addr (kheap s) b"
  let ?B = "A(b \<mapsto> ?k)"
  note d = process_memD [OF mem]
  have up: "owned_byte (block_addr ?h) ?B a" if "owned_byte (block_addr ?h) A a" for a
    using kz.owned_byte_upd [where A = A, OF A that] .
  let ?O = "own_pages ?B (insert ob (insert db (set bs)))"
  have O: "?O b = Some ?k" "\<And>c n. A c = Some n \<Longrightarrow> ?O c = Some n \<and> c \<noteq> b"
    using d(1) A by (auto simp: pgd_at_def own_pages_def)
  have "0 < ?k" using heap_repD(2) [OF pgd_atD(1) [OF d(1)] O(1)] .
  then have nz: "?p \<noteq> 0" using k by (intro block_addr_nonzero [OF d(2)]) simp
  have ne: "al_ptr (ps_allocations (process_at (km s) process) j) \<noteq> ?p" if "j < 1024" "j \<noteq> i" for j
    using oth [OF that] nz O owned_block_inj [OF pgd_atD(1) [OF d(1)]] by metis
  have idx: "is_current_process_ptr process ?p (km s) = int i"
  proof -
    have "allocation_index (km s) process ?p 0 1024 = Some i"
      unfolding allocation_index_Some using i sl ne by (auto simp del: process_at_simps)
    then show ?thesis by (simp only: is_current_process_ptr_def option.case)
  qed
  define r where "r = paging_map_to (process_directory (km s) process) ?p ?p (paging_align_address (?p + sz)) 0 (km s)"
  define m2 where "m2 = allocation_set process (int i) 0 0 (snd r)"
  note ms = process_map_set(2-7) [OF mem k sz i disjI1 [OF refl], where flags = 0 and n = 0, folded r_def, folded m2_def]
  have ok: "fst r = 0" unfolding r_def by (rule process_map_set(1) [OF mem k sz i disjI1 [OF refl]])
  note d3 = process_memD [OF ms(1)]
  define m where "m = kfree ?h ?p m2"
  note fr = pgd_at_kfree [OF d3(1), of b ?k, folded m_def]
  have B: "?B(b := None) = A" using A by auto
  have sl3: "ps_allocations (process_at m process) j = ps_allocations (process_at m2 process) j" if "j < 1024" for j
    by (rule process_fields_cong(2) [OF _ that]) (simp only: fr(3) [OF fun_upd_same] d3(5))
  show thesis
  proof (rule that [of m])
    show "process_free process ?p s = s\<lparr>km := m\<rparr>"
      using idx ok sl
      by (simp add: process_free_def Let_def split_beta r_def [symmetric] m2_def [symmetric] m_def del: process_at_simps)
    have "allocations_owned ?h m A process"
      using oth ms(3) sl3 unfolding allocations_owned_def Let_def by (auto simp del: process_at_simps)
    then show "process_mem ?h m A process ob db bs"
      by (intro process_mem_move [OF ms(1) fr(1) [unfolded B]]) (use own ms(6) fr(3) in auto)
    show "avail ?h m = avail ?h (km s) + ?k" using fr(2) ms(2) by simp
    show "ps_allocations (process_at m process) j = (if j = i then \<lparr>al_ptr = 0, al_size = 0\<rparr>
        else ps_allocations (process_at (km s) process) j)" if "j < 1024" for j
      using ms(3) sl3 that by (simp del: process_at_simps)
    show "paging_get (block_addr ?h db) v m =
       (if in_range ?p (4096 * ?k) v then v else paging_get (block_addr ?h db) v (km s))" if v: "is_page_aligned v" for v
      using fr(4) [OF _ v] ms(4) [OF v] by simp
    show "m a = km s a" if "owned_byte (block_addr ?h) A a" "\<not> in_range (process + 116) 8192 a" for a
      using fr(3) [OF _ up [OF that(1)]] ms(5) [OF up [OF that(1)] that(2)] by simp
  qed
qed

lemma process_malloc_full:
  assumes mem: "process_mem (kheap s) (km s) A process ob db bs" and f: "heap_fits (kheap s) (km s) sz"
    and idx: "allocation_index (km s) process 0 0 1024 = None"
  obtains m where "process_malloc process sz s = (0, s\<lparr>km := m\<rparr>)" "process_mem (kheap s) m A process ob db bs"
    "avail (kheap s) m = avail (kheap s) (km s)" "\<And>a. owned_byte (block_addr (kheap s)) A a \<Longrightarrow> m a = km s a"
    "\<And>v. is_page_aligned v \<Longrightarrow> paging_get (block_addr (kheap s) db) v m = paging_get (block_addr (kheap s) db) v (km s)"
proof -
  let ?h = "kheap s" and ?k = "blocks_for sz"
  note d = process_memD [OF mem]
  obtain b where b: "fst (kzalloc ?h sz (km s)) = block_addr ?h b" "A b = None" "block_addr ?h b \<noteq> 0"
      "pgd_at ?h (snd (kzalloc ?h sz (km s))) (A(b \<mapsto> ?k)) ob db bs" "avail ?h (snd (kzalloc ?h sz (km s))) + ?k = avail ?h (km s)"
      "\<And>a. owned_byte (block_addr ?h) A a \<Longrightarrow> snd (kzalloc ?h sz (km s)) a = km s a"
      "\<And>v. is_page_aligned v \<Longrightarrow> paging_get (block_addr ?h db) v (snd (kzalloc ?h sz (km s))) = paging_get (block_addr ?h db) v (km s)"
    using pgd_at_kzalloc [OF d(1) f] by metis
  define m1 where "m1 = snd (kzalloc ?h sz (km s))"
  define m where "m = kfree ?h (block_addr ?h b) m1"
  have "allocation_index m1 process 0 0 1024 = None"
    unfolding idx [symmetric] by (rule process_fields_cong(3)) (simp only: m1_def b(6) d(5))
  then have i: "process_find_free_allocation_index process m1 < 0"
    by (simp add: process_find_free_allocation_index_def)
  note fr = pgd_at_kfree [OF b(4) [folded m1_def] fun_upd_same, folded m_def]
  have B: "(A(b \<mapsto> ?k))(b := None) = A" using b(2) by auto
  have fr': "m a = km s a" if "owned_byte (block_addr ?h) A a" for a
    using fr(3) kz.owned_byte_upd [where A = A, OF b(2) that] b(6) [OF that] by (simp only: m1_def)
  have sl: "ps_allocations (process_at m process) j = ps_allocations (process_at (km s) process) j" if "j < 1024" for j
    by (rule process_fields_cong(2) [OF _ that]) (simp only: fr' d(5))
  have "allocations_owned ?h m A process" using d(7) sl by (simp add: allocations_owned_def del: process_at_simps)
  then have mem': "process_mem ?h m A process ob db bs"
    by (intro process_mem_keep [OF mem fr(1) [unfolded B] _ fr']) auto
  show thesis
    by (rule that [OF _ mem' _ fr']) (use b(1,3,5,7) i fr(2,4) in \<open>simp_all add: process_malloc_def split_beta m1_def m_def\<close>)
qed

text \<open>C3. \<^verbatim>\<open>process_malloc\<close>: while the table of the process has a free entry, the process gets a fresh, zeroed run of
  blocks, which its page directory maps at its own address for writing from user mode, and which is recorded in
  the first free entry; no other page is mapped differently, and of the memory the kernel owns only that entry is
  written. With a full table the result is null, no page is mapped differently, nothing the kernel owns is written (the table of the
  process and its other fields included) and as many blocks are free as before. In both cases the process and its
  table stay in order.\<close>

theorem process_malloc_maps:
  assumes "process_mem (kheap s) (km s) A process ob db bs" and "heap_fits (kheap s) (km s) sz"
  shows "case allocation_index (km s) process 0 0 LIEBE_OS_MAX_PROGRAM_ALLOCATIONS of
      None \<Rightarrow> \<exists>s'. process_malloc process sz s = (0, s') \<and> process_mem (kheap s) (km s') A process ob db bs
        \<and> avail (kheap s) (km s') = avail (kheap s) (km s)
        \<and> (\<forall>a. owned_byte (block_addr (kheap s)) A a \<longrightarrow> km s' a = km s a)
        \<and> (\<forall>j<LIEBE_OS_MAX_PROGRAM_ALLOCATIONS. ps_allocations (process_at (km s') process) j = ps_allocations (process_at (km s) process) j)
        \<and> (\<forall>v. is_page_aligned v \<longrightarrow> paging_get (process_directory (km s') process) v (km s')
             = paging_get (process_directory (km s) process) v (km s))
    | Some i \<Rightarrow> \<exists>b p s'. process_malloc process sz s = (p, s') \<and> p = block_addr (kheap s) b \<and> A b = None
        \<and> process_mem (kheap s) (km s') (A(b \<mapsto> blocks_for sz)) process ob db bs
        \<and> avail (kheap s) (km s') + blocks_for sz = avail (kheap s) (km s)
        \<and> (\<forall>a. in_range p (unat sz) a \<longrightarrow> km s' a = 0)
        \<and> ps_allocations (process_at (km s') process) i = \<lparr>al_ptr = p, al_size = sz\<rparr>
        \<and> (\<forall>j<LIEBE_OS_MAX_PROGRAM_ALLOCATIONS. j \<noteq> i \<longrightarrow> ps_allocations (process_at (km s') process) j = ps_allocations (process_at (km s) process) j)
        \<and> (\<forall>v. is_page_aligned v \<longrightarrow> paging_get (process_directory (km s') process) v (km s') =
             (if in_range p (4096 * blocks_for sz) v then v OR 7 else paging_get (process_directory (km s) process) v (km s)))
        \<and> (\<forall>a. owned_byte (block_addr (kheap s)) A a \<longrightarrow> \<not> in_range (process + 116) 8192 a \<longrightarrow> km s' a = km s a)"
proof (cases "allocation_index (km s) process 0 0 1024")
  case None
  obtain m where m: "process_malloc process sz s = (0, s\<lparr>km := m\<rparr>)" "process_mem (kheap s) m A process ob db bs"
      "avail (kheap s) m = avail (kheap s) (km s)" "\<And>a. owned_byte (block_addr (kheap s)) A a \<Longrightarrow> m a = km s a"
      "\<And>v. is_page_aligned v \<Longrightarrow> paging_get (block_addr (kheap s) db) v m = paging_get (block_addr (kheap s) db) v (km s)"
    by (rule process_malloc_full [OF assms None]) (rule that; assumption)
  have "ps_allocations (process_at m process) j = ps_allocations (process_at (km s) process) j" if "j < 1024" for j
    by (rule process_fields_cong(2) [OF _ that]) (simp only: m(4) process_memD(5) [OF assms(1)])
  moreover have "process_directory (km s) process = block_addr (kheap s) db" "process_directory m process = block_addr (kheap s) db"
    using process_memD(3) [OF assms(1)] process_memD(3) [OF m(2)] by simp_all
  ultimately show ?thesis
    unfolding None option.case using m by (intro exI [of _ "s\<lparr>km := m\<rparr>"]) (simp del: process_at_simps)
next
  case (Some i)
  have i: "i < 1024" using Some unfolding allocation_index_Some by simp
  show ?thesis
  proof (rule process_mallocE [OF assms Some])
  fix b m assume m: "process_malloc process sz s = (block_addr (kheap s) b, s\<lparr>km := m\<rparr>)" "A b = None"
    "block_addr (kheap s) b \<noteq> 0" "b + blocks_for sz \<le> hp_total (kheap s)"
    "process_mem (kheap s) m (A(b \<mapsto> blocks_for sz)) process ob db bs"
    "avail (kheap s) m + blocks_for sz = avail (kheap s) (km s)"
    "\<And>a. in_range (block_addr (kheap s) b) (unat sz) a \<Longrightarrow> m a = 0"
    "\<And>j. j < 1024 \<Longrightarrow> ps_allocations (process_at m process) j =
       (if j = i then \<lparr>al_ptr = block_addr (kheap s) b, al_size = sz\<rparr> else ps_allocations (process_at (km s) process) j)"
    "\<And>v. is_page_aligned v \<Longrightarrow> paging_get (block_addr (kheap s) db) v m =
       (if in_range (block_addr (kheap s) b) (4096 * blocks_for sz) v then v OR 7 else paging_get (block_addr (kheap s) db) v (km s))"
    "\<And>a. owned_byte (block_addr (kheap s)) A a \<Longrightarrow> \<not> in_range (process + 116) 8192 a \<Longrightarrow> m a = km s a"
  have dir: "process_directory (km s) process = block_addr (kheap s) db" "process_directory m process = block_addr (kheap s) db"
    using process_memD(3) [OF assms(1)] process_memD(3) [OF m(5)] by simp_all
  show ?thesis
    unfolding Some option.case
  proof (intro exI conjI allI impI)
    have km': "km (s\<lparr>km := m\<rparr>) = m" by simp
    show "process_malloc process sz s = (block_addr (kheap s) b, s\<lparr>km := m\<rparr>)" by (rule m(1))
    show "ps_allocations (process_at (km (s\<lparr>km := m\<rparr>)) process) i = \<lparr>al_ptr = block_addr (kheap s) b, al_size = sz\<rparr>"
      unfolding km' m(8) [OF i] by simp
    show "ps_allocations (process_at (km (s\<lparr>km := m\<rparr>)) process) j = ps_allocations (process_at (km s) process) j"
      if "j < LIEBE_OS_MAX_PROGRAM_ALLOCATIONS" "j \<noteq> i" for j
      unfolding km' m(8) [OF that(1)] using that(2) by (rule if_not_P)
    show "km (s\<lparr>km := m\<rparr>) a = 0" if "in_range (block_addr (kheap s) b) (unat sz) a" for a
      unfolding km' by (rule m(7) [OF that])
    show "km (s\<lparr>km := m\<rparr>) a = km s a" if "owned_byte (block_addr (kheap s)) A a" "\<not> in_range (process + 116) 8192 a" for a
      unfolding km' by (rule m(10) [OF that])
    show "A b = None" by (rule m(2))
    show "process_mem (kheap s) (km (s\<lparr>km := m\<rparr>)) (A(b \<mapsto> blocks_for sz)) process ob db bs" unfolding km' by (rule m(5))
  qed (simp_all add: m(6,9) dir)
  qed
qed

text \<open>C13. \<^verbatim>\<open>process_free\<close> of what \<^verbatim>\<open>process_malloc\<close> returned gives the run back: the kernel owns what it owned, the entry of
  the table is null again and the others are as they were, and the pages of the run are no longer present for the
  process, while all others are mapped as before.\<close>

theorem process_malloc_free:
  assumes "process_mem (kheap s) (km s) A process ob db bs" and "heap_fits (kheap s) (km s) sz"
    and "allocation_index (km s) process 0 0 LIEBE_OS_MAX_PROGRAM_ALLOCATIONS = Some i" and "process_malloc process sz s = (p, s1)"
  shows "process_mem (kheap s) (km (process_free process p s1)) A process ob db bs
    \<and> avail (kheap s) (km (process_free process p s1)) = avail (kheap s) (km s)
    \<and> (\<forall>j<1024. ps_allocations (process_at (km (process_free process p s1)) process) j =
         (if j = i then \<lparr>al_ptr = 0, al_size = 0\<rparr> else ps_allocations (process_at (km s) process) j))
    \<and> (\<forall>v. is_page_aligned v \<longrightarrow> paging_get (process_directory (km s) process) v (km (process_free process p s1)) =
         (if in_range p (4096 * blocks_for sz) v then v else paging_get (process_directory (km s) process) v (km s)))"
proof (rule process_mallocE [OF assms(1-3)])
  let ?h = "kheap s"
  note d = process_memD [OF assms(1)]
  have i: "i < 1024" using assms(3) unfolding allocation_index_Some by simp
  fix b m assume m: "process_malloc process sz s = (block_addr (kheap s) b, s\<lparr>km := m\<rparr>)" "A b = None"
    "block_addr (kheap s) b \<noteq> 0" "b + blocks_for sz \<le> hp_total (kheap s)"
    "process_mem (kheap s) m (A(b \<mapsto> blocks_for sz)) process ob db bs"
    "avail (kheap s) m + blocks_for sz = avail (kheap s) (km s)"
    "\<And>a. in_range (block_addr (kheap s) b) (unat sz) a \<Longrightarrow> m a = 0"
    "\<And>j. j < 1024 \<Longrightarrow> ps_allocations (process_at m process) j =
       (if j = i then \<lparr>al_ptr = block_addr (kheap s) b, al_size = sz\<rparr> else ps_allocations (process_at (km s) process) j)"
    "\<And>v. is_page_aligned v \<Longrightarrow> paging_get (block_addr (kheap s) db) v m =
       (if in_range (block_addr (kheap s) b) (4096 * blocks_for sz) v then v OR 7 else paging_get (block_addr (kheap s) db) v (km s))"
    "\<And>a. owned_byte (block_addr (kheap s)) A a \<Longrightarrow> \<not> in_range (process + 116) 8192 a \<Longrightarrow> m a = km s a"
  have e: "p = block_addr ?h b" "s1 = s\<lparr>km := m\<rparr>" using m(1) assms(4) by simp_all
  have sz: "unat sz \<le> 4294963200" using assms(2) by (simp add: heap_fits_def)
  have t: "ps_task (process_at m process) = ps_task (process_at (km s) process)"
    by (rule ps_task_frame) (use m(10) d(5) in simp)
  have t2: "owned_byte (block_addr ?h) A a" if "in_range (ps_task (process_at m process)) 64 a" for a
    using assms(1) that unfolding t process_mem_def by blast
  have o: "al_ptr (ps_allocations (process_at m process) j) = 0
      \<or> (\<exists>c n. A c = Some n \<and> al_ptr (ps_allocations (process_at m process) j) = block_addr ?h c)" if "j < 1024" "j \<noteq> i" for j
    using d(7) that m(8) [OF that(1)] unfolding allocations_owned_def Let_def by (auto simp del: process_at_simps)
  have s1: "kheap s1 = ?h" "km s1 = m" by (simp_all add: e)
  have "ps_allocations (process_at m process) i = \<lparr>al_ptr = block_addr ?h b, al_size = sz\<rparr>" unfolding m(8) [OF i] by simp
  note sl = this
  show ?thesis
  proof (rule process_free_run [of s1 A b sz process ob db bs i, unfolded s1, OF m(5,2,4) sz i sl])
    fix m2 assume "process_free process (block_addr ?h b) s1 = s1\<lparr>km := m2\<rparr>"
      "process_mem ?h m2 A process ob db bs" "avail ?h m2 = avail ?h m + blocks_for sz"
      "\<And>j. j < 1024 \<Longrightarrow> ps_allocations (process_at m2 process) j =
         (if j = i then \<lparr>al_ptr = 0, al_size = 0\<rparr> else ps_allocations (process_at m process) j)"
      "\<And>v. is_page_aligned v \<Longrightarrow> paging_get (block_addr ?h db) v m2 =
         (if in_range (block_addr ?h b) (4096 * blocks_for sz) v then v else paging_get (block_addr ?h db) v m)"
    then show ?thesis using m(6,8,9) d(3) by (simp add: e del: process_at_simps)
  qed (use o d(5) t2 in blast)+
qed

text \<open>The process of the witnesses, with a task.\<close>

definition started_kernel :: kernel where
  "started_kernel = (let (task, s) = task_new (fst lone_process) lone_kernel
     in s\<lparr>km := store32 (km s) (fst lone_process + 112) task\<rparr>)"

text \<open>A process whose other bytes are zero, with a new task.\<close>

lemma zero_entries:
  assumes z: "\<forall>a. in_range p 9364 a \<longrightarrow> a \<noteq> p + 8308 \<longrightarrow> \<not> in_range (p + 112) 4 a \<longrightarrow> m a = 0" and i: "i < 1024"
  shows "al_ptr (ps_allocations (process_at m p) i) = 0"
proof -
  have "m a = 0" if x: "in_range (p + of_nat (116 + 8 * i)) 4 a" for a
  proof -
    obtain j where j: "j < 4" "a = p + of_nat (116 + 8 * i) + of_nat j" using x by (rule in_range_exE)
    define k where "k = 116 + 8 * i + j"
    have k: "116 \<le> k" "k < 8308" "a = p + of_nat k" using j i by (simp_all add: k_def)
    have u: "unat (of_nat k :: u32) = k" "unat (of_nat (k - 112) :: u32) = k - 112" using k(2) by (simp_all add: unat_of_nat_u32)
    have "a - (p + 112) = of_nat (k - 112)" using k(1,3) by (simp add: of_nat_diff)
    then have "\<not> in_range (p + 112) 4 a" unfolding in_range_def using u(2) k(1) by (simp only:)
    moreover have "a \<noteq> p + 8308" using u(1) k(2,3) by auto
    moreover have "in_range p 9364 a" using k in_range_of_nat [of k 9364 p] by simp
    ultimately show ?thesis using z by simp
  qed
  then have "load32 m (p + of_nat (116 + 8 * i)) = 0" by (rule load32_zero)
  then show ?thesis by (simp add: algebra_simps)
qed

lemma process_mem_attach:
  fixes m p t
  defines "m' \<equiv> store32 m (p + 112) t"
  assumes pgd: "pgd_at h m A ob db bs" "unat (hp_saddr h) + 4096 * hp_total h < 4294967296"
    and own: "\<forall>a. in_range p 9364 a \<longrightarrow> owned_byte (block_addr h) A a" "\<forall>a. in_range t 64 a \<longrightarrow> owned_byte (block_addr h) A a"
    and dj: "disj_range p 9364 t 64" and dir: "load32 m t = block_addr h ob"
    and z: "\<forall>a. in_range p 9364 a \<longrightarrow> a \<noteq> p + 8308 \<longrightarrow> m a = 0"
  shows "process_mem h m' A p ob db bs" and "avail h m' = avail h m" and "table_words h f m bs \<Longrightarrow> table_words h f m' bs"
    and "i < 1024 \<Longrightarrow> al_ptr (ps_allocations (process_at m' p) i) = 0" and "ps_task (process_at m' p) = t"
    and "load32 m' (t + 52) = load32 m (t + 52)" and "m' (p + 8308) = m (p + 8308)"
proof -
  have f112: "in_range p 9364 a" if "in_range (p + 112) 4 a" for a
    using in_range_suffix(1) [of 112 4 9364 p a] that by simp
  have out: "m' a = m a" if "\<not> in_range (p + 112) 4 a" for a using that by (simp add: m'_def store32_other)
  note wr = pgd_at_owned_write [OF pgd(1), of m']
  have w: "pgd_at h m' A ob db bs" "avail h m' = avail h m" using wr(1,2) out f112 own(1) by blast+
  show "avail h m' = avail h m" by (rule w(2))
  show "table_words h f m' bs" if "table_words h f m bs" by (rule wr(3) [OF _ that]) (use out f112 own(1) in blast)
  show t: "ps_task (process_at m' p) = t" by (simp add: m'_def load32_store32)
  have far: "m' a = m a" if "in_range t 64 a" for a using out f112 disj_rangeD [OF dj] that by blast
  have lt: "load32 m' t = block_addr h ob"
    using load32_cong [of t m' m] far in_range_mono [of t 4 _ 64] dir by simp
  have "in_range t 64 a" if "in_range (t + 52) 4 a" for a by (rule in_range_offset [OF _ _ that]) (simp_all add: in_range_def)
  then show "load32 m' (t + 52) = load32 m (t + 52)" using far by (intro load32_cong) blast
  show "m' (p + 8308) = m (p + 8308)" by (rule out) (simp add: in_range_def)
  show e: "al_ptr (ps_allocations (process_at m' p) i) = 0" if "i < 1024" for i
    by (rule zero_entries [OF _ that]) (use z out in simp)
  have "allocations_owned h m' A p" using e by (simp add: allocations_owned_def del: process_at_simps)
  then show "process_mem h m' A p ob db bs"
    using w(1) pgd(2) t lt dj own by (simp add: process_mem_def del: process_at_simps)
qed

lemma started_kernel_mem:
  obtains A ob db bs where "process_mem (kheap started_kernel) (km started_kernel) A (fst lone_process) ob db bs"
    "0 < avail (kheap started_kernel) (km started_kernel)" "allocation_index (km started_kernel) (fst lone_process) 0 0 1024 = Some 0"
    "kheap started_kernel = kernel_heap" "ps_filetype (process_at (km started_kernel) (fst lone_process)) = 1"
    "table_words kernel_heap 5 (km started_kernel) bs" "ps_task (process_at (km started_kernel) (fst lone_process)) \<noteq> 0"
    "load32 (km started_kernel) (ps_task (process_at (km started_kernel) (fst lone_process)) + 52) = fst lone_process"
    "\<And>i. i < 1024 \<Longrightarrow> al_ptr (ps_allocations (process_at (km started_kernel) (fst lone_process)) i) = 0"
    "avail (kheap started_kernel) (km started_kernel) = 24570"
proof (rule lone_kernel_heap)
  fix A
  let ?s = lone_kernel and ?h = "kheap lone_kernel" and ?p = "fst lone_process"
  assume a: "heap_rep ?h (km ?s) A" "1027 \<le> avail ?h (km ?s)" "image_owned ?h (km ?s) A ?p"
    "\<And>a. in_range ?p 9364 a \<Longrightarrow> a \<noteq> ?p + 8308 \<Longrightarrow> km ?s a = 0" "avail ?h (km ?s) = 25597"
  have h: "?h = kernel_heap" by (simp add: lone_kernel_def example_kernel_def)
  show thesis
  proof (rule task_newE [OF a(1-3) lone_kernel_queue(3) lone_kernel_queue(1,2)])
    fix b ob db bs m
    let ?t = "block_addr ?h b"
    assume n: "task_new ?p ?s = (?t, ?s\<lparr>km := m, task_head := (if [] = [] then ?t else task_head ?s), task_tail := ?t,
        current_task := (if [] = [] then ?t else current_task ?s)\<rparr>)" "A b = None" "pgd_at ?h m (A(b \<mapsto> 1)) ob db bs"
      "avail ?h m + 1027 = avail ?h (km ?s)" "load32 m ?t = block_addr ?h ob"
      "table_words ?h 5 m bs" "load32 m (?t + 52) = ?p"
      "\<And>a. owned_byte (block_addr ?h) A a \<Longrightarrow> [] = [] \<or> \<not> in_range (last [] + 56) 4 a \<Longrightarrow> m a = km ?s a"
    let ?B = "A(b \<mapsto> 1)" let ?m = "store32 m (?p + 112) ?t"
    have s: "km started_kernel = ?m" "kheap started_kernel = ?h" using n(1) by (simp_all add: started_kernel_def)
    have oA: "owned_byte (block_addr ?h) A a" if "in_range ?p 9364 a" for a using a(3) that by (simp add: image_owned_def)
    have up: "owned_byte (block_addr ?h) ?B a" if "owned_byte (block_addr ?h) A a" for a
      using kz.owned_byte_upd [where A = A, OF n(2) that] .
    have tB: "owned_byte (block_addr ?h) ?B a" if "in_range ?t 64 a" for a
      using owned_byteI [of ?B b 1] in_range_mono [OF that, of "4096 * 1"] by simp
    have dj: "disj_range ?p 9364 ?t 64"
    proof (rule disj_rangeI)
      fix a assume "in_range ?p 9364 a" "in_range ?t 64 a"
      then show False using pgd_fresh_not_owned [OF n(3,2) oA] in_range_mono [of ?t 64 a "4096 * 1"] by auto
    qed
    note wfh = heap_repD(1) [OF pgd_atD(1) [OF n(3)]]
    have "own_pages ?B (insert ob (insert db (set bs))) b = Some 1" by (simp add: own_pages_def)
    then have bt: "b < hp_total ?h" using heap_repD(3) [OF pgd_atD(1) [OF n(3)]] by fastforce
    have own: "\<forall>a. in_range ?p 9364 a \<longrightarrow> owned_byte (block_addr ?h) ?B a" "\<forall>a. in_range ?t 64 a \<longrightarrow> owned_byte (block_addr ?h) ?B a"
      using oA up tB by blast+
    have z: "\<forall>a. in_range ?p 9364 a \<longrightarrow> a \<noteq> ?p + 8308 \<longrightarrow> m a = 0" using n(8) oA a(4) by simp
    have big: "unat (hp_saddr ?h) + 4096 * hp_total ?h < 4294967296" by (simp add: h)
    note at = process_mem_attach [OF n(3) big own dj n(5) z]
    have "in_range ?p 9364 (?p + of_nat 8308)" by (rule in_range_of_nat) simp_all
    then have "m (?p + 8308) = km ?s (?p + 8308)" using n(8) oA by simp
    then have "ps_filetype (process_at ?m ?p) = 1" using at(7) by (simp add: lone_kernel_def lone_process_def split_beta)
    moreover have "allocation_index ?m ?p 0 0 1024 = Some 0" unfolding allocation_index_Some using at(4) [of 0] by simp
    ultimately show thesis
      using that [of ?B ob db bs] at(1,2,4-6) at(3) [OF n(6)] n(4,7) a(5) block_addr_nonzero [OF wfh bt]
      by (simp add: s h del: process_at_simps)
  qed
qed

theorem process_malloc_maps_witness:
  "\<exists>p s'. process_malloc (fst lone_process) 100 started_kernel = (p, s') \<and> (\<forall>a. in_range p 100 a \<longrightarrow> km s' a = 0)
     \<and> ps_allocations (process_at (km s') (fst lone_process)) 0 = \<lparr>al_ptr = p, al_size = 100\<rparr>"
proof (rule started_kernel_mem)
  fix A ob db bs
  let ?s = started_kernel and ?p = "fst lone_process"
  assume a: "process_mem (kheap ?s) (km ?s) A ?p ob db bs" "0 < avail (kheap ?s) (km ?s)"
    "allocation_index (km ?s) ?p 0 0 1024 = Some 0"
  have f: "heap_fits (kheap ?s) (km ?s) 100" using kz.avail_fits [OF pgd_atD(1) [OF process_memD(1) [OF a(1)]] a(2)] by simp
  show ?thesis using process_malloc_maps [OF a(1) f] unfolding a(3) option.case
    by (auto simp del: process_at_simps)
qed

theorem process_malloc_free_witness:
  "case process_malloc (fst lone_process) 100 started_kernel of (p, s1) \<Rightarrow>
     avail kernel_heap (km (process_free (fst lone_process) p s1)) = avail kernel_heap (km started_kernel)"
proof (rule started_kernel_mem)
  fix A ob db bs
  let ?s = started_kernel and ?p = "fst lone_process"
  assume a: "process_mem (kheap ?s) (km ?s) A ?p ob db bs" "0 < avail (kheap ?s) (km ?s)"
    "allocation_index (km ?s) ?p 0 0 1024 = Some 0" "kheap ?s = kernel_heap"
  have f: "heap_fits (kheap ?s) (km ?s) 100" using kz.avail_fits [OF pgd_atD(1) [OF process_memD(1) [OF a(1)]] a(2)] by simp
  obtain p s1 where m: "process_malloc ?p 100 ?s = (p, s1)" by force
  show ?thesis using process_malloc_free [OF a(1) f a(3) m] by (simp add: m a(4) del: process_at_simps)
qed

end
