(* ===== verification/ProcessImage.thy ===== *)
theory ProcessImage
  imports ProcessMem
begin

text \<open>
  What a program sees of its image and its stack after \<^verbatim>\<open>process_map_memory\<close>, and what the end of a process releases:
  \<^verbatim>\<open>src/src/task/process.c\<close>.
\<close>

section \<open>The image and the stack\<close>

lemma process_word_keep:
  assumes "process_mem h m A process ob db bs" and "\<And>a. owned_byte (block_addr h) A a \<Longrightarrow> m' a = m a" and "k + 4 \<le> 9364"
  shows "load32 m' (process + of_nat k) = load32 m (process + of_nat k)"
  by (rule load32_cong) (use process_memD(5) [OF assms(1)] assms(2,3) in_range_suffix(1) [of k 4 9364 process] in simp)

text \<open>One interval of whole pages, as \<^verbatim>\<open>process_map_memory\<close> maps them.\<close>

lemma map_interval:
  assumes mem: "process_mem h m A process ob db bs" and al: "is_page_aligned virt" "is_page_aligned p"
    and sz: "unat p + 4096 * blocks_for sz < 4294967296" "unat sz \<le> 4294963200"
  defines "r \<equiv> paging_map_to (process_directory m process) virt p (paging_align_address (p + sz)) 7 m"
  shows "fst r = 0" "process_mem h (snd r) A process ob db bs" "\<And>a. owned_byte (block_addr h) A a \<Longrightarrow> snd r a = m a"
    "k < unat sz \<Longrightarrow> paging_get_physical_address (block_addr h db) (virt + of_nat k) (snd r) = p + of_nat k"
    "is_page_aligned w \<Longrightarrow> \<forall>i<blocks_for sz. w \<noteq> virt + of_nat (4096 * i) \<Longrightarrow>
       paging_get (block_addr h db) w (snd r) = paging_get (block_addr h db) w m"
proof -
  note d = process_memD [OF mem]
  have n: "int (blocks_for sz) \<le> 1048576" using sz(1) by linarith
  obtain res m' where r': "paging_map_range (block_addr h db) virt p (int (blocks_for sz)) 7 m = (res, m')" by force
  have r: "r = (res, m')"
    unfolding r_def d(3) align_run [OF al(2) sz(2)] paging_map_to_pages [OF al sz(1)] r' ..
  note tr = paging_map_range_bytes [OF wf_pgd_pgd_at [OF d(1)] al _ n _ r']
  show "fst r = 0" using tr by (simp add: r)
  note pg = paging_map_range_pgd [OF d(1), where virt = virt and phys = p and n = "int (blocks_for sz)" and flags = 7, unfolded r' snd_conv]
  have fr: "m' a = m a" if "owned_byte (block_addr h) A a" for a using pg(3) [OF that] .
  have "pgd_at h m' A ob db bs" by (rule pg(1))
  then show "process_mem h (snd r) A process ob db bs" unfolding r snd_conv by (rule process_mem_map [OF mem _ fr])
  show "\<And>a. owned_byte (block_addr h) A a \<Longrightarrow> snd r a = m a" using fr by (simp add: r)
  show "paging_get_physical_address (block_addr h db) (virt + of_nat k) (snd r) = p + of_nat k" if "k < unat sz"
    using tr that blocks_for_bound [of sz] by (simp add: r)
  show "paging_get (block_addr h db) w (snd r) = paging_get (block_addr h db) w m"
    if "is_page_aligned w" "\<forall>i<blocks_for sz. w \<noteq> virt + of_nat (4096 * i)"
    using tr that by (simp add: r)
qed

lemma stack_pages: "is_page_aligned (0x3FB000 :: u32)" "is_page_aligned (0x400000 :: u32)" "blocks_for (1024 * 16) = 4"
  by (simp_all add: is_page_aligned_def blocks_for_def)

text \<open>The pages of the image are above those of the stack.\<close>

lemma image_not_stack:
  assumes "i < 4" and "k < 4286578688"
  shows "paging_align_to_lower_page (0x400000 + of_nat k :: u32) \<noteq> 0x3FB000 + of_nat (4096 * i)"
proof -
  let ?v = "0x400000 + of_nat k :: u32"
  have uv: "unat ?v = 4194304 + k" using assms(2) unat_of_nat_u32 [of k] by (simp add: unat_word_ariths)
  have "4194304 \<le> unat (paging_align_to_lower_page ?v)"
    unfolding unat_lower_page uv by (simp add: div_add_self1 [symmetric] algebra_simps)
  moreover have "unat (0x3FB000 + of_nat (4096 * i) :: u32) < 4194304"
    using assms(1) unat_of_nat_u32 [of "4096 * i"] by (simp only: unat_word_ariths) simp
  ultimately show ?thesis by force
qed

text \<open>C23. A flat binary finds itself at \<^verbatim>\<open>0x400000\<close>, byte for byte, and its stack of 16 KiB below \<^verbatim>\<open>0x3FF000\<close>; no
  page but those of the image and of the stack is mapped differently; the process stays in order and no other
  memory the kernel owns is written.\<close>

theorem process_map_memory_binary:
  assumes "process_mem (kheap s) (km s) A process ob db bs" and "ps_filetype (process_at (km s) process) = PROCESS_FILETYPE_BINARY"
    and "is_page_aligned (ps_ptr (process_at (km s) process))" and "is_page_aligned (ps_stack (process_at (km s) process))"
    and "unat (ps_ptr (process_at (km s) process)) + 4096 * blocks_for (ps_size (process_at (km s) process)) < 4294967296"
    and "unat (ps_size (process_at (km s) process)) \<le> 4286578688"
    and "unat (ps_stack (process_at (km s) process)) + 16384 < 4294967296"
  shows "\<exists>s'. process_map_memory process s = Returned 0 s' \<and> process_mem (kheap s) (km s') A process ob db bs
    \<and> (\<forall>k < unat (ps_size (process_at (km s) process)).
         paging_get_physical_address (process_directory (km s') process) (LIEBE_OS_PROGRAM_VIRTUAL_ADDRESS + of_nat k) (km s')
           = ps_ptr (process_at (km s) process) + of_nat k)
    \<and> (\<forall>k<16384. paging_get_physical_address (process_directory (km s') process) (LIEBE_OS_PROGRAM_VIRTUAL_STACK_ADDRESS_END + of_nat k) (km s')
           = ps_stack (process_at (km s) process) + of_nat k)
    \<and> (\<forall>v. is_page_aligned v
         \<longrightarrow> (\<forall>i<blocks_for (ps_size (process_at (km s) process)). v \<noteq> LIEBE_OS_PROGRAM_VIRTUAL_ADDRESS + of_nat (4096 * i))
         \<longrightarrow> (\<forall>i<4. v \<noteq> LIEBE_OS_PROGRAM_VIRTUAL_STACK_ADDRESS_END + of_nat (4096 * i))
         \<longrightarrow> paging_get (process_directory (km s') process) v (km s') = paging_get (process_directory (km s) process) v (km s))
    \<and> (\<forall>a. owned_byte (block_addr (kheap s)) A a \<longrightarrow> km s' a = km s a)"
proof -
  let ?h = "kheap s" and ?sz = "ps_size (process_at (km s) process)" and ?p = "ps_ptr (process_at (km s) process)"
    and ?st = "ps_stack (process_at (km s) process)" and ?dir = "block_addr (kheap s) db"
  define r1 where "r1 = paging_map_to (process_directory (km s) process) 0x400000 ?p (paging_align_address (?p + ?sz)) 7 (km s)"
  have sz: "unat ?sz \<le> 4294963200" using assms(6) by linarith
  note r1 = map_interval [OF assms(1) stack_pages(2) assms(3,5) sz, folded r1_def]
  have st: "load32 (snd r1) (process + 8316) = ?st"
    using process_word_keep [OF assms(1) r1(3), of 8316] by simp
  define r2 where "r2 = paging_map_to (process_directory (snd r1) process) 0x3FB000 ?st (paging_align_address (?st + 1024 * 16)) 7 (snd r1)"
  have b: "unat ?st + 4096 * blocks_for (1024 * 16) < 4294967296" "unat (1024 * 16 :: u32) \<le> 4294963200"
    using assms(7) by (simp_all only: stack_pages(3)) simp_all
  note r2 = map_interval [OF r1(2) stack_pages(1) assms(4) b, folded r2_def]
  have "process_map_binary process (km s) = r1" by (simp only: process_map_binary_def r1_def)
  moreover have "paging_map_to (process_directory (snd r1) process) 4173824 (ps_stack (process_at (snd r1) process))
      (paging_align_address (ps_stack (process_at (snd r1) process) + 16384)) 7 (snd r1) = r2"
    by (simp add: r2_def st)
  ultimately have eq: "process_map_memory process s = Returned 0 (s\<lparr>km := snd r2\<rparr>)"
    using assms(2) r1(1) by (simp add: process_map_memory_def Let_def split_beta del: process_at_simps)
  have dir: "process_directory (snd r2) process = ?dir" using process_memD(3) [OF r2(2)] .
  have img: "paging_get_physical_address ?dir (0x400000 + of_nat k) (snd r2) = ?p + of_nat k" if "k < unat ?sz" for k
  proof -
    have "paging_get ?dir (paging_align_to_lower_page (0x400000 + of_nat k)) (snd r2)
        = paging_get ?dir (paging_align_to_lower_page (0x400000 + of_nat k)) (snd r1)"
      by (rule r2(5) [OF lower_page_aligned], unfold stack_pages(3)) (use image_not_stack assms(6) that in auto)
    then show ?thesis using r1(4) [OF that] by (simp add: paging_get_physical_address_def)
  qed
  have other: "paging_get ?dir v (snd r2) = paging_get ?dir v (km s)"
    if "is_page_aligned v" "\<forall>i<blocks_for ?sz. v \<noteq> 0x400000 + of_nat (4096 * i)" "\<forall>i<4. v \<noteq> 0x3FB000 + of_nat (4096 * i)" for v
    using r2(5) [OF that(1), unfolded stack_pages(3), OF that(3)] r1(5) [OF that(1,2)] by simp
  have old: "process_directory (km s) process = ?dir" using process_memD(3) [OF assms(1)] .
  show ?thesis
    by (rule exI [of _ "s\<lparr>km := snd r2\<rparr>"]) (use eq r2(2) dir old img other r2(4) r2(3) r1(3) in \<open>simp del: process_at_simps of_nat_mult\<close>)
qed

section \<open>The end of a process\<close>

text \<open>Releasing only ever clears bytes of the heap table, or bytes in front of it.\<close>

lemma kfree_clears: "m a = 0 \<Longrightarrow> kfree h p m a = 0"
  by (simp add: kfree_def heap_free_def heap_mark_blocks_free_def mark_free_loop_clears)

lemma fold_kfree_clears: "m a = 0 \<Longrightarrow> fold (\<lambda>i m. kfree h (f i m) m) is m a = 0"
  by (induction "is" arbitrary: m) (simp_all add: kfree_clears)

lemma load32_null: "load32 m p = 0 \<Longrightarrow> in_range p 4 a \<Longrightarrow> m a = 0"
proof -
  assume l: "load32 m p = 0" and a: "in_range p 4 a"
  have b: "bit (load32 m p) (k + 8 * j) = bit (m (p + of_nat j)) k" if "k < 8" "j < 4" for k j
  proof -
    from that(2) consider "j = 0" | "j = 1" | "j = 2" | "j = 3" by linarith
    then show ?thesis using that(1) by cases (auto simp: load32_def bit_simps dest: bit_imp_le_length)
  qed
  obtain j where j: "j < 4" "a = p + of_nat j" using a by (rule in_range_exE)
  have "\<not> bit (m a) k" if "k < 8" for k using b [OF that j(1)] l j(2) by simp
  then show "m a = 0" by (intro bit_word_eqI) simp
qed

text \<open>C40. Null entries of the table are released like the others, and \<^verbatim>\<open>kfree\<close> of null writes: ending a process with a
  free entry, or a program that gives null to \<^verbatim>\<open>free\<close>, clears the byte at \<^verbatim>\<open>0x6E00\<close>, which is not in the heap table.\<close>

theorem process_null_frees:
  assumes "kheap s = kernel_heap" and "allocation_index (km s) process 0 0 LIEBE_OS_MAX_PROGRAM_ALLOCATIONS = Some j"
  shows "km (snd (process_terminate_allocations process s)) 0x6E00 = 0
    \<and> (al_size (ps_allocations (process_at (km s) process) j) = 0 \<longrightarrow> km (process_free process 0 s) 0x6E00 = 0)
    \<and> \<not> in_range (hp_entries kernel_heap) (hp_total kernel_heap) 0x6E00"
proof -
  have j: "j < 1024" "load32 (km s) (process + 116 + of_nat (8 * j)) = 0"
    using assms(2) unfolding allocation_index_Some by simp_all
  let ?f = "\<lambda>i m. kfree kernel_heap (load32 m (process + 116 + of_nat (8 * i))) m"
  define m1 where "m1 = fold ?f [0..<j] (km s)"
  have u: "[0..<1024] = [0..<j] @ j # [Suc j..<1024]"
    using j(1) upt_add_eq_append [of 0 j "1024 - j"] upt_conv_Cons [of j 1024] by simp
  have "m1 a = 0" if "in_range (process + 116 + of_nat (8 * j)) 4 a" for a
    unfolding m1_def by (rule fold_kfree_clears) (rule load32_null [OF j(2) that])
  then have "load32 m1 (process + 116 + of_nat (8 * j)) = 0" by (rule load32_zero)
  then have "?f j m1 0x6E00 = 0" using kfree_null_writes by simp
  then have "fold ?f [Suc j..<1024] (?f j m1) 0x6E00 = 0" by (rule fold_kfree_clears)
  then have t: "km (snd (process_terminate_allocations process s)) 0x6E00 = 0"
    using assms(1) by (simp add: process_terminate_allocations_def u m1_def del: upt_Suc of_nat_mult)
  have "km (process_free process 0 s) 0x6E00 = 0" if "al_size (ps_allocations (process_at (km s) process) j) = 0"
  proof -
    have "is_current_process_ptr process 0 (km s) = int j" by (simp only: is_current_process_ptr_def assms(2) option.case)
    then show ?thesis
      using that j(2) assms(1) kfree_null_writes
      by (simp add: process_free_def Let_def split_beta paging_map_to_def paging_align_address_def paging_map_range_def del: of_nat_mult)
  qed
  then show ?thesis using t kfree_null_writes by simp
qed

theorem process_null_frees_witness:
  "km (snd (process_terminate_allocations (fst lone_process) started_kernel)) 0x6E00 = 0"
  by (rule started_kernel_mem) (use process_null_frees in blast)

text \<open>The process of the witnesses with a program of one page and a stack of four.\<close>

definition loaded_kernel :: kernel where
  "loaded_kernel = started_kernel\<lparr>km := store32 (store32 (store32 (km started_kernel) (fst lone_process + 8312) 0x2000000)
     (fst lone_process + 8316) 0x3000000) (fst lone_process + 8320) 100\<rparr>"

lemma process_mem_image:
  assumes mem: "process_mem h m A process ob db bs" and out: "\<And>a. \<not> in_range (process + 8312) 12 a \<Longrightarrow> m' a = m a"
  shows "process_mem h m' A process ob db bs"
proof -
  note d = process_memD [OF mem]
  let ?t = "ps_task (process_at m process)"
  have in_p: "in_range process 9364 a" if "in_range (process + 8312) 12 a" for a
    using in_range_suffix(1) [of 8312 12 9364 process a] that by simp
  have word: "load32 m' (process + of_nat k) = load32 m (process + of_nat k)" if "k + 4 \<le> 8312" for k
  proof (rule load32_cong)
    fix a assume "in_range (process + of_nat k) 4 a"
    then obtain j where j: "j < 4" "a = process + of_nat k + of_nat j" by (rule in_range_exE)
    then have "unat (a - process) = k + j" using that unat_of_nat_u32 [of "k + j"] by simp
    moreover have "8312 \<le> unat (a - process)" if "in_range (process + 8312) 12 a"
      using in_range_suffix(2) [of 8312 12 9364 process a] that by simp
    ultimately show "m' a = m a" using out j(1) that by fastforce
  qed
  have t: "ps_task (process_at m' process) = ?t" using word [of 112] by simp
  have sl: "ps_allocations (process_at m' process) i = ps_allocations (process_at m process) i" if "i < 1024" for i
    using word [of "116 + 8 * i"] word [of "120 + 8 * i"] that by (simp add: process_at_def algebra_simps)
  have "load32 m' ?t = load32 m ?t"
    by (rule load32_cong) (use mem out in_p disj_rangeD [of process 9364 ?t 64] in_range_mono [of ?t 4 _ 64] in
      \<open>force simp: process_mem_def simp del: process_at_simps\<close>)
  moreover have "pgd_at h m' A ob db bs" using pgd_at_owned_write(1) [OF d(1), of m'] out in_p d(5) by blast
  moreover have "allocations_owned h m' A process" using d(7) sl by (simp add: allocations_owned_def del: process_at_simps)
  ultimately show ?thesis using mem t by (simp add: process_mem_def del: process_at_simps)
qed

lemma loaded_kernel_mem:
  assumes "process_mem (kheap started_kernel) (km started_kernel) A (fst lone_process) ob db bs"
  shows "process_mem (kheap loaded_kernel) (km loaded_kernel) A (fst lone_process) ob db bs"
proof -
  let ?p = "fst lone_process"
  have o: "store32 m (?p + 8312) v a = m a" "store32 m (?p + 8316) v a = m a" "store32 m (?p + 8320) v a = m a"
    if "\<not> in_range (?p + 8312) 12 a" for m v a
    using that in_range_suffix(1) [of 0 4 12 "?p + 8312" a] in_range_suffix(1) [of 4 4 12 "?p + 8312" a]
      in_range_suffix(1) [of 8 4 12 "?p + 8312" a]
    by (auto intro!: store32_other simp: algebra_simps)
  have "km loaded_kernel a = km started_kernel a" if "\<not> in_range (?p + 8312) 12 a" for a
    using o [OF that] by (simp add: loaded_kernel_def)
  then show ?thesis using process_mem_image [OF assms] by (simp add: loaded_kernel_def)
qed

theorem process_map_memory_binary_witness:
  "\<exists>s'. process_map_memory (fst lone_process) loaded_kernel = Returned 0 s'
     \<and> paging_get_physical_address (process_directory (km s') (fst lone_process)) 0x400010 (km s') = 0x2000010
     \<and> paging_get_physical_address (process_directory (km s') (fst lone_process)) 0x3FEFFC (km s') = 0x3003FFC
     \<and> paging_get (process_directory (km s') (fst lone_process)) 0x401000 (km s')
         = paging_get (process_directory (km loaded_kernel) (fst lone_process)) 0x401000 (km loaded_kernel)"
proof (rule started_kernel_mem)
  fix A ob db bs
  let ?p = "fst lone_process" and ?s = started_kernel and ?l = loaded_kernel
  assume a: "process_mem (kheap ?s) (km ?s) A ?p ob db bs" "ps_filetype (process_at (km ?s) ?p) = 1"
  have "ps_filetype (process_at (km ?l) ?p) = 1"
  proof -
    have "\<not> in_range (?p + 8312) 4 (?p + 8308)" "\<not> in_range (?p + 8316) 4 (?p + 8308)" "\<not> in_range (?p + 8320) 4 (?p + 8308)"
      by (simp_all add: in_range_def)
    then show ?thesis using a(2) by (simp add: loaded_kernel_def store32_other)
  qed
  moreover have f: "ps_ptr (process_at (km ?l) ?p) = 0x2000000" "ps_stack (process_at (km ?l) ?p) = 0x3000000"
      "ps_size (process_at (km ?l) ?p) = 100"
    by (simp_all add: loaded_kernel_def mem_simps)
  moreover have "blocks_for 100 = 1" by (simp add: blocks_for_def)
  ultimately have "\<exists>s'. process_map_memory ?p ?l = Returned 0 s' \<and> process_mem (kheap ?l) (km s') A ?p ob db bs
    \<and> (\<forall>k < 100. paging_get_physical_address (process_directory (km s') ?p) (0x400000 + of_nat k) (km s') = 0x2000000 + of_nat k)
    \<and> (\<forall>k<16384. paging_get_physical_address (process_directory (km s') ?p) (0x3FF000 - 1024 * 16 + of_nat k) (km s') = 0x3000000 + of_nat k)
    \<and> (\<forall>v. is_page_aligned v \<longrightarrow> (\<forall>i<1. v \<noteq> 0x400000 + of_nat (4096 * i)) \<longrightarrow> (\<forall>i<4. v \<noteq> 0x3FF000 - 1024 * 16 + of_nat (4096 * i))
         \<longrightarrow> paging_get (process_directory (km s') ?p) v (km s') = paging_get (process_directory (km ?l) ?p) v (km ?l))
    \<and> (\<forall>a. owned_byte (block_addr (kheap ?l)) A a \<longrightarrow> km s' a = km ?l a)"
    using process_map_memory_binary [OF loaded_kernel_mem [OF a(1)]] unfolding f by (simp add: is_page_aligned_def)
  then obtain s' where s': "process_map_memory ?p ?l = Returned 0 s'"
    "\<And>k. k < 100 \<Longrightarrow> paging_get_physical_address (process_directory (km s') ?p) (0x400000 + of_nat k) (km s') = 0x2000000 + of_nat k"
    "\<And>k. k < 16384 \<Longrightarrow> paging_get_physical_address (process_directory (km s') ?p) (0x3FF000 - 1024 * 16 + of_nat k) (km s') = 0x3000000 + of_nat k"
    "\<And>v. is_page_aligned v \<Longrightarrow> \<forall>i<1. v \<noteq> 0x400000 + of_nat (4096 * i) \<Longrightarrow> \<forall>i<4. v \<noteq> 0x3FF000 - 1024 * 16 + of_nat (4096 * i)
       \<Longrightarrow> paging_get (process_directory (km s') ?p) v (km s') = paging_get (process_directory (km ?l) ?p) v (km ?l)"
    by auto
  have "is_page_aligned (0x401000 :: u32)" "\<forall>i<1. (0x401000 :: u32) \<noteq> 0x400000 + of_nat (4096 * i)" by (simp_all add: is_page_aligned_def)
  moreover have "\<forall>i<4. (0x401000 :: u32) \<noteq> 0x3FF000 - 1024 * 16 + of_nat (4096 * i)"
  proof (intro allI impI)
    fix i :: nat assume "i < 4"
    then have "i = 0 \<or> i = 1 \<or> i = 2 \<or> i = 3" by linarith
    then show "(0x401000 :: u32) \<noteq> 0x3FF000 - 1024 * 16 + of_nat (4096 * i)" by auto
  qed
  ultimately show ?thesis using s'(1) s'(2) [of 16] s'(3) [of 16380] s'(4) [of "0x401000"] by auto
qed

end
