(* ===== verification/ProcessSteps.thy ===== *)
theory ProcessSteps
  imports ProcessMem
begin

text \<open>
  A running process as a step relation: allocations and releases in any order (\<^verbatim>\<open>process_malloc\<close> and \<^verbatim>\<open>process_free\<close>
  of \<^verbatim>\<open>src/src/task/process.c\<close>, which system calls 4 and 5 reach), with the program's own stores into the memory it got
  in between, and the invariant they keep.
\<close>

section \<open>The steps\<close>

text \<open>The bytes of entry \<open>i\<close> of the table: whole blocks, from the recorded pointer on. A null entry has none.\<close>

definition slot_ptr :: "mem \<Rightarrow> ptr \<Rightarrow> nat \<Rightarrow> ptr" where
  "slot_ptr m process i = al_ptr (ps_allocations (process_at m process) i)"

definition slot_blocks :: "mem \<Rightarrow> ptr \<Rightarrow> nat \<Rightarrow> nat" where
  "slot_blocks m process i = (if slot_ptr m process i = 0 then 0 else blocks_for (al_size (ps_allocations (process_at m process) i)))"

definition slot_byte :: "mem \<Rightarrow> ptr \<Rightarrow> nat \<Rightarrow> ptr \<Rightarrow> bool" where
  "slot_byte m process i a \<longleftrightarrow> in_range (slot_ptr m process i) (4096 * slot_blocks m process i) a"

definition recorded_blocks :: "mem \<Rightarrow> ptr \<Rightarrow> nat" where
  "recorded_blocks m process = (\<Sum>i<LIEBE_OS_MAX_PROGRAM_ALLOCATIONS. slot_blocks m process i)"

text \<open>
  A step is an allocation the heap has room for, a release of any pointer but null, be it known or not (a release of
  null finds an unused entry: \<open>ProcessImage\<close> shows what that does), or a store of the program into a run it got: the
  pages of the run are mapped at their own addresses, so the byte written is the byte of that address.
\<close>

inductive process_step :: "ptr \<Rightarrow> kernel \<Rightarrow> kernel \<Rightarrow> bool" where
  malloc: "heap_fits (kheap s) (km s) sz \<Longrightarrow> process_step process s (snd (process_malloc process sz s))"
| free: "p \<noteq> 0 \<Longrightarrow> process_step process s (process_free process p s)"
| store: "i < LIEBE_OS_MAX_PROGRAM_ALLOCATIONS \<Longrightarrow> slot_byte (km s) process i a \<Longrightarrow>
    process_step process s (s\<lparr>km := (km s)(a := v)\<rparr>)"

inductive_cases process_stepE: "process_step process s s'"

section \<open>The invariant\<close>

text \<open>
  Against the state \<open>m0\<close> in which the process had no allocations and the kernel owned \<open>A0\<close>: \<open>R\<close> gives the block at
  which the run of an entry starts, and the kernel owns \<open>A0\<close> and these runs.
\<close>

definition slots_own :: "heap \<Rightarrow> mem \<Rightarrow> (nat \<rightharpoonup> nat) \<Rightarrow> (nat \<rightharpoonup> nat) \<Rightarrow> ptr \<Rightarrow> (nat \<rightharpoonup> nat) \<Rightarrow> bool" where
  "slots_own h m A0 A process R \<longleftrightarrow> dom R \<subseteq> {..<1024} \<and> inj_on R (dom R)
     \<and> (\<forall>i<1024. R i = None \<longrightarrow> slot_ptr m process i = 0)
     \<and> (\<forall>i b. R i = Some b \<longrightarrow> slot_ptr m process i = block_addr h b \<and> A b = Some (slot_blocks m process i) \<and> A0 b = None
          \<and> unat (al_size (ps_allocations (process_at m process) i)) \<le> 4294963200)
     \<and> (\<forall>c. c \<notin> ran R \<longrightarrow> A c = A0 c)"

definition process_owned :: "heap \<Rightarrow> mem \<Rightarrow> (nat \<rightharpoonup> nat) \<Rightarrow> ptr \<Rightarrow> bool" where
  "process_owned h m A process \<longleftrightarrow> (\<forall>a. in_range process 9364 a \<longrightarrow> owned_byte (block_addr h) A a)
     \<and> (\<forall>a. in_range (ps_task (process_at m process)) 64 a \<longrightarrow> owned_byte (block_addr h) A a)"

definition slots_mapped :: "heap \<Rightarrow> mem \<Rightarrow> mem \<Rightarrow> ptr \<Rightarrow> nat \<Rightarrow> bool" where
  "slots_mapped h m0 m process db \<longleftrightarrow> (\<forall>v. is_page_aligned v \<longrightarrow>
     (if \<exists>i<1024. slot_byte m process i v then paging_get (block_addr h db) v m = v OR 7
      else paging_get (block_addr h db) v m \<in> {v, paging_get (block_addr h db) v m0}))"

definition process_inv :: "heap \<Rightarrow> mem \<Rightarrow> (nat \<rightharpoonup> nat) \<Rightarrow> mem \<Rightarrow> (nat \<rightharpoonup> nat) \<Rightarrow> ptr \<Rightarrow> nat \<Rightarrow> nat \<Rightarrow> nat list \<Rightarrow> (nat \<rightharpoonup> nat) \<Rightarrow> bool" where
  "process_inv h m0 A0 m A process ob db bs R \<longleftrightarrow> process_mem h m A process ob db bs \<and> process_owned h m A0 process
     \<and> slots_own h m A0 A process R \<and> avail h m + recorded_blocks m process = avail h m0
     \<and> slots_mapped h m0 m process db
     \<and> (\<forall>a. owned_byte (block_addr h) A0 a \<longrightarrow> \<not> in_range (process + 116) 8192 a \<longrightarrow> m a = m0 a)"

lemma process_invD:
  assumes "process_inv h m0 A0 m A process ob db bs R"
  shows "process_mem h m A process ob db bs" "process_owned h m A0 process" "slots_own h m A0 A process R"
    "avail h m + recorded_blocks m process = avail h m0" "slots_mapped h m0 m process db"
    "\<And>a. owned_byte (block_addr h) A0 a \<Longrightarrow> \<not> in_range (process + 116) 8192 a \<Longrightarrow> m a = m0 a"
  using assms by (simp_all add: process_inv_def)

lemma slots_ownD:
  assumes "slots_own h m A0 A process R"
  shows "dom R \<subseteq> {..<1024}" "i < 1024 \<Longrightarrow> R i = None \<Longrightarrow> slot_ptr m process i = 0"
    "R i = Some b \<Longrightarrow> slot_ptr m process i = block_addr h b" "R i = Some b \<Longrightarrow> A b = Some (slot_blocks m process i)"
    "R i = Some b \<Longrightarrow> A0 b = None" "R i = Some b \<Longrightarrow> unat (al_size (ps_allocations (process_at m process) i)) \<le> 4294963200"
    "c \<notin> ran R \<Longrightarrow> A c = A0 c" "R i = Some b \<Longrightarrow> R j = Some b \<Longrightarrow> i = j" "R i = Some b \<Longrightarrow> i < 1024"
  using assms by (auto simp: slots_own_def inj_on_def dom_def)

lemma slots_own_mono: "slots_own h m A0 A process R \<Longrightarrow> A0 c = Some k \<Longrightarrow> A c = Some k"
  using slots_ownD(5) [of h m A0 A process R _ c] slots_ownD(7) [of h m A0 A process R c] by (auto simp: ran_def)

lemma slots_owned_byte: "slots_own h m A0 A process R \<Longrightarrow> owned_byte (block_addr h) A0 a \<Longrightarrow> owned_byte (block_addr h) A a"
  unfolding owned_byte_def using slots_own_mono by blast

text \<open>Entries with the same contents.\<close>

lemma slot_cong:
  assumes "ps_allocations (process_at m' process) i = ps_allocations (process_at m process) i"
  shows "slot_ptr m' process i = slot_ptr m process i" and "slot_blocks m' process i = slot_blocks m process i"
    and "slot_byte m' process i a = slot_byte m process i a"
  unfolding slot_ptr_def slot_blocks_def slot_byte_def assms by simp_all

lemma recorded_blocks_set:
  assumes i: "i < 1024" and o: "\<And>j. j < 1024 \<Longrightarrow> j \<noteq> i \<Longrightarrow> slot_blocks m' process j = slot_blocks m process j"
  shows "recorded_blocks m' process + slot_blocks m process i = recorded_blocks m process + slot_blocks m' process i"
proof -
  have "sum f {..<1024} = f i + sum f ({..<1024} - {i})" for f :: "nat \<Rightarrow> nat"
    using i by (intro sum.remove) auto
  moreover have "sum (slot_blocks m' process) ({..<1024} - {i}) = sum (slot_blocks m process) ({..<1024} - {i})"
    by (rule sum.cong) (use o in auto)
  ultimately show ?thesis by (simp add: recorded_blocks_def)
qed

lemma recorded_blocks_cong:
  assumes "\<And>j. j < 1024 \<Longrightarrow> slot_blocks m' process j = slot_blocks m process j"
  shows "recorded_blocks m' process = recorded_blocks m process"
  unfolding recorded_blocks_def by (rule sum.cong) (use assms in auto)

lemma slot_byte_null: "slot_ptr m process i = 0 \<Longrightarrow> \<not> slot_byte m process i a"
  by (simp add: slot_byte_def slot_blocks_def in_range_def)

text \<open>Two entries never share a byte.\<close>

lemma slots_disj:
  assumes p: "process_mem h m A process ob db bs" and s: "slots_own h m A0 A process R" and ij: "i < 1024" "j < 1024" "i \<noteq> j"
    and a: "slot_byte m process i a"
  shows "\<not> slot_byte m process j a"
proof (cases "R i = None \<or> R j = None")
  case True
  then show ?thesis using a slots_ownD(2) [OF s] ij slot_byte_null by metis
next
  case False
  then obtain b c where bc: "R i = Some b" "R j = Some c" by auto
  let ?O = "own_pages A (insert ob (insert db (set bs)))"
  note d = process_memD(1) [OF p]
  have "?O b = Some (slot_blocks m process i)" "?O c = Some (slot_blocks m process j)"
    using slots_ownD(4) [OF s] bc d by (auto simp: pgd_at_def own_pages_def)
  moreover have "b \<noteq> c" using slots_ownD(8) [OF s bc(1), of j] bc(2) ij(3) by auto
  ultimately have "disj_range (block_addr h b) (4096 * slot_blocks m process i) (block_addr h c) (4096 * slot_blocks m process j)"
    by (rule heap_rep_disj [OF pgd_atD(1) [OF d]])
  then show ?thesis using a slots_ownD(3) [OF s] bc disj_rangeD by (metis slot_byte_def)
qed

text \<open>An entry shares no byte with what the kernel owns otherwise.\<close>

lemma slot_byte_not_owned:
  assumes p: "process_mem h m A process ob db bs" and s: "slots_own h m A0 A process R" and i: "i < 1024"
    and a: "slot_byte m process i a"
  shows "owned_byte (block_addr h) A a" and "\<not> owned_byte (block_addr h) A0 a"
proof -
  have "R i \<noteq> None" using a slots_ownD(2) [OF s i] slot_byte_null by metis
  then obtain b where b: "R i = Some b" by auto
  have r: "in_range (block_addr h b) (4096 * slot_blocks m process i) a"
    using a slots_ownD(3) [OF s b] by (simp add: slot_byte_def)
  then show "owned_byte (block_addr h) A a" using owned_byteI slots_ownD(4) [OF s b] by blast
  let ?B = "A(b := None)"
  have B: "?B(b \<mapsto> slot_blocks m process i) = A" using slots_ownD(4) [OF s b] by auto
  have "owned_byte (block_addr h) ?B a" if "owned_byte (block_addr h) A0 a"
    using that slots_own_mono [OF s] slots_ownD(5) [OF s b] unfolding owned_byte_def by (metis fun_upd_other option.distinct(1))
  then show "\<not> owned_byte (block_addr h) A0 a"
    using pgd_fresh_not_owned [of h m ?B b "slot_blocks m process i" ob db bs a] r process_memD(1) [OF p] B by auto
qed

section \<open>Every step keeps it\<close>

lemma process_owned_frame:
  assumes o: "process_owned h m A0 process" and fr: "\<And>a. owned_byte (block_addr h) A0 a \<Longrightarrow> \<not> in_range (process + 116) 8192 a \<Longrightarrow> m' a = m a"
  shows "ps_task (process_at m' process) = ps_task (process_at m process)" and "process_owned h m' A0 process"
proof -
  show t: "ps_task (process_at m' process) = ps_task (process_at m process)"
    by (rule ps_task_frame) (use fr o in \<open>simp add: process_owned_def\<close>)
  show "process_owned h m' A0 process" using o unfolding process_owned_def t .
qed

text \<open>One entry \<open>i\<close> changes: its old run is unmapped, its new run is mapped, and the others stay.\<close>

lemma slots_mapped_step:
  assumes mp: "slots_mapped h m0 m process db" and i: "i < 1024"
    and m: "process_mem h m A process ob db bs" "slots_own h m A0 A process R"
    and m': "process_mem h m' A' process ob db bs" "slots_own h m' A0 A' process R'"
    and sl: "\<And>j. j < 1024 \<Longrightarrow> j \<noteq> i \<Longrightarrow> ps_allocations (process_at m' process) j = ps_allocations (process_at m process) j"
    and g: "\<And>v. is_page_aligned v \<Longrightarrow> paging_get (block_addr h db) v m' =
      (if slot_byte m' process i v then v OR 7 else if slot_byte m process i v then v else paging_get (block_addr h db) v m)"
  shows "slots_mapped h m0 m' process db"
  unfolding slots_mapped_def
proof (intro allI impI)
  fix v :: ptr assume v: "is_page_aligned v"
  let ?g = "paging_get (block_addr h db) v"
  have old: "if \<exists>j<1024. slot_byte m process j v then ?g m = v OR 7 else ?g m \<in> {v, ?g m0}"
    using mp v unfolding slots_mapped_def by blast
  show "if \<exists>j<1024. slot_byte m' process j v then ?g m' = v OR 7 else ?g m' \<in> {v, ?g m0}"
  proof (cases "slot_byte m' process i v")
    case True
    then show ?thesis using g [OF v] i by auto
  next
    case new: False
    show ?thesis
    proof (cases "slot_byte m process i v")
      case True
      have "\<not> slot_byte m' process j v" if "j < 1024" for j
        using slots_disj [OF m i that _ True] new slot_cong(3) [OF sl [OF that]] by metis
      then show ?thesis using g [OF v] new True by auto
    next
      case False
      have "(\<exists>j<1024. slot_byte m' process j v) \<longleftrightarrow> (\<exists>j<1024. slot_byte m process j v)"
        using new False slot_cong(3) [OF sl] by metis
      moreover have "?g m' = ?g m" using g [OF v] new False by simp
      ultimately show ?thesis using old by metis
    qed
  qed
qed

lemma process_inv_slot:
  assumes inv: "process_inv h m0 A0 m A process ob db bs R" and i: "i < 1024"
    and m': "process_mem h m' A' process ob db bs" "slots_own h m' A0 A' process R'"
    and av: "avail h m' + slot_blocks m' process i = avail h m + slot_blocks m process i"
    and sl: "\<And>j. j < 1024 \<Longrightarrow> j \<noteq> i \<Longrightarrow> ps_allocations (process_at m' process) j = ps_allocations (process_at m process) j"
    and g: "\<And>v. is_page_aligned v \<Longrightarrow> paging_get (block_addr h db) v m' =
      (if slot_byte m' process i v then v OR 7 else if slot_byte m process i v then v else paging_get (block_addr h db) v m)"
    and fr: "\<And>a. owned_byte (block_addr h) A0 a \<Longrightarrow> \<not> in_range (process + 116) 8192 a \<Longrightarrow> m' a = m a"
  shows "process_inv h m0 A0 m' A' process ob db bs R'"
proof -
  note d = process_invD [OF inv]
  have "recorded_blocks m' process + slot_blocks m process i = recorded_blocks m process + slot_blocks m' process i"
    by (rule recorded_blocks_set [OF i slot_cong(2) [OF sl]])
  then have "avail h m' + recorded_blocks m' process = avail h m0" using av d(4) by linarith
  moreover have "slots_mapped h m0 m' process db" by (rule slots_mapped_step [OF d(5) i d(1,3) m' sl g])
  ultimately show ?thesis
    using m' process_owned_frame(2) [OF d(2) fr] fr d(6) by (simp add: process_inv_def)
qed

lemma slots_own_malloc:
  assumes s: "slots_own h m A0 A process R" and i: "i < 1024" "R i = None" and b: "A b = None" "block_addr h b \<noteq> 0"
    and sz: "unat sz \<le> 4294963200"
    and sl: "\<And>j. j < 1024 \<Longrightarrow> ps_allocations (process_at m' process) j =
      (if j = i then \<lparr>al_ptr = block_addr h b, al_size = sz\<rparr> else ps_allocations (process_at m process) j)"
  shows "slots_own h m' A0 (A(b \<mapsto> blocks_for sz)) process (R(i \<mapsto> b))"
proof -
  have nb: "R j \<noteq> Some b" for j using slots_ownD(4) [OF s, of j b] b(1) by auto
  have A0: "A0 b = None" using slots_ownD(7) [OF s, of b] nb b(1) by (auto simp: ran_def)
  have new: "slot_ptr m' process i = block_addr h b" "slot_blocks m' process i = blocks_for sz"
      "al_size (ps_allocations (process_at m' process) i) = sz"
    using sl [OF i(1)] b(2) by (simp_all add: slot_ptr_def slot_blocks_def del: process_at_simps)
  have old: "ps_allocations (process_at m' process) j = ps_allocations (process_at m process) j" if "j < 1024" "j \<noteq> i" for j
    using sl [OF that(1)] that(2) by simp
  have oth: "slot_ptr m' process j = block_addr h c \<and> A c = Some (slot_blocks m' process j) \<and> A0 c = None
      \<and> unat (al_size (ps_allocations (process_at m' process) j)) \<le> 4294963200" if "R j = Some c" "j \<noteq> i" for j c
  proof -
    have j: "j < 1024" by (rule slots_ownD(9) [OF s that(1)])
    show ?thesis using slots_ownD(3-6) [OF s that(1)] slot_cong(1,2) [OF old [OF j that(2)]] old [OF j that(2)] by simp
  qed
  have cb: "R j = Some c \<Longrightarrow> c \<noteq> b" for j c using nb by auto
  show ?thesis
    unfolding slots_own_def
  proof (intro conjI allI impI)
    show "dom (R(i \<mapsto> b)) \<subseteq> {..<1024}" using slots_ownD(1) [OF s] i(1) by auto
    show "inj_on (R(i \<mapsto> b)) (dom (R(i \<mapsto> b)))"
      using slots_ownD(8) [OF s] nb i(2) by (auto simp: inj_on_def dom_def)
    show "slot_ptr m' process j = 0" if "j < 1024" "(R(i \<mapsto> b)) j = None" for j
      using that slots_ownD(2) [OF s, of j] slot_cong(1) [OF old, of j] by (auto split: if_splits)
    show "(A(b \<mapsto> blocks_for sz)) c = A0 c" if "c \<notin> ran (R(i \<mapsto> b))" for c
      using that slots_ownD(7) [OF s, of c] i(2) by auto
  qed (use oth new A0 sz cb in \<open>auto split: if_splits\<close>)
qed

lemma slots_own_free:
  assumes s: "slots_own h m A0 A process R" and i: "R i = Some b"
    and sl: "\<And>j. j < 1024 \<Longrightarrow> ps_allocations (process_at m' process) j =
      (if j = i then \<lparr>al_ptr = 0, al_size = 0\<rparr> else ps_allocations (process_at m process) j)"
  shows "slots_own h m' A0 (A(b := None)) process (R(i := None))"
proof -
  have nb: "R j \<noteq> Some b" if "j \<noteq> i" for j using slots_ownD(8) [OF s i, of j] that by auto
  have old: "ps_allocations (process_at m' process) j = ps_allocations (process_at m process) j" if "j < 1024" "j \<noteq> i" for j
    using sl [OF that(1)] that(2) by simp
  have oth: "slot_ptr m' process j = block_addr h c \<and> A c = Some (slot_blocks m' process j) \<and> A0 c = None
      \<and> unat (al_size (ps_allocations (process_at m' process) j)) \<le> 4294963200 \<and> c \<noteq> b" if "R j = Some c" "j \<noteq> i" for j c
  proof -
    have j: "j < 1024" by (rule slots_ownD(9) [OF s that(1)])
    show ?thesis using slots_ownD(3-6) [OF s that(1)] slot_cong(1,2) [OF old [OF j that(2)]] old [OF j that(2)] nb [OF that(2)] that(1) by auto
  qed
  have new: "slot_ptr m' process i = 0" using sl [of i] slots_ownD(9) [OF s i] by (simp add: slot_ptr_def del: process_at_simps)
  show ?thesis
    unfolding slots_own_def
  proof (intro conjI allI impI)
    show "dom (R(i := None)) \<subseteq> {..<1024}" using slots_ownD(1) [OF s] by auto
    show "inj_on (R(i := None)) (dom (R(i := None)))"
      using slots_ownD(8) [OF s] by (auto simp: inj_on_def dom_def)
    show "slot_ptr m' process j = 0" if "j < 1024" "(R(i := None)) j = None" for j
      using that new slots_ownD(2) [OF s, of j] slot_cong(1) [OF old, of j] by (auto split: if_splits)
    show "(A(b := None)) c = A0 c" if c: "c \<notin> ran (R(i := None))" for c
    proof (cases "c = b")
      case False
      then have "c \<notin> ran R" using c i unfolding ran_def by (auto split: if_splits) (metis option.inject)
      then show ?thesis using False slots_ownD(7) [OF s] by simp
    qed (use slots_ownD(5) [OF s i] in simp)
  qed (use oth in \<open>auto split: if_splits\<close>)
qed

lemma slots_own_cong:
  assumes s: "slots_own h m A0 A process R"
    and sl: "\<And>j. j < 1024 \<Longrightarrow> ps_allocations (process_at m' process) j = ps_allocations (process_at m process) j"
  shows "slots_own h m' A0 A process R"
  unfolding slots_own_def
proof (intro conjI allI impI)
  show "slot_ptr m' process j = 0" if "j < 1024" "R j = None" for j
    using slots_ownD(2) [OF s that] slot_cong(1) [OF sl [OF that(1)]] by simp
  fix j b assume r: "R j = Some b"
  note j = slots_ownD(9) [OF s r]
  show "slot_ptr m' process j = block_addr h b" "A b = Some (slot_blocks m' process j)" "A0 b = None"
    "unat (al_size (ps_allocations (process_at m' process) j)) \<le> 4294963200"
    using slots_ownD(3-6) [OF s r] slot_cong(1,2) [OF sl [OF j]] sl [OF j] by simp_all
qed (use s in \<open>simp_all add: slots_own_def\<close>)

text \<open>A step that leaves the table and the mappings alone.\<close>

lemma process_inv_same:
  assumes inv: "process_inv h m0 A0 m A process ob db bs R" and m': "process_mem h m' A process ob db bs"
    and av: "avail h m' = avail h m"
    and sl: "\<And>j. j < 1024 \<Longrightarrow> ps_allocations (process_at m' process) j = ps_allocations (process_at m process) j"
    and g: "\<And>v. is_page_aligned v \<Longrightarrow> paging_get (block_addr h db) v m' = paging_get (block_addr h db) v m"
    and fr: "\<And>a. owned_byte (block_addr h) A0 a \<Longrightarrow> m' a = m a"
  shows "process_inv h m0 A0 m' A process ob db bs R"
proof -
  note d = process_invD [OF inv]
  have z: "(0::nat) < 1024" by simp
  have "paging_get (block_addr h db) v m = v OR 7" if "is_page_aligned v" "slot_byte m process 0 v" for v
    using d(5) that z unfolding slots_mapped_def by metis
  then show ?thesis
    by (intro process_inv_slot [OF inv z m' slots_own_cong [OF d(3) sl]])
      (use av sl g fr slot_cong [OF sl [OF z]] in auto)
qed

lemma slots_run:
  assumes p: "process_mem h m A process ob db bs" and s: "slots_own h m A0 A process R" and r: "R i = Some b"
  shows "0 < slot_blocks m process i" and "b + slot_blocks m process i \<le> hp_total h"
proof -
  note d = process_memD(1) [OF p]
  have "own_pages A (insert ob (insert db (set bs))) b = Some (slot_blocks m process i)"
    using slots_ownD(4) [OF s r] d by (auto simp: pgd_at_def own_pages_def)
  then show "0 < slot_blocks m process i" "b + slot_blocks m process i \<le> hp_total h"
    using heap_repD(2,3) [OF pgd_atD(1) [OF d]] by blast+
qed

lemma slots_null:
  "process_mem h m A process ob db bs \<Longrightarrow> slots_own h m A0 A process R \<Longrightarrow> slot_ptr m process i = 0 \<Longrightarrow> R i = None"
  using slots_run(1) [of h m A process ob db bs A0 R i] by (cases "R i") (auto simp: slot_blocks_def)

lemma process_inv_malloc:
  assumes inv: "process_inv (kheap s) m0 A0 (km s) A process ob db bs R" and f: "heap_fits (kheap s) (km s) sz"
  obtains A' R' where "process_inv (kheap s) m0 A0 (km (snd (process_malloc process sz s))) A' process ob db bs R'"
    "kheap (snd (process_malloc process sz s)) = kheap s"
proof (cases "allocation_index (km s) process 0 0 1024")
  case None
  note d = process_invD [OF inv]
  show thesis
  proof (rule process_malloc_full [OF d(1) f None])
    fix m assume m: "process_malloc process sz s = (0, s\<lparr>km := m\<rparr>)" "process_mem (kheap s) m A process ob db bs"
      "avail (kheap s) m = avail (kheap s) (km s)" "\<And>a. owned_byte (block_addr (kheap s)) A a \<Longrightarrow> m a = km s a"
      "\<And>v. is_page_aligned v \<Longrightarrow> paging_get (block_addr (kheap s) db) v m = paging_get (block_addr (kheap s) db) v (km s)"
    have "process_inv (kheap s) m0 A0 m A process ob db bs R"
      by (rule process_inv_same [OF inv m(2,3) process_fields_cong(2) m(5) m(4) [OF slots_owned_byte [OF d(3)]]])
        (use m(4) process_memD(5) [OF d(1)] in auto)
    then show thesis using that m(1) by simp
  qed
next
  case (Some i)
  note d = process_invD [OF inv]
  have i: "i < 1024" "slot_ptr (km s) process i = 0" using Some unfolding allocation_index_Some by (simp_all add: slot_ptr_def)
  show thesis
  proof (rule process_mallocE [OF d(1) f Some])
    fix b m
    let ?b = "block_addr (kheap s) b"
    assume m: "process_malloc process sz s = (?b, s\<lparr>km := m\<rparr>)" "A b = None" "?b \<noteq> 0" "b + blocks_for sz \<le> hp_total (kheap s)"
      "process_mem (kheap s) m (A(b \<mapsto> blocks_for sz)) process ob db bs"
      "avail (kheap s) m + blocks_for sz = avail (kheap s) (km s)"
      "\<And>j. j < 1024 \<Longrightarrow> ps_allocations (process_at m process) j =
         (if j = i then \<lparr>al_ptr = ?b, al_size = sz\<rparr> else ps_allocations (process_at (km s) process) j)"
      "\<And>v. is_page_aligned v \<Longrightarrow> paging_get (block_addr (kheap s) db) v m =
         (if in_range ?b (4096 * blocks_for sz) v then v OR 7 else paging_get (block_addr (kheap s) db) v (km s))"
      "\<And>a. owned_byte (block_addr (kheap s)) A a \<Longrightarrow> \<not> in_range (process + 116) 8192 a \<Longrightarrow> m a = km s a"
    have sz: "unat sz \<le> 4294963200" using f by (simp add: heap_fits_def)
    have so: "slots_own (kheap s) m A0 (A(b \<mapsto> blocks_for sz)) process (R(i \<mapsto> b))"
      by (rule slots_own_malloc [OF d(3) i(1) slots_null [OF d(1,3) i(2)] m(2,3) sz m(7)])
    have new: "slot_blocks (km s) process i = 0" "slot_blocks m process i = blocks_for sz" "slot_ptr m process i = ?b"
      using i(2) m(3) m(7) [OF i(1)] by (simp_all add: slot_ptr_def slot_blocks_def del: process_at_simps)
    have "process_inv (kheap s) m0 A0 m (A(b \<mapsto> blocks_for sz)) process ob db bs (R(i \<mapsto> b))"
    proof (rule process_inv_slot [OF inv i(1) m(5) so])
      show "avail (kheap s) m + slot_blocks m process i = avail (kheap s) (km s) + slot_blocks (km s) process i"
        using m(6) new by simp
    qed (use m(7,8) m(9) [OF slots_owned_byte [OF d(3)]] new in \<open>auto simp: slot_byte_def in_range_def simp del: process_at_simps\<close>)
    then show thesis using that m(1) by simp
  qed
qed

lemma process_inv_release:
  assumes inv: "process_inv (kheap s) m0 A0 (km s) A process ob db bs R" and i: "R i = Some b"
  obtains A' R' where
    "process_inv (kheap s) m0 A0 (km (process_free process (block_addr (kheap s) b) s)) A' process ob db bs R'"
    "kheap (process_free process (block_addr (kheap s) b) s) = kheap s"
proof -
  note d = process_invD [OF inv]
  let ?A = "A(b := None)" and ?sz = "al_size (ps_allocations (process_at (km s) process) i)" and ?b = "block_addr (kheap s) b"
  note r = slots_ownD [OF d(3)]
  have lt: "i < 1024" by (rule r(9) [OF i])
  have k: "slot_blocks (km s) process i = blocks_for ?sz" and nz: "?b \<noteq> 0"
    using slots_run(1) [OF d(1,3) i] r(3) [OF i] by (auto simp: slot_blocks_def split: if_splits)
  have A: "?A(b \<mapsto> blocks_for ?sz) = A" using r(4) [OF i] k by auto
  have sl: "ps_allocations (process_at (km s) process) i = \<lparr>al_ptr = ?b, al_size = ?sz\<rparr>"
    using r(3) [OF i] by (simp add: slot_ptr_def)
  have oth: "al_ptr (ps_allocations (process_at (km s) process) j) = 0
      \<or> (\<exists>c n. ?A c = Some n \<and> al_ptr (ps_allocations (process_at (km s) process) j) = block_addr (kheap s) c)"
    if "j < 1024" "j \<noteq> i" for j
  proof (cases "R j")
    case (Some c)
    then have "c \<noteq> b" using r(8) [OF i, of j] that(2) by auto
    then have "?A c = Some (slot_blocks (km s) process j)" using r(4) [OF Some] by simp
    then show ?thesis using r(3) [OF Some] unfolding slot_ptr_def by blast
  qed (use r(2) [OF that(1)] in \<open>simp add: slot_ptr_def del: process_at_simps\<close>)
  have up: "owned_byte (block_addr (kheap s)) ?A a" if "owned_byte (block_addr (kheap s)) A0 a" for a
    using that slots_own_mono [OF d(3)] r(5) [OF i] unfolding owned_byte_def by (metis fun_upd_other option.distinct(1))
  show thesis
  proof (rule process_free_run [of s ?A b ?sz process ob db bs i, unfolded A, OF d(1) fun_upd_same _ r(6) [OF i] lt sl oth])
    fix m assume m: "process_free process ?b s = s\<lparr>km := m\<rparr>" "process_mem (kheap s) m ?A process ob db bs"
      "avail (kheap s) m = avail (kheap s) (km s) + blocks_for ?sz"
      "\<And>j. j < 1024 \<Longrightarrow> ps_allocations (process_at m process) j =
         (if j = i then \<lparr>al_ptr = 0, al_size = 0\<rparr> else ps_allocations (process_at (km s) process) j)"
      "\<And>v. is_page_aligned v \<Longrightarrow> paging_get (block_addr (kheap s) db) v m =
         (if in_range ?b (4096 * blocks_for ?sz) v then v else paging_get (block_addr (kheap s) db) v (km s))"
      "\<And>a. owned_byte (block_addr (kheap s)) ?A a \<Longrightarrow> \<not> in_range (process + 116) 8192 a \<Longrightarrow> m a = km s a"
    have new: "slot_blocks m process i = 0" "slot_ptr m process i = 0"
      using m(4) [OF lt] by (simp_all add: slot_ptr_def slot_blocks_def del: process_at_simps)
    have "process_inv (kheap s) m0 A0 m ?A process ob db bs (R(i := None))"
      by (rule process_inv_slot [OF inv lt m(2) slots_own_free [OF d(3) i m(4)]])
        (use m(3-5) m(6) [OF up] new k r(3) [OF i] in \<open>auto simp: slot_byte_def in_range_def simp del: process_at_simps\<close>)
    then show thesis using that m(1) by simp
  qed (use slots_run(2) [OF d(1,3) i] k d(2) up in \<open>auto simp: process_owned_def\<close>)
qed

lemma process_inv_free:
  assumes inv: "process_inv (kheap s) m0 A0 (km s) A process ob db bs R" and p: "p \<noteq> 0"
  obtains A' R' where "process_inv (kheap s) m0 A0 (km (process_free process p s)) A' process ob db bs R'"
    "kheap (process_free process p s) = kheap s"
proof (cases "allocation_index (km s) process p 0 1024")
  case None
  then have "process_free process p s = s" by (simp add: process_free_def is_current_process_ptr_def)
  then show thesis using that inv by simp
next
  case (Some i)
  note d = process_invD [OF inv]
  have i: "i < 1024" "slot_ptr (km s) process i = p" using Some unfolding allocation_index_Some by (simp_all add: slot_ptr_def)
  then obtain b where b: "R i = Some b" using slots_ownD(2) [OF d(3) i(1)] p by (cases "R i") auto
  have "p = block_addr (kheap s) b" using slots_ownD(3) [OF d(3) b] i(2) by simp
  then show thesis using process_inv_release [OF inv b] that by blast
qed

lemma process_inv_store:
  assumes inv: "process_inv h m0 A0 m A process ob db bs R" and i: "i < 1024" and a: "slot_byte m process i a"
  shows "process_inv h m0 A0 (m(a := v)) A process ob db bs R"
proof -
  note d = process_invD [OF inv] and o = slot_byte_not_owned [OF process_invD(1,3) [OF inv] i a]
  let ?m = "m(a := v)"
  have out: "?m c = m c" if "\<not> owned_byte (block_addr h) A c" for c using that o(1) by auto
  have fr: "?m c = m c" if "owned_byte (block_addr h) A0 c" for c using that o(2) by auto
  have pr: "in_range process 9364 c \<Longrightarrow> owned_byte (block_addr h) A0 c"
      "in_range (ps_task (process_at m process)) 64 c \<Longrightarrow> owned_byte (block_addr h) A0 c" for c
    using d(2) by (simp_all add: process_owned_def)
  have sl: "ps_allocations (process_at ?m process) j = ps_allocations (process_at m process) j" if "j < 1024" for j
    by (rule process_fields_cong(2) [OF _ that]) (rule fr [OF pr(1)])
  note p = process_memD(1) [OF d(1)] and up = slots_owned_byte [OF d(3)]
  have "allocations_owned h ?m A process"
    using process_memD(7) [OF d(1)] sl by (simp add: allocations_owned_def del: process_at_simps)
  moreover have "?m c = m c" if "in_range process 8308 c" for c by (rule fr [OF pr(1)]) (use in_range_mono [OF that] in simp)
  ultimately have mem: "process_mem h ?m A process ob db bs"
    by (intro process_mem_fields [OF d(1) pgd_at_owned_write(1) [OF p out] up [OF pr(1)] up [OF pr(2)] _ fr [OF pr(2)]])
  show ?thesis
    by (rule process_inv_same [OF inv mem pgd_at_owned_write(2) [OF p out] sl pgd_get_owned_write [OF p out] fr])
qed

lemma process_inv_step:
  assumes st: "process_step process s s'" and h: "kheap s = h" and inv: "process_inv h m0 A0 (km s) A process ob db bs R"
  shows "kheap s' = h \<and> (\<exists>A' R'. process_inv h m0 A0 (km s') A' process ob db bs R')"
  using st
proof (rule process_stepE)
  fix sz assume "heap_fits (kheap s) (km s) sz" "s' = snd (process_malloc process sz s)"
  then show ?thesis using process_inv_malloc [OF inv [folded h]] h by metis
next
  fix p :: ptr assume "p \<noteq> 0" "s' = process_free process p s"
  then show ?thesis using process_inv_free [OF inv [folded h]] h by metis
next
  fix i a v assume "i < LIEBE_OS_MAX_PROGRAM_ALLOCATIONS" "slot_byte (km s) process i a" "s' = s\<lparr>km := (km s)(a := v)\<rparr>"
  then show ?thesis using process_inv_store [OF inv, of i a v] h by auto
qed

lemma process_inv_steps:
  assumes "(process_step process)\<^sup>*\<^sup>* s s'" and "process_inv (kheap s) m0 A0 (km s) A process ob db bs R"
  shows "kheap s' = kheap s \<and> (\<exists>A' R'. process_inv (kheap s) m0 A0 (km s') A' process ob db bs R')"
  using assms(1)
proof (induction rule: rtranclp_induct)
  case base
  then show ?case using assms(2) by blast
next
  case (step s1 s2)
  then show ?case using process_inv_step [OF step.hyps(2)] by blast
qed

lemma process_inv_start:
  assumes m: "process_mem h m A process ob db bs" and z: "\<And>i. i < 1024 \<Longrightarrow> slot_ptr m process i = 0"
  shows "process_inv h m A m A process ob db bs Map.empty"
proof -
  have nb: "slot_blocks m process i = 0" "\<not> slot_byte m process i a" if "i < 1024" for i a
    using z [OF that] by (simp_all add: slot_byte_def slot_blocks_def in_range_def)
  have "recorded_blocks m process = 0" unfolding recorded_blocks_def by (rule sum.neutral) (use nb in auto)
  then show ?thesis
    using m z nb by (auto simp: process_inv_def process_owned_def process_mem_def slots_own_def slots_mapped_def simp del: process_at_simps)
qed

text \<open>C7. Whatever a program does with its memory, in any order and any number of steps (allocations the heap has room
  for, releases of pointers known or unknown, stores into what it got), the process stays in order: what is free in the heap
  and what its table records add up to what was free at the start, so no block is lost and none is handed out twice;
  two entries of the table never share a byte, with each other or with what the kernel owned; nothing the kernel
  owned is written but the table; and in the page directory exactly the recorded runs became writable for the
  program: any other page is mapped as at the start or not present.\<close>

theorem process_steps_balance:
  assumes "process_mem (kheap s) (km s) A process ob db bs"
    and "\<forall>i<LIEBE_OS_MAX_PROGRAM_ALLOCATIONS. slot_ptr (km s) process i = 0"
    and "(process_step process)\<^sup>*\<^sup>* s s'"
  shows "kheap s' = kheap s \<and> (\<exists>A'. process_mem (kheap s) (km s') A' process ob db bs)
    \<and> avail (kheap s) (km s') + recorded_blocks (km s') process = avail (kheap s) (km s)
    \<and> (\<forall>i<LIEBE_OS_MAX_PROGRAM_ALLOCATIONS. \<forall>a. slot_byte (km s') process i a \<longrightarrow>
         \<not> owned_byte (block_addr (kheap s)) A a
         \<and> (\<forall>j<LIEBE_OS_MAX_PROGRAM_ALLOCATIONS. slot_byte (km s') process j a \<longrightarrow> j = i))
    \<and> (\<forall>a. owned_byte (block_addr (kheap s)) A a \<longrightarrow> \<not> in_range (process + 116) 8192 a \<longrightarrow> km s' a = km s a)
    \<and> (\<forall>v. is_page_aligned v \<longrightarrow>
         (if \<exists>i<LIEBE_OS_MAX_PROGRAM_ALLOCATIONS. slot_byte (km s') process i v
          then paging_get (process_directory (km s') process) v (km s') = v OR 7
          else paging_get (process_directory (km s') process) v (km s') \<in> {v, paging_get (process_directory (km s) process) v (km s)}))"
proof -
  have z: "slot_ptr (km s) process i = 0" if "i < 1024" for i using assms(2) that by simp
  obtain A' R' where k: "kheap s' = kheap s" and inv: "process_inv (kheap s) (km s) A (km s') A' process ob db bs R'"
    using process_inv_steps [OF assms(3) process_inv_start [OF assms(1) z]] by blast
  note d = process_invD [OF inv]
  have map: "if \<exists>i<1024. slot_byte (km s') process i v then paging_get (block_addr (kheap s) db) v (km s') = v OR 7
      else paging_get (block_addr (kheap s) db) v (km s') \<in> {v, paging_get (block_addr (kheap s) db) v (km s)}"
    if "is_page_aligned v" for v using d(5) that unfolding slots_mapped_def by blast
  show ?thesis
    unfolding process_memD(3) [OF assms(1)] process_memD(3) [OF d(1)]
    using k d(1,4,6) map slot_byte_not_owned(2) [OF d(1,3)] slots_disj [OF d(1,3)] by blast
qed

theorem process_steps_balance_witness:
  "case process_malloc (fst lone_process) 100 started_kernel of (q, s) \<Rightarrow>
     let s' = process_free (fst lone_process) q (s\<lparr>km := (km s)(q := 65)\<rparr>)
     in avail kernel_heap (km s') + recorded_blocks (km s') (fst lone_process) = avail kernel_heap (km started_kernel)"
proof (rule started_kernel_mem)
  fix A ob db bs
  let ?s = started_kernel and ?p = "fst lone_process"
  assume a: "process_mem (kheap ?s) (km ?s) A ?p ob db bs" "0 < avail (kheap ?s) (km ?s)"
    "allocation_index (km ?s) ?p 0 0 1024 = Some 0" "kheap ?s = kernel_heap"
    "\<And>i. i < 1024 \<Longrightarrow> al_ptr (ps_allocations (process_at (km ?s) ?p) i) = 0"
  have f: "heap_fits (kheap ?s) (km ?s) 100" using kz.avail_fits [OF pgd_atD(1) [OF process_memD(1) [OF a(1)]] a(2)] by simp
  show ?thesis
  proof (rule process_mallocE [OF a(1) f a(3)])
    fix b m
    let ?q = "block_addr (kheap ?s) b"
    assume m: "process_malloc ?p 100 ?s = (?q, ?s\<lparr>km := m\<rparr>)" "?q \<noteq> 0"
      "\<And>j. j < 1024 \<Longrightarrow> ps_allocations (process_at m ?p) j =
         (if j = 0 then \<lparr>al_ptr = ?q, al_size = 100\<rparr> else ps_allocations (process_at (km ?s) ?p) j)"
    have "slot_byte m ?p 0 ?q"
      using m(2) m(3) [of 0] blocks_for_pos [of 100]
      by (simp add: slot_byte_def slot_ptr_def slot_blocks_def in_range_def del: process_at_simps)
    then have "process_step ?p (?s\<lparr>km := m\<rparr>) (?s\<lparr>km := m(?q := 65)\<rparr>)"
      using process_step.store [of 0 "?s\<lparr>km := m\<rparr>" ?p ?q 65] by simp
    then have "(process_step ?p)\<^sup>*\<^sup>* ?s (process_free ?p ?q (?s\<lparr>km := m(?q := 65)\<rparr>))"
      using process_step.malloc [OF f, of ?p] process_step.free [OF m(2), of ?p] unfolding m(1) snd_conv
      by (meson rtranclp.rtrancl_refl rtranclp.rtrancl_into_rtrancl)
    then show ?thesis
      using process_steps_balance [OF a(1)] a(4,5) by (simp add: m(1) slot_ptr_def Let_def del: process_at_simps)
  qed
qed

end
