(* ===== verification/ProcessArgs.thy ===== *)
theory ProcessArgs
  imports ProcessMem
begin

text \<open>
  The arguments of a program: \<^verbatim>\<open>process_inject_arguments\<close> of \<^verbatim>\<open>src/src/task/process.c\<close> copies the linked list that a command line
  was parsed into, in the memory of another process, into memory of the new process.
\<close>

section \<open>Lists of arguments\<close>

text \<open>\<^verbatim>\<open>struct command_argument\<close>: 512 bytes with the string, then the pointer to the next one.\<close>

fun arguments_at :: "mem \<Rightarrow> ptr \<Rightarrow> u8 list list \<Rightarrow> bool" where
  "arguments_at m p [] \<longleftrightarrow> p = 0"
| "arguments_at m p (x # xs) \<longleftrightarrow> p \<noteq> 0 \<and> cstr m p x \<and> length x < 512 \<and> arguments_at m (ca_next m p) xs"

text \<open>The places of the list all satisfy \<open>P\<close>.\<close>

fun arguments_in :: "(ptr \<Rightarrow> bool) \<Rightarrow> mem \<Rightarrow> ptr \<Rightarrow> u8 list list \<Rightarrow> bool" where
  "arguments_in P m p [] \<longleftrightarrow> True"
| "arguments_in P m p (x # xs) \<longleftrightarrow> (\<forall>a. in_range p 516 a \<longrightarrow> P a) \<and> arguments_in P m (ca_next m p) xs"

lemma arguments_short: "arguments_at m p xs \<Longrightarrow> i < length xs \<Longrightarrow> length (xs ! i) < 512"
  by (induction xs arbitrary: p i) (auto simp: nth_Cons split: nat.splits)

lemma argument_cong:
  assumes same: "\<forall>a. in_range p 516 a \<longrightarrow> m' a = m a"
  shows "ca_next m' p = ca_next m p" and "length x < 512 \<Longrightarrow> cstr m p x \<Longrightarrow> cstr m' p x"
proof -
  have "load32 m' (p + of_nat 512) = load32 m (p + of_nat 512)"
    by (rule load32_cong) (use same in_range_suffix(1) [of 512 4 516 p] in simp)
  then show "ca_next m' p = ca_next m p" by (simp add: ca_next_def)
  assume x: "length x < 512" and c: "cstr m p x"
  show "cstr m' p x"
  proof (rule cstr_outside [OF c])
    show "m' (p + of_nat i) = m (p + of_nat i)" if "i \<le> length x" for i
      by (rule same [rule_format], rule in_range_of_nat) (use that x in simp_all)
  qed
qed

lemma arguments_cong:
  assumes "arguments_in P m p xs" and w: "\<And>a. P a \<Longrightarrow> m' a = m a"
  shows "arguments_in P m' p xs \<and> (arguments_at m p xs \<longrightarrow> arguments_at m' p xs)"
  using assms(1)
proof (induction xs arbitrary: p)
  case (Cons x xs)
  have "\<forall>a. in_range p 516 a \<longrightarrow> m' a = m a" using Cons.prems w by simp
  note c = argument_cong [OF this]
  show ?case using Cons c by auto
qed simp

lemma arguments_in_mono: "arguments_in P m p xs \<Longrightarrow> (\<And>a. P a \<Longrightarrow> Q a) \<Longrightarrow> arguments_in Q m p xs"
  by (induction xs arbitrary: p) auto

lemma process_count_arguments: "arguments_at m p xs \<Longrightarrow> process_count_loop m p n = Some (n + int (length xs))"
proof (induction xs arbitrary: p n)
  case Nil
  then show ?case by (subst process_count_loop.simps) simp
next
  case (Cons x xs)
  then have "process_count_loop m (ca_next m p) (n + 1) = Some (n + 1 + int (length xs))" by simp
  then show ?case using Cons.prems by (subst process_count_loop.simps) simp
qed

section \<open>Entries of the table\<close>

definition free_entries :: "mem \<Rightarrow> ptr \<Rightarrow> nat" where
  "free_entries m process = card {i. i < 1024 \<and> al_ptr (ps_allocations (process_at m process) i) = 0}"

lemma free_entries_index:
  assumes "0 < free_entries m process"
  obtains i where "allocation_index m process 0 0 1024 = Some i"
proof (cases "allocation_index m process 0 0 1024")
  case None
  have "al_ptr (ps_allocations (process_at m process) i) \<noteq> 0" if "i < 1024" for i
  proof
    assume z: "al_ptr (ps_allocations (process_at m process) i) = 0"
    define j where "j = (LEAST j. al_ptr (ps_allocations (process_at m process) j) = 0)"
    have "al_ptr (ps_allocations (process_at m process) j) = 0" "j \<le> i"
      unfolding j_def using z by (rule LeastI, intro Least_le)
    moreover have "al_ptr (ps_allocations (process_at m process) k) \<noteq> 0" if "k < j" for k
      using that not_less_Least unfolding j_def by blast
    ultimately have "allocation_index m process 0 0 1024 = Some j"
      unfolding allocation_index_Some using \<open>i < 1024\<close> by (simp del: process_at_simps)
    then show False using None by simp
  qed
  then have "free_entries m process = 0" by (simp add: free_entries_def del: process_at_simps)
  then show thesis using assms by simp
next
  case (Some i)
  then show thesis by (rule that)
qed

lemma free_entries_take:
  assumes i: "i < 1024" "al_ptr (ps_allocations (process_at m process) i) = 0" and p: "p \<noteq> 0"
    and sl: "\<And>j. j < 1024 \<Longrightarrow> ps_allocations (process_at m' process) j = (if j = i then \<lparr>al_ptr = p, al_size = sz\<rparr> else ps_allocations (process_at m process) j)"
  shows "Suc (free_entries m' process) = free_entries m process"
proof -
  let ?F = "\<lambda>m. {i. i < 1024 \<and> al_ptr (ps_allocations (process_at m process) i) = 0}"
  have "?F m = insert i (?F m')" "i \<notin> ?F m'" using i p sl by (auto simp del: process_at_simps split: if_splits)
  then show ?thesis by (simp add: free_entries_def del: process_at_simps)
qed

lemma free_entries_cong:
  "(\<And>j. j < 1024 \<Longrightarrow> ps_allocations (process_at m' process) j = ps_allocations (process_at m process) j) \<Longrightarrow>
    free_entries m' process = free_entries m process"
  unfolding free_entries_def by (rule arg_cong [where f = card]) (auto simp del: process_at_simps)

lemma table_in_process: "in_range (process + 116) 8192 a \<Longrightarrow> in_range process 9364 a"
  using in_range_suffix(1) [of 116 8192 9364 process a] by simp

section \<open>Memory of the new process\<close>

text \<open>One page for the process, with what changes and what stays.\<close>

lemma process_malloc_page:
  assumes mem: "process_mem (kheap s) (km s) A process ob db bs" and av: "0 < avail (kheap s) (km s)"
    and n: "0 < unat n" "unat n \<le> 4096" and fr: "0 < free_entries (km s) process"
  obtains b m where "process_malloc process n s = (block_addr (kheap s) b, s\<lparr>km := m\<rparr>)" "A b = None" "block_addr (kheap s) b \<noteq> 0"
    "process_mem (kheap s) m (A(b \<mapsto> 1)) process ob db bs" "Suc (avail (kheap s) m) = avail (kheap s) (km s)"
    "Suc (free_entries m process) = free_entries (km s) process"
    "\<And>a. owned_byte (block_addr (kheap s)) A a \<Longrightarrow> \<not> in_range (process + 116) 8192 a \<Longrightarrow> m a = km s a"
    "\<And>a. owned_byte (block_addr (kheap s)) A a \<Longrightarrow> \<not> in_range (block_addr (kheap s) b) 4096 a"
    "\<And>a. in_range (block_addr (kheap s) b) (unat n) a \<Longrightarrow> m a = 0"
proof -
  have f: "heap_fits (kheap s) (km s) n" by (rule kz.avail_fits [OF pgd_atD(1) [OF process_memD(1) [OF mem]] av n])
  have k: "blocks_for n = 1" by (rule blocks_for_page [OF n])
  obtain i where i: "allocation_index (km s) process 0 0 1024 = Some i" by (rule free_entries_index [OF fr])
  then have i0: "i < 1024" "al_ptr (ps_allocations (process_at (km s) process) i) = 0" unfolding allocation_index_Some by simp_all
  show thesis
  proof (rule process_mallocE [OF mem f i, unfolded k])
    fix b m
    let ?b = "block_addr (kheap s) b"
    assume m: "process_malloc process n s = (?b, s\<lparr>km := m\<rparr>)" "A b = None" "?b \<noteq> 0"
      "process_mem (kheap s) m (A(b \<mapsto> 1)) process ob db bs" "avail (kheap s) m + 1 = avail (kheap s) (km s)"
      "\<And>a. in_range ?b (unat n) a \<Longrightarrow> m a = 0" "\<And>j. j < 1024 \<Longrightarrow> ps_allocations (process_at m process) j =
         (if j = i then \<lparr>al_ptr = ?b, al_size = n\<rparr> else ps_allocations (process_at (km s) process) j)"
      "\<And>a. owned_byte (block_addr (kheap s)) A a \<Longrightarrow> \<not> in_range (process + 116) 8192 a \<Longrightarrow> m a = km s a"
    have "\<not> in_range ?b 4096 a" if "owned_byte (block_addr (kheap s)) A a" for a
      using pgd_fresh_not_owned [OF process_memD(1) [OF m(4)] m(2) that] by simp
    then show thesis using that [OF m(1-4)] m(5,6,8) free_entries_take [OF i0 m(3,7)] by simp
  qed
qed

text \<open>Writes into owned memory that is neither in the first part of the process nor in its task.\<close>

lemma process_mem_owned_write:
  assumes mem: "process_mem h m A process ob db bs" and w: "\<And>a. \<not> owned_byte (block_addr h) A a \<Longrightarrow> m' a = m a"
    and low: "\<And>a. in_range process 8308 a \<Longrightarrow> m' a = m a"
    and task: "\<And>a. in_range (ps_task (process_at m process)) 64 a \<Longrightarrow> m' a = m a"
  shows "process_mem h m' A process ob db bs" and "avail h m' = avail h m" and "free_entries m' process = free_entries m process"
proof -
  note d = process_memD [OF mem]
  have sl: "ps_allocations (process_at m' process) j = ps_allocations (process_at m process) j" if "j < 1024" for j
    by (rule process_fields_low(2) [OF low that])
  show "free_entries m' process = free_entries m process" by (rule free_entries_cong) (rule sl)
  show "avail h m' = avail h m" by (rule pgd_at_owned_write(2) [OF d(1)]) (rule w)
  have p: "pgd_at h m' A ob db bs" by (rule pgd_at_owned_write(1) [OF d(1)]) (rule w)
  have "allocations_owned h m' A process" using d(7) sl by (simp add: allocations_owned_def del: process_at_simps)
  then show "process_mem h m' A process ob db bs"
    by (intro process_mem_fields [OF mem p]) (use mem low task in \<open>auto simp: process_mem_def simp del: process_at_simps\<close>)
qed

section \<open>The copies\<close>

text \<open>The page of the array is neither in the process nor in its task.\<close>

definition page_clear :: "heap \<Rightarrow> mem \<Rightarrow> ptr \<Rightarrow> nat \<Rightarrow> bool" where
  "page_clear h m process bv \<longleftrightarrow> (\<forall>a. in_range process 9364 a \<or> in_range (ps_task (process_at m process)) 64 a \<longrightarrow>
     \<not> in_range (block_addr h bv) 4096 a)"

text \<open>An argument is in owned memory, outside of the process and the array.\<close>

abbreviation argument_clear :: "heap \<Rightarrow> (nat \<rightharpoonup> nat) \<Rightarrow> ptr \<Rightarrow> nat \<Rightarrow> ptr \<Rightarrow> bool" where
  "argument_clear h A process bv a \<equiv>
    owned_byte (block_addr h) A a \<and> \<not> in_range process 9364 a \<and> \<not> in_range (block_addr h bv) 4096 a"

text \<open>The stores of one turn: the string into the page of block \<open>c\<close>, the address of the page into word \<open>i\<close> of the array.\<close>

lemma inject_store:
  fixes h m A bv c i current
  defines "v \<equiv> block_addr h bv" and "p \<equiv> block_addr h c"
  defines "m2 \<equiv> store32 (snd (strncpy m p current 512)) (v + of_nat (4 * i)) p"
  assumes x: "cstr m current x" "length x < 512" and c: "A c = None" and bv: "A bv = Some 1" and i: "i < 1024"
    and fresh: "\<forall>a. owned_byte (block_addr h) A a \<longrightarrow> \<not> in_range p 4096 a"
    and cur: "\<forall>a. in_range current 516 a \<longrightarrow> owned_byte (block_addr h) A a \<and> \<not> in_range v 4096 a"
  shows "cstr m2 p x" and "load32 m2 (v + of_nat (4 * i)) = p" and "ca_next m2 current = ca_next m current"
    and "owned_byte (block_addr h) A a \<Longrightarrow> \<not> in_range (v + of_nat (4 * i)) 4 a \<Longrightarrow> m2 a = m a"
    and "\<not> owned_byte (block_addr h) (A(c \<mapsto> 1)) a \<Longrightarrow> m2 a = m a"
proof -
  have pg: "in_range p 4096 a" if "in_range p 512 a" for a using in_range_mono [OF that, of 4096] by simp
  have word: "in_range v 4096 a" if "in_range (v + of_nat (4 * i)) 4 a" for a by (rule word_in_page [OF i that])
  have vown: "owned_byte (block_addr h) A a" if "in_range v 4096 a" for a
    using owned_byteI [of A bv 1] bv that by (simp add: v_def)
  have "disj_range p (nat 512) current (Suc (length x))"
  proof (rule disj_rangeI)
    fix a assume "in_range p (nat 512) a" "in_range current (Suc (length x)) a"
    then show False using fresh cur pg in_range_mono [of current "Suc (length x)" a 516] x(2) by auto
  qed
  note cp = strncpy_copies [OF x(1) this]
  define m1 where "m1 = snd (strncpy m p current 512)"
  have m1: "cstr m1 p x" "\<And>a. \<not> in_range p 512 a \<Longrightarrow> m1 a = m a" using cp(2,3) x(2) by (simp_all add: m1_def)
  have wd: "m2 a = m1 a" if "\<not> in_range (v + of_nat (4 * i)) 4 a" for a
    using that by (simp add: m2_def m1_def store32_other del: of_nat_mult)
  show other: "m2 a = m a" if "owned_byte (block_addr h) A a" "\<not> in_range (v + of_nat (4 * i)) 4 a" for a
    using wd [OF that(2)] m1(2) fresh pg that(1) by metis
  show "m2 a = m a" if "\<not> owned_byte (block_addr h) (A(c \<mapsto> 1)) a"
  proof -
    have "\<not> in_range p 512 a" using that owned_byteI [of "A(c \<mapsto> 1)" c 1] pg by (auto simp: p_def)
    moreover have "\<not> in_range (v + of_nat (4 * i)) 4 a"
      using that kz.owned_byte_upd [where A = A, OF c vown [OF word]] by blast
    ultimately show ?thesis using wd m1(2) by simp
  qed
  show "load32 m2 (v + of_nat (4 * i)) = p" unfolding m2_def by (rule load32_store32)
  have "\<forall>a. in_range current 516 a \<longrightarrow> m2 a = m a" using other cur word by blast
  then show "ca_next m2 current = ca_next m current" by (rule argument_cong(1))
  show "cstr m2 p x"
  proof (rule cstr_outside [OF m1(1)], rule wd)
    fix j assume "j \<le> length x"
    then have "in_range p 4096 (p + of_nat j)" using x(2) by (intro in_range_of_nat) simp_all
    then show "\<not> in_range (v + of_nat (4 * i)) 4 (p + of_nat j)" using fresh vown word by blast
  qed
qed

text \<open>One turn: a page for the string, the string in it, its address in the array.\<close>

lemma inject_turn:
  assumes mem: "process_mem (kheap s) (km s) A process ob db bs" and bv: "A bv = Some 1"
    and clear: "page_clear (kheap s) (km s) process bv"
    and av: "0 < avail (kheap s) (km s)" and fr: "0 < free_entries (km s) process" and i: "i < 1024"
    and x: "cstr (km s) current x" "length x < 512" "current \<noteq> 0"
    and cur': "\<forall>a. in_range current 516 a \<longrightarrow> argument_clear (kheap s) A process bv a"
  obtains c m where "process_inject_loop process (block_addr (kheap s) bv) current (of_nat i) s =
      process_inject_loop process (block_addr (kheap s) bv) (ca_next (km s) current) (of_nat (Suc i)) (s\<lparr>km := m\<rparr>)"
    "A c = None" "process_mem (kheap s) m (A(c \<mapsto> 1)) process ob db bs" "Suc (avail (kheap s) m) = avail (kheap s) (km s)"
    "Suc (free_entries m process) = free_entries (km s) process"
    "\<And>a. owned_byte (block_addr (kheap s)) A a \<Longrightarrow> \<not> in_range (process + 116) 8192 a \<Longrightarrow>
      \<not> in_range (block_addr (kheap s) bv + of_nat (4 * i)) 4 a \<Longrightarrow> m a = km s a"
    "load32 m (block_addr (kheap s) bv + of_nat (4 * i)) = block_addr (kheap s) c" "cstr m (block_addr (kheap s) c) x"
    "ps_task (process_at m process) = ps_task (process_at (km s) process)"
proof -
  let ?h = "kheap s" and ?v = "block_addr (kheap s) bv"
  note low = clear [unfolded page_clear_def, rule_format] and cur = cur' [rule_format]
  have n: "0 < unat (512 :: u32)" "unat (512 :: u32) \<le> 4096" by simp_all
  obtain c m1 where c: "process_malloc process 512 s = (block_addr ?h c, s\<lparr>km := m1\<rparr>)" "A c = None" "block_addr ?h c \<noteq> 0"
      "process_mem ?h m1 (A(c \<mapsto> 1)) process ob db bs" "Suc (avail ?h m1) = avail ?h (km s)"
      "Suc (free_entries m1 process) = free_entries (km s) process"
      "\<And>a. owned_byte (block_addr ?h) A a \<Longrightarrow> \<not> in_range (process + 116) 8192 a \<Longrightarrow> m1 a = km s a"
      "\<And>a. owned_byte (block_addr ?h) A a \<Longrightarrow> \<not> in_range (block_addr ?h c) 4096 a"
    by (rule process_malloc_page [OF mem av n fr]) (rule that; assumption)
  let ?c = "block_addr ?h c" and ?B = "A(c \<mapsto> 1)"
  have "\<forall>a. in_range current 516 a \<longrightarrow> m1 a = km s a" using c(7) cur table_in_process by blast
  note cong = argument_cong [OF this]
  have x1: "cstr m1 current x" using cong(2) x by blast
  have fresh: "\<forall>a. owned_byte (block_addr ?h) A a \<longrightarrow> \<not> in_range ?c 4096 a" using c(8) by blast
  have own: "\<forall>a. in_range current 516 a \<longrightarrow> owned_byte (block_addr ?h) A a \<and> \<not> in_range ?v 4096 a" using cur by blast
  define m where "m = store32 (snd (strncpy m1 ?c current 512)) (?v + of_nat (4 * i)) ?c"
  note st = inject_store [OF x1 x(2) c(2) bv i fresh own, folded m_def]
  have tk: "ps_task (process_at m1 process) = ps_task (process_at (km s) process)"
    by (rule ps_task_frame) (use c(7) process_memD(5) [OF mem] in blast)
  have far: "m a = m1 a" if a: "in_range process 9364 a \<or> in_range (ps_task (process_at (km s) process)) 64 a" for a
  proof (rule st(4))
    show "owned_byte (block_addr ?h) A a" using mem a by (auto simp: process_mem_def simp del: process_at_simps)
    show "\<not> in_range (?v + of_nat (4 * i)) 4 a" using low [OF a] word_in_page [OF i] by blast
  qed
  have p: "process_mem ?h m (A(c \<mapsto> 1)) process ob db bs" "avail ?h m = avail ?h m1" "free_entries m process = free_entries m1 process"
    by (rule process_mem_owned_write [OF c(4)]; (rule st(5); assumption | rule far; simp add: tk in_range_mono [of process 8308 _ 9364] del: process_at_simps))+
  show thesis
  proof (rule that [OF _ c(2) p(1)])
    show "process_inject_loop process ?v current (of_nat i) s =
        process_inject_loop process ?v (ca_next (km s) current) (of_nat (Suc i)) (s\<lparr>km := m\<rparr>)"
      using x(3) c(1,3) st(3) cong(1) by (subst process_inject_loop.simps) (simp add: m_def add.commute)
    show "ps_task (process_at m process) = ps_task (process_at (km s) process)"
      unfolding tk [symmetric] by (rule ps_task_frame) (rule far, simp)
    show "m a = km s a" if "owned_byte (block_addr ?h) A a" "\<not> in_range (process + 116) 8192 a"
      "\<not> in_range (?v + of_nat (4 * i)) 4 a" for a
      using st(4) [OF that(1,3)] c(7) [OF that(1,2)] by simp
  qed (use p c st in simp_all)
qed

text \<open>What the loop leaves: the words of the array from \<open>i\<close> on point to pages that nobody owned, with the strings.\<close>

definition injected :: "heap \<Rightarrow> mem \<Rightarrow> (nat \<rightharpoonup> nat) \<Rightarrow> ptr \<Rightarrow> nat \<Rightarrow> u8 list list \<Rightarrow> bool" where
  "injected h m A v i xs \<longleftrightarrow> (\<forall>j<length xs. \<exists>c. load32 m (v + of_nat (4 * (i + j))) = block_addr h c
     \<and> cstr m (block_addr h c) (xs ! j) \<and> (\<forall>a. in_range (block_addr h c) 4096 a \<longrightarrow> \<not> owned_byte (block_addr h) A a))"

lemma injected_Cons:
  assumes "load32 m (v + of_nat (4 * i)) = block_addr h c" and "cstr m (block_addr h c) x"
    and "\<And>a. in_range (block_addr h c) 4096 a \<Longrightarrow> \<not> owned_byte (block_addr h) A a"
    and "injected h m B v (Suc i) xs" and "\<And>a. owned_byte (block_addr h) A a \<Longrightarrow> owned_byte (block_addr h) B a"
  shows "injected h m A v i (x # xs)"
  unfolding injected_def
proof (intro allI impI)
  fix j assume j: "j < length (x # xs)"
  show "\<exists>c. load32 m (v + of_nat (4 * (i + j))) = block_addr h c \<and> cstr m (block_addr h c) ((x # xs) ! j)
    \<and> (\<forall>a. in_range (block_addr h c) 4096 a \<longrightarrow> \<not> owned_byte (block_addr h) A a)"
  proof (cases j)
    case 0
    then show ?thesis using assms(1-3) by auto
  next
    case (Suc k)
    then obtain c where "load32 m (v + of_nat (4 * (Suc i + k))) = block_addr h c" "cstr m (block_addr h c) (xs ! k)"
        "\<forall>a. in_range (block_addr h c) 4096 a \<longrightarrow> \<not> owned_byte (block_addr h) B a"
      using assms(4) j unfolding injected_def by auto
    then show ?thesis using Suc assms(5) by (intro exI [of _ c]) (auto simp del: of_nat_mult)
  qed
qed

lemma later_words:
  assumes "i + n < 1024" and "in_range (v + of_nat (4 * i)) 4 a \<or> \<not> in_range v 4096 a"
  shows "\<forall>k. Suc i \<le> k \<and> k < Suc i + n \<longrightarrow> \<not> in_range (v + of_nat (4 * k)) 4 a"
proof (intro allI impI)
  fix k assume k: "Suc i \<le> k \<and> k < Suc i + n"
  then have "disj_range (v + of_nat (4 * i)) 4 (v + of_nat (4 * k)) 4" using assms(1) by (intro word_index_disj) simp_all
  then show "\<not> in_range (v + of_nat (4 * k)) 4 a" using assms k disj_rangeD word_in_page [of k v a] by fastforce
qed

text \<open>The later turns change neither the word nor the string of this one.\<close>

lemma injected_kept:
  assumes hd: "load32 m1 (block_addr h bv + of_nat (4 * i)) = block_addr h c" and str: "cstr m1 (block_addr h c) x"
    and frame: "\<forall>a. owned_byte (block_addr h) (A(c \<mapsto> 1)) a \<longrightarrow> \<not> in_range process n a \<longrightarrow>
      (\<forall>k. Suc i \<le> k \<and> k < Suc i + l \<longrightarrow> \<not> in_range (block_addr h bv + of_nat (4 * k)) 4 a) \<longrightarrow> m a = m1 a"
    and own: "\<forall>a. in_range process n a \<longrightarrow> owned_byte (block_addr h) A a" and l: "i + l < 1024" "length x < 512"
    and fresh: "\<forall>a. in_range (block_addr h c) 4096 a \<longrightarrow> \<not> owned_byte (block_addr h) A a" and bv: "A bv = Some 1"
    and v: "\<forall>a. in_range (block_addr h bv) 4096 a \<longrightarrow> \<not> in_range process n a" and c: "A c = None"
  shows "load32 m (block_addr h bv + of_nat (4 * i)) = block_addr h c" and "cstr m (block_addr h c) x"
proof -
  let ?v = "block_addr h bv" and ?B = "A(c \<mapsto> 1)"
  have vown: "owned_byte (block_addr h) A a" if "in_range ?v 4096 a" for a using owned_byteI [of A bv 1] bv that by simp
  have "load32 m (?v + of_nat (4 * i)) = load32 m1 (?v + of_nat (4 * i))"
  proof (rule load32_cong, rule frame [rule_format])
    fix a assume a: "in_range (?v + of_nat (4 * i)) 4 a"
    then have p: "in_range ?v 4096 a" using word_in_page [of i ?v a] l(1) by (simp del: of_nat_mult)
    show "owned_byte (block_addr h) ?B a" using kz.owned_byte_upd [where A = A, OF c vown [OF p]] .
    show "\<not> in_range process n a" using v p by blast
    show "\<not> in_range (?v + of_nat (4 * k)) 4 a" if "Suc i \<le> k \<and> k < Suc i + l" for k
      using later_words [OF l(1) disjI1 [OF a]] that by blast
  qed
  then show "load32 m (?v + of_nat (4 * i)) = block_addr h c" using hd by simp
  show "cstr m (block_addr h c) x"
  proof (rule cstr_outside [OF str], rule frame [rule_format])
    fix j assume "j \<le> length x"
    then have a: "in_range (block_addr h c) 4096 (block_addr h c + of_nat j)" using l(2) by (intro in_range_of_nat) simp_all
    show "owned_byte (block_addr h) ?B (block_addr h c + of_nat j)" using owned_byteI [of ?B c 1] a by simp
    show "\<not> in_range process n (block_addr h c + of_nat j)" using fresh a own by blast
    have "\<not> in_range ?v 4096 (block_addr h c + of_nat j)" using fresh a vown by blast
    then show "\<not> in_range (?v + of_nat (4 * k)) 4 (block_addr h c + of_nat j)" if "Suc i \<le> k \<and> k < Suc i + l" for k
      using later_words [OF l(1) disjI2] that by blast
  qed
qed

definition inject_result ::
    "heap \<Rightarrow> mem \<Rightarrow> (nat \<rightharpoonup> nat) \<Rightarrow> mem \<Rightarrow> (nat \<rightharpoonup> nat) \<Rightarrow> ptr \<Rightarrow> nat \<Rightarrow> nat \<Rightarrow> nat list \<Rightarrow> ptr \<Rightarrow> nat \<Rightarrow> u8 list list \<Rightarrow> bool" where
  "inject_result h m0 A m A' process ob db bs v i xs \<longleftrightarrow> process_mem h m A' process ob db bs \<and> A \<subseteq>\<^sub>m A'
     \<and> avail h m + length xs = avail h m0
     \<and> (\<forall>a. owned_byte (block_addr h) A a \<longrightarrow> \<not> in_range (process + 116) 8192 a \<longrightarrow>
          (\<forall>k. i \<le> k \<and> k < i + length xs \<longrightarrow> \<not> in_range (v + of_nat (4 * k)) 4 a) \<longrightarrow> m a = m0 a)
     \<and> injected h m A v i xs"

lemma inject_resultD:
  assumes "inject_result h m0 A m A' process ob db bs v i xs"
  shows "process_mem h m A' process ob db bs" and "A \<subseteq>\<^sub>m A'" and "avail h m + length xs = avail h m0" and "injected h m A v i xs"
    and "owned_byte (block_addr h) A a \<Longrightarrow> \<not> in_range (process + 116) 8192 a \<Longrightarrow>
      \<forall>k. i \<le> k \<and> k < i + length xs \<longrightarrow> \<not> in_range (v + of_nat (4 * k)) 4 a \<Longrightarrow> m a = m0 a"
  using assms unfolding inject_result_def by blast+

lemma inject_result_Cons:
  assumes r: "inject_result h m1 (A(c \<mapsto> 1)) m A' process ob db bs (block_addr h bv) (Suc i) xs"
    and mem: "process_mem h m0 A process ob db bs" "process_mem h m1 (A(c \<mapsto> 1)) process ob db bs"
    and c: "A c = None" and bv: "A bv = Some 1" and av: "Suc (avail h m1) = avail h m0" and i: "Suc i + length xs \<le> 1024"
    and hd: "load32 m1 (block_addr h bv + of_nat (4 * i)) = block_addr h c" and str: "cstr m1 (block_addr h c) x" "length x < 512"
    and v: "\<forall>a. in_range (block_addr h bv) 4096 a \<longrightarrow> \<not> in_range process 9364 a"
    and fr: "\<forall>a. owned_byte (block_addr h) A a \<longrightarrow> \<not> in_range (process + 116) 8192 a \<longrightarrow>
      \<not> in_range (block_addr h bv + of_nat (4 * i)) 4 a \<longrightarrow> m1 a = m0 a"
  shows "inject_result h m0 A m A' process ob db bs (block_addr h bv) i (x # xs)"
proof -
  let ?v = "block_addr h bv" and ?B = "A(c \<mapsto> 1)"
  note d = inject_resultD [OF r]
  have up: "owned_byte (block_addr h) ?B a" if "owned_byte (block_addr h) A a" for a
    using kz.owned_byte_upd [where A = A, OF c that] .
  have fresh: "\<not> owned_byte (block_addr h) A a" if "in_range (block_addr h c) 4096 a" for a
    using pgd_fresh_not_owned [OF process_memD(1) [OF mem(2)] c] that by auto
  have own: "\<forall>a. in_range process 9364 a \<longrightarrow> owned_byte (block_addr h) A a" using process_memD(5) [OF mem(1)] by blast
  have later: "\<forall>a. owned_byte (block_addr h) ?B a \<longrightarrow> \<not> in_range process 9364 a \<longrightarrow>
      (\<forall>k. Suc i \<le> k \<and> k < Suc i + length xs \<longrightarrow> \<not> in_range (?v + of_nat (4 * k)) 4 a) \<longrightarrow> m a = m1 a"
    using d(5) table_in_process by blast
  have kp: "load32 m (?v + of_nat (4 * i)) = block_addr h c" "cstr m (block_addr h c) x"
    by (rule injected_kept [OF hd str(1) later own _ str(2) _ bv v c]; use fresh i in simp)+
  have "injected h m A ?v i (x # xs)" by (rule injected_Cons [OF kp _ d(4)]) (rule fresh up; assumption)+
  moreover have "A \<subseteq>\<^sub>m A'" by (rule map_le_trans [OF _ d(2)]) (use c in \<open>auto simp: map_le_def\<close>)
  moreover have "m a = m0 a" if "owned_byte (block_addr h) A a" "\<not> in_range (process + 116) 8192 a"
    "\<forall>k. i \<le> k \<and> k < i + length (x # xs) \<longrightarrow> \<not> in_range (?v + of_nat (4 * k)) 4 a" for a
    using d(5) [OF up [OF that(1)] that(2)] fr that by simp
  ultimately show ?thesis using d(1,3) av by (simp add: inject_result_def del: process_at_simps of_nat_mult)
qed

lemma inject_loop:
  fixes s :: "'a kernel_scheme"
  assumes "process_mem (kheap s) (km s) A process ob db bs" and "A bv = Some 1" and "page_clear (kheap s) (km s) process bv"
    and "arguments_at (km s) current xs" and "arguments_in P (km s) current xs"
    and "\<forall>a. P a \<longrightarrow> argument_clear (kheap s) A process bv a"
    and "length xs \<le> avail (kheap s) (km s)" and "length xs \<le> free_entries (km s) process" and "i + length xs \<le> 1024"
  shows "\<exists>m A'. process_inject_loop process (block_addr (kheap s) bv) current (of_nat i) s = Some (0, s\<lparr>km := m\<rparr>)
    \<and> inject_result (kheap s) (km s) A m A' process ob db bs (block_addr (kheap s) bv) i xs"
  using assms
proof (induction xs arbitrary: s A current i)
  case Nil
  have "process_inject_loop process (block_addr (kheap s) bv) current (of_nat i) s = Some (0, s\<lparr>km := km s\<rparr>)"
    using Nil.prems(4) by (subst process_inject_loop.simps) simp
  then show ?case using Nil.prems(1) by (intro exI [of _ "km s"] exI [of _ A]) (simp add: injected_def inject_result_def)
next
  case (Cons x xs)
  let ?h = "kheap s" and ?v = "block_addr (kheap s) bv"
  note mem = Cons.prems(1) and bv = Cons.prems(2) and clear = Cons.prems(3) and P = Cons.prems(6) [rule_format]
  have cur: "\<forall>a. in_range current 516 a \<longrightarrow> argument_clear ?h A process bv a" using Cons.prems(5) P by simp
  have pre: "0 < avail ?h (km s)" "0 < free_entries (km s) process" "i < 1024" "cstr (km s) current x" "length x < 512" "current \<noteq> 0"
    using Cons.prems(4,7-9) by simp_all
  obtain c m1 where t: "process_inject_loop process ?v current (of_nat i) s =
      process_inject_loop process ?v (ca_next (km s) current) (of_nat (Suc i)) (s\<lparr>km := m1\<rparr>)"
    "A c = None" "process_mem ?h m1 (A(c \<mapsto> 1)) process ob db bs" "Suc (avail ?h m1) = avail ?h (km s)"
    "Suc (free_entries m1 process) = free_entries (km s) process"
    "\<And>a. owned_byte (block_addr ?h) A a \<Longrightarrow> \<not> in_range (process + 116) 8192 a \<Longrightarrow> \<not> in_range (?v + of_nat (4 * i)) 4 a \<Longrightarrow> m1 a = km s a"
    "load32 m1 (?v + of_nat (4 * i)) = block_addr ?h c" "cstr m1 (block_addr ?h c) x"
    "ps_task (process_at m1 process) = ps_task (process_at (km s) process)"
    by (rule inject_turn [OF mem bv clear pre cur]) (rule that; assumption)
  let ?B = "A(c \<mapsto> 1)" and ?s = "s\<lparr>km := m1\<rparr>"
  have "m1 a = km s a" if "P a" for a using t(6) P [OF that] table_in_process word_in_page [OF pre(3)] by blast
  then have list: "arguments_at m1 (ca_next (km s) current) xs" "arguments_in P m1 (ca_next (km s) current) xs"
    using arguments_cong [of P "km s" "ca_next (km s) current" xs m1] Cons.prems(4,5) by simp_all
  have "\<exists>m A'. process_inject_loop process (block_addr (kheap ?s) bv) (ca_next (km s) current) (of_nat (Suc i)) ?s = Some (0, ?s\<lparr>km := m\<rparr>)
    \<and> inject_result (kheap ?s) (km ?s) ?B m A' process ob db bs (block_addr (kheap ?s) bv) (Suc i) xs"
  proof (rule Cons.IH)
    show "page_clear (kheap ?s) (km ?s) process bv" using clear t(9) by (simp add: page_clear_def del: process_at_simps)
    show "\<forall>a. P a \<longrightarrow> argument_clear (kheap ?s) ?B process bv a" using P kz.owned_byte_upd [where A = A, OF t(2)] by simp
    show "?B bv = Some 1" using bv t(2) by auto
    show "process_mem (kheap ?s) (km ?s) ?B process ob db bs" using t(3) by simp
  qed (use t(3-5) list Cons.prems(7-9) in simp_all)
  then obtain m A' where r: "process_inject_loop process ?v (ca_next (km s) current) (of_nat (Suc i)) ?s = Some (0, s\<lparr>km := m\<rparr>)"
    "inject_result ?h m1 ?B m A' process ob db bs ?v (Suc i) xs"
    by (simp del: of_nat_Suc of_nat_mult One_nat_def) blast
  have "inject_result ?h (km s) A m A' process ob db bs ?v i (x # xs)"
    by (rule inject_result_Cons [OF r(2) mem t(3,2) bv t(4) _ t(7,8) pre(5)])
      (use t(6) clear Cons.prems(9) in \<open>auto simp: page_clear_def simp del: process_at_simps of_nat_mult\<close>)
  then show ?case using t(1) r(1) by (intro exI [of _ m] exI [of _ A']) simp
qed

lemma injected_strings:
  assumes inj: "injected h m A v 0 xs" and v: "\<forall>a. in_range v 4096 a \<longrightarrow> \<not> in_range process n a"
    and own: "\<forall>a. in_range process n a \<longrightarrow> owned_byte (block_addr h) A a" and w: "\<forall>a. \<not> in_range process n a \<longrightarrow> m' a = m a"
    and i: "i < length xs" "length (xs ! i) < 512" "i < 1024"
  shows "cstr m' (load32 m' (v + of_nat (4 * i))) (xs ! i)"
proof -
  obtain c where c: "load32 m (v + of_nat (4 * i)) = block_addr h c" "cstr m (block_addr h c) (xs ! i)"
      "\<And>a. in_range (block_addr h c) 4096 a \<Longrightarrow> \<not> owned_byte (block_addr h) A a"
    using inj i(1) unfolding injected_def by auto
  have "load32 m' (v + of_nat (4 * i)) = load32 m (v + of_nat (4 * i))"
    by (rule load32_cong) (use w v word_in_page [OF i(3)] in blast)
  then have e: "load32 m' (v + of_nat (4 * i)) = block_addr h c" using c(1) by simp
  show ?thesis unfolding e
  proof (rule cstr_outside [OF c(2)])
    fix j assume "j \<le> length (xs ! i)"
    then have "in_range (block_addr h c) 4096 (block_addr h c + of_nat j)" using i(2) by (intro in_range_of_nat) simp_all
    then show "m' (block_addr h c + of_nat j) = m (block_addr h c + of_nat j)" using c(3) own w by blast
  qed
qed

text \<open>The last two fields of the process.\<close>

lemma process_set_arguments:
  fixes m process n v
  defines "m' \<equiv> store32 (store32 m (process + 9356) (of_nat n)) (process + 9360) v"
  assumes mem: "process_mem h m A process ob db bs" and n: "n \<le> 1024"
  shows "process_mem h m' A process ob db bs" and "avail h m' = avail h m"
    and "process_get_arguments process m' = (int n, v)" and "\<not> in_range process 9364 a \<Longrightarrow> m' a = m a"
proof -
  have out: "m' a = m a" if "\<not> in_range process 9364 a \<or> in_range process 8308 a" for a
  proof -
    have "in_range process 9364 a \<and> \<not> in_range process 8308 a" if "t = 9356 \<or> t = 9360" "in_range (process + of_nat t) 4 a" for t
      using in_range_suffix [of t 4 9364 process a] that by (auto simp: in_range_def)
    from this [of 9356] this [of 9360] have "\<not> in_range (process + 9356) 4 a" "\<not> in_range (process + 9360) 4 a" using that by auto
    then show ?thesis by (simp add: m'_def store32_other)
  qed
  show "m' a = m a" if "\<not> in_range process 9364 a" using out that by simp
  have own: "m' a = m a" if "\<not> owned_byte (block_addr h) A a" for a using out that process_memD(5) [OF mem] by blast
  have tk: "m' a = m a" if "in_range (ps_task (process_at m process)) 64 a" for a
    using mem disj_rangeD2 [OF _ that] out by (simp add: process_mem_def del: process_at_simps)
  show "process_mem h m' A process ob db bs" "avail h m' = avail h m"
    by (rule process_mem_owned_write [OF mem]; (rule own; assumption | rule tk; assumption | rule out; simp))+
  have d: "disj_range (process + 9360) 4 (process + 9356) 4" by (simp add: disj_range_def)
  show "process_get_arguments process m' = (int n, v)"
    using n by (simp add: process_get_arguments_def m'_def load32_store32 load32_store32_disj [OF d] c_int_of_nat)
qed

text \<open>C8. \<^verbatim>\<open>process_inject_arguments\<close>: given a list of at least one argument, each shorter than 512 bytes, that lies in memory
  the kernel has handed out and not in the process itself, with enough blocks in the heap and entries in the table of the process, the
  function returns 0; \<^verbatim>\<open>process_get_arguments\<close> then gives the number of arguments and an array whose words point
  to strings equal to them, in the order of the list; the process has one page more per argument and one for the
  array; nothing else the kernel had handed out has changed, the list included, and the process is in order.\<close>

theorem process_inject_arguments_copies:
  assumes mem: "process_mem (kheap s) (km s) A process ob db bs"
    and list: "arguments_at (km s) root xs" "arguments_in (\<lambda>a. owned_byte (block_addr (kheap s)) A a \<and> \<not> in_range process 9364 a) (km s) root xs"
    and n: "xs \<noteq> []" "length xs \<le> 1024" "length xs < avail (kheap s) (km s)" "length xs < free_entries (km s) process"
  shows "\<exists>s' A' argv. process_inject_arguments process root s = Some (0, s')
    \<and> process_get_arguments process (km s') = (int (length xs), argv)
    \<and> (\<forall>i<length xs. cstr (km s') (load32 (km s') (argv + of_nat (4 * i))) (xs ! i))
    \<and> process_mem (kheap s) (km s') A' process ob db bs \<and> A \<subseteq>\<^sub>m A'
    \<and> avail (kheap s) (km s') + Suc (length xs) = avail (kheap s) (km s)
    \<and> (\<forall>a. owned_byte (block_addr (kheap s)) A a \<longrightarrow> \<not> in_range process 9364 a \<longrightarrow> km s' a = km s a)"
proof -
  let ?h = "kheap s" and ?n = "4 * of_nat (length xs) :: u32"
  have "unat ?n = 4 * length xs" using n(2) unat_of_nat_u32 [of "4 * length xs"] by simp
  then have sz: "0 < unat ?n" "unat ?n \<le> 4096" using n(1,2) by simp_all
  have pre: "0 < avail ?h (km s)" "0 < free_entries (km s) process" using n(3,4) by simp_all
  obtain b m1 where p: "process_malloc process ?n s = (block_addr ?h b, s\<lparr>km := m1\<rparr>)" "A b = None" "block_addr ?h b \<noteq> 0"
    "process_mem ?h m1 (A(b \<mapsto> 1)) process ob db bs" "Suc (avail ?h m1) = avail ?h (km s)"
    "Suc (free_entries m1 process) = free_entries (km s) process"
    "\<And>a. owned_byte (block_addr ?h) A a \<Longrightarrow> \<not> in_range (process + 116) 8192 a \<Longrightarrow> m1 a = km s a"
    "\<And>a. owned_byte (block_addr ?h) A a \<Longrightarrow> \<not> in_range (block_addr ?h b) 4096 a"
    by (rule process_malloc_page [OF mem pre(1) sz pre(2)]) (rule that; assumption)
  let ?B = "A(b \<mapsto> 1)" and ?v = "block_addr ?h b" and ?s = "s\<lparr>km := m1\<rparr>"
  let ?P = "\<lambda>a. owned_byte (block_addr ?h) A a \<and> \<not> in_range process 9364 a"
  have up: "owned_byte (block_addr ?h) ?B a" if "owned_byte (block_addr ?h) A a" for a
    using kz.owned_byte_upd [where A = A, OF p(2) that] .
  have l1: "arguments_at m1 root xs" "arguments_in ?P m1 root xs" using arguments_cong [OF list(2), of m1] list(1) p(7) table_in_process by blast+
  have tk: "ps_task (process_at m1 process) = ps_task (process_at (km s) process)"
    by (rule ps_task_frame) (use p(7) process_memD(5) [OF mem] in blast)
  have clear: "page_clear ?h m1 process b"
    using mem p(8) unfolding page_clear_def tk process_mem_def by blast
  have clear2: "\<forall>a. ?P a \<longrightarrow> argument_clear ?h ?B process b a" using p(8) up by blast
  obtain m2 A' where r: "process_inject_loop process ?v root 0 ?s = Some (0, s\<lparr>km := m2\<rparr>)"
    "inject_result ?h m1 ?B m2 A' process ob db bs ?v 0 xs"
    using inject_loop [of ?s ?B process ob db bs b root xs ?P 0] p(4-6) clear clear2 l1 n
    by (auto simp del: process_at_simps)
  note d = inject_resultD [OF r(2)]
  let ?m = "store32 (store32 m2 (process + 9356) (of_nat (length xs))) (process + 9360) ?v"
  note f = process_set_arguments [OF d(1) n(2), where v = ?v]
  have far: "\<forall>a. in_range ?v 4096 a \<longrightarrow> \<not> in_range process 9364 a" using clear by (auto simp: page_clear_def simp del: process_at_simps)
  have own: "\<forall>a. in_range process 9364 a \<longrightarrow> owned_byte (block_addr ?h) ?B a" using up process_memD(5) [OF mem] by blast
  have str: "cstr ?m (load32 ?m (?v + of_nat (4 * i))) (xs ! i)" if "i < length xs" for i
    by (rule injected_strings [OF d(4) far own _ that arguments_short [OF list(1) that]]) (use n(2) f(4) that in simp_all)
  have "A \<subseteq>\<^sub>m A'" by (rule map_le_trans [OF _ d(2)]) (use p(2) in \<open>auto simp: map_le_def\<close>)
  moreover have "?m a = km s a" if a: "owned_byte (block_addr ?h) A a" "\<not> in_range process 9364 a" for a
  proof -
    have "\<not> in_range (?v + of_nat (4 * k)) 4 a" if "k < length xs" for k
      using word_in_page [of k ?v a] p(8) [OF a(1)] that n(2) by auto
    then show ?thesis using f(4) [OF a(2)] d(5) [OF up [OF a(1)]] p(7) [OF a(1)] table_in_process a(2) by auto
  qed
  moreover have "process_inject_arguments process root s = Some (0, s\<lparr>km := ?m\<rparr>)"
    using process_count_arguments [OF list(1), of 0] n(1) p(1,3) r(1)
    by (simp add: process_inject_arguments_def process_count_commnad_arguments_def)
  ultimately show ?thesis using f(1-3) d(3) p(5) str
    by (intro exI [of _ "s\<lparr>km := ?m\<rparr>"] exI [of _ A'] exI [of _ ?v]) (simp del: of_nat_mult)
qed

text \<open>A list with the argument \<^verbatim>\<open>A\<close>, in memory that the process of the witnesses allocated.\<close>

definition argument_kernel :: "ptr \<times> kernel" where
  "argument_kernel = (case process_malloc (fst lone_process) 516 started_kernel of (q, s) \<Rightarrow> (q, s\<lparr>km := (km s)(q := 65)\<rparr>))"

theorem process_inject_arguments_copies_witness:
  "\<exists>s' argv. process_inject_arguments (fst lone_process) (fst argument_kernel) (snd argument_kernel) = Some (0, s')
     \<and> process_get_arguments (fst lone_process) (km s') = (1, argv) \<and> cstr (km s') (load32 (km s') argv) [65]"
proof (rule started_kernel_mem)
  fix A ob db bs
  let ?s = started_kernel and ?p = "fst lone_process" and ?h = kernel_heap
  assume a: "process_mem (kheap ?s) (km ?s) A ?p ob db bs" "0 < avail (kheap ?s) (km ?s)" "kheap ?s = kernel_heap"
    "\<And>i. i < 1024 \<Longrightarrow> al_ptr (ps_allocations (process_at (km ?s) ?p) i) = 0" "avail (kheap ?s) (km ?s) = 24570"
  have "{i :: nat. i < 1024 \<and> al_ptr (ps_allocations (process_at (km ?s) ?p) i) = 0} = {..<1024}"
    using a(4) by (auto simp del: process_at_simps)
  then have fe: "free_entries (km ?s) ?p = 1024" by (simp add: free_entries_def del: process_at_simps)
  then have fr: "0 < free_entries (km ?s) ?p" by simp
  have sz: "0 < unat (516 :: u32)" "unat (516 :: u32) \<le> 4096" by simp_all
  note pm = process_malloc_page [OF a(1,2) sz fr, unfolded a(3)]
  obtain b m where m: "process_malloc ?p 516 ?s = (block_addr ?h b, ?s\<lparr>km := m\<rparr>)" "A b = None" "block_addr ?h b \<noteq> 0"
    "process_mem ?h m (A(b \<mapsto> 1)) ?p ob db bs" "Suc (avail ?h m) = avail ?h (km ?s)" "Suc (free_entries m ?p) = free_entries (km ?s) ?p"
    "\<And>a. owned_byte (block_addr ?h) A a \<Longrightarrow> \<not> in_range (?p + 116) 8192 a \<Longrightarrow> m a = km ?s a"
    "\<And>a. owned_byte (block_addr ?h) A a \<Longrightarrow> \<not> in_range (block_addr ?h b) 4096 a"
    "\<And>a. in_range (block_addr ?h b) (unat (516 :: u32)) a \<Longrightarrow> m a = 0"
    by (rule pm) (rule that; assumption)
  let ?q = "block_addr ?h b" and ?B = "A(b \<mapsto> 1)" let ?m = "m(?q := 65)"
  have z: "m (?q + of_nat k) = 0" if "k < 516" for k using m(9) in_range_of_nat [of k 516 ?q] that by simp
  have pg: "owned_byte (block_addr ?h) ?B a \<and> \<not> in_range ?p 9364 a \<and> \<not> in_range (ps_task (process_at m ?p)) 64 a"
    if "in_range ?q 4096 a" for a
  proof -
    have "ps_task (process_at m ?p) = ps_task (process_at (km ?s) ?p)"
      by (rule ps_task_frame) (use m(7) process_memD(5) [OF a(1)] a(3) in auto)
    then show ?thesis
      using a(1,3) m(8) owned_byteI [of ?B b 1] that by (auto simp: process_mem_def simp del: process_at_simps)
  qed
  have q: "in_range ?q 4096 ?q" by (simp add: in_range_def)
  have low: "?m a = m a" if "in_range ?p 8308 a \<or> in_range (ps_task (process_at m ?p)) 64 a \<or> \<not> owned_byte (block_addr ?h) ?B a" for a
    using pg [OF q] that in_range_mono [of ?p 8308 a 9364] by auto
  have mem: "process_mem ?h ?m ?B ?p ob db bs" "avail ?h ?m = avail ?h m" "free_entries ?m ?p = free_entries m ?p"
    by (rule process_mem_owned_write [OF m(4)]; rule low; simp del: process_at_simps)+
  have "load32 ?m (?q + of_nat 512) = 0"
    by (rule load32_zero) (use m(9) in_range_suffix [of 512 4 516 ?q] in \<open>auto simp: in_range_def\<close>)
  then have l: "arguments_at ?m ?q [[65]]" using z [of 1] m(3) by (simp add: ca_next_def)
  have i: "arguments_in (\<lambda>a. owned_byte (block_addr ?h) ?B a \<and> \<not> in_range ?p 9364 a) ?m ?q [[65]]"
    using pg in_range_mono [of ?q 516 _ 4096] by auto
  have e: "argument_kernel = (?q, ?s\<lparr>km := ?m\<rparr>)" by (simp add: argument_kernel_def m(1))
  show ?thesis
    using process_inject_arguments_copies [of "?s\<lparr>km := ?m\<rparr>" ?B ?p ob db bs ?q "[[65]]"] mem l i m(5,6) a(3,5) fe
    by (auto simp: e simp del: process_at_simps)
qed

end
