(* ===== verification/Terminal.thy ===== *)
theory Terminal
  imports Process Scheduler
begin

text \<open>
  The text terminal of \<^verbatim>\<open>src/src/kernel/kernel.c\<close>: character cells of two bytes in video memory and a cursor. The
  terminal is compared with a screen that is a list of cells with a cursor position; it never scrolls, so the
  list is longer than what the display shows.
\<close>

record console = kernel +
  video_mem :: ptr
  terminal_row :: u16
  terminal_col :: u16

abbreviation (input) VGA_WIDTH :: "'a::numeral" where "VGA_WIDTH \<equiv> 80"
abbreviation (input) VGA_HEIGHT :: "'a::numeral" where "VGA_HEIGHT \<equiv> 20"

section \<open>Operations\<close>

text \<open>Both \<^verbatim>\<open>char\<close> arguments are signed: a character above 127 also sets every bit of the colour.\<close>

definition terminal_make_char :: "u8 \<Rightarrow> u8 \<Rightarrow> u16" where
  "terminal_make_char c color = ucast (push_bit 8 (scast color :: u32) OR scast c)"

definition terminal_putchar :: "int \<Rightarrow> int \<Rightarrow> u8 \<Rightarrow> u8 \<Rightarrow> 'a console_scheme \<Rightarrow> 'a console_scheme" where
  "terminal_putchar x y c color s =
     s\<lparr>km := store16 (km s) (video_mem s + 2 * c_uint (y * VGA_WIDTH + x)) (terminal_make_char c color)\<rparr>"

definition terminal_backspace :: "'a console_scheme \<Rightarrow> 'a console_scheme" where
  "terminal_backspace s =
     (if terminal_row s = 0 \<and> terminal_col s = 0 then s
      else
        let s = (if terminal_col s = 0 then s\<lparr>terminal_row := terminal_row s - 1, terminal_col := VGA_WIDTH\<rparr> else s);
            s = s\<lparr>terminal_col := terminal_col s - 1\<rparr>
        in terminal_putchar (uint (terminal_col s)) (uint (terminal_row s)) 32 15 s)"

definition terminal_writechar :: "u8 \<Rightarrow> u8 \<Rightarrow> 'a console_scheme \<Rightarrow> 'a console_scheme" where
  "terminal_writechar c color s =
     (if c = 10 then s\<lparr>terminal_row := terminal_row s + 1, terminal_col := 0\<rparr>
      else if c = 0x08 then terminal_backspace s
      else
        let s = terminal_putchar (uint (terminal_col s)) (uint (terminal_row s)) c color s;
            s = s\<lparr>terminal_col := terminal_col s + 1\<rparr>
        in if VGA_WIDTH \<le> terminal_col s then s\<lparr>terminal_col := 0, terminal_row := terminal_row s + 1\<rparr> else s)"

definition terminal_initialize :: "'a console_scheme \<Rightarrow> 'a console_scheme" where
  "terminal_initialize s =
     fold (\<lambda>y. fold (\<lambda>x. terminal_putchar (int x) (int y) 32 0) [0..<VGA_WIDTH]) [0..<VGA_HEIGHT]
       (s\<lparr>video_mem := 0xB8000, terminal_row := 0, terminal_col := 0\<rparr>)"

text \<open>The length is taken once, the characters are read from the memory of the moment.\<close>

function print_loop :: "ptr \<Rightarrow> u32 \<Rightarrow> u32 \<Rightarrow> 'a console_scheme \<Rightarrow> 'a console_scheme" where
  "print_loop str len i s =
     (if i < len then print_loop str len (i + 1) (terminal_writechar (km s (str + i)) 15 s) else s)"
  by pat_completeness auto
termination by (relation "measure (\<lambda>(str, len, i, s). unat len - unat i)")
    (auto simp: unat_Suc_u32 word_less_nat_alt)

declare print_loop.simps [simp del]

definition print :: "ptr \<Rightarrow> 'a console_scheme \<Rightarrow> 'a console_scheme option" where
  "print str s = map_option (\<lambda>len. print_loop str len 0 s) (strlen (km s) str)"

section \<open>The screen\<close>

record screen =
  cursor :: nat
  cells :: "u16 list"

definition screen_at :: "nat \<Rightarrow> 'a console_scheme \<Rightarrow> screen" where
  "screen_at L s = \<lparr>cursor = VGA_WIDTH * unat (terminal_row s) + unat (terminal_col s),
     cells = map (\<lambda>k. load16 (km s) (video_mem s + of_nat (2 * k))) [0..<L]\<rparr>"

definition screen_put :: "u8 \<Rightarrow> screen \<Rightarrow> screen" where
  "screen_put c sc =
     (if c = 10 then sc\<lparr>cursor := VGA_WIDTH * (cursor sc div VGA_WIDTH + 1)\<rparr>
      else if c = 8 then
        if cursor sc = 0 then sc
        else \<lparr>cursor = cursor sc - 1, cells = (cells sc)[cursor sc - 1 := terminal_make_char 32 15]\<rparr>
      else \<lparr>cursor = cursor sc + 1, cells = (cells sc)[cursor sc := terminal_make_char c 15]\<rparr>)"

lemma load16_store16_cell:
  assumes "j < 2147483648" and "k < 2147483648"
  shows "load16 (store16 m (v + of_nat (2 * k)) x) (v + of_nat (2 * j))
    = (if j = k then x else load16 m (v + of_nat (2 * j)))"
proof (cases "j = k")
  case True
  then show ?thesis by (simp add: mem_simps)
next
  case False
  have r: "in_range (v + of_nat (2 * i)) 2 a \<longleftrightarrow> unat (a - v) div 2 = i" if "i < 2147483648" for i a
    using that by (intro in_range_block) simp_all
  have "load16 (store16 m (v + of_nat (2 * k)) x) (v + of_nat (2 * j)) = load16 m (v + of_nat (2 * j))"
  proof (rule load16_cong)
    fix a assume "in_range (v + of_nat (2 * j)) 2 a"
    then have "\<not> in_range (v + of_nat (2 * k)) 2 a" using False by (simp only: r assms) simp
    then show "store16 m (v + of_nat (2 * k)) x a = m a" by (rule store16_other)
  qed
  then show ?thesis using False by simp
qed

lemma cells_store:
  assumes "L \<le> 2147483648" and "k < L"
  shows "map (\<lambda>j. load16 (store16 m (v + of_nat (2 * k)) x) (v + of_nat (2 * j))) [0..<L]
    = (map (\<lambda>j. load16 m (v + of_nat (2 * j))) [0..<L])[k := x]"
proof (rule nth_equalityI)
  fix j
  assume "j < length (map (\<lambda>j. load16 (store16 m (v + of_nat (2 * k)) x) (v + of_nat (2 * j))) [0..<L])"
  then have j: "j < L" by simp
  then have "load16 (store16 m (v + of_nat (2 * k)) x) (v + of_nat (2 * j))
      = (if j = k then x else load16 m (v + of_nat (2 * j)))"
    using assms by (intro load16_store16_cell) simp_all
  then show "map (\<lambda>j. load16 (store16 m (v + of_nat (2 * k)) x) (v + of_nat (2 * j))) [0..<L] ! j
      = (map (\<lambda>j. load16 m (v + of_nat (2 * j))) [0..<L])[k := x] ! j"
    using j by (simp add: nth_list_update del: of_nat_mult of_nat_numeral)
qed simp

lemma putchar_screen:
  assumes "L \<le> 2147483648" and "VGA_WIDTH * unat y + unat x < L" and s: "s' = terminal_putchar (uint x) (uint y) c 15 s"
  shows "cells (screen_at L s') = (cells (screen_at L s))[VGA_WIDTH * unat y + unat x := terminal_make_char c 15]"
    and "\<not> in_range (video_mem s) (2 * L) a \<Longrightarrow> km s' a = km s a"
    and "s' = s\<lparr>km := km s'\<rparr>"
proof -
  let ?k = "VGA_WIDTH * unat y + unat x"
  have k: "uint y * VGA_WIDTH + uint x = int ?k" by simp
  have at: "2 * c_uint (uint y * VGA_WIDTH + uint x) = (of_nat (2 * ?k) :: u32)"
    unfolding k by (simp only: of_int_of_nat_eq of_nat_mult of_nat_numeral)
  show "cells (screen_at L s') = (cells (screen_at L s))[?k := terminal_make_char c 15]"
    using cells_store [OF assms(1,2)] unfolding s terminal_putchar_def at screen_at_def
    by (simp del: of_nat_mult of_nat_add of_nat_numeral)
  show "km s' a = km s a" if "\<not> in_range (video_mem s) (2 * L) a"
  proof -
    have "in_range (video_mem s) (2 * L) a" if "in_range (video_mem s + of_nat (2 * ?k)) 2 a"
      by (rule in_range_offset [OF _ _ that])
        (use assms(1,2) in \<open>simp_all add: in_range_def unat_of_nat_u32 del: of_nat_mult of_nat_add\<close>)
    then have "\<not> in_range (video_mem s + of_nat (2 * ?k)) 2 a" using that by blast
    then show ?thesis unfolding s terminal_putchar_def at using store16_other by simp
  qed
  show "s' = s\<lparr>km := km s'\<rparr>" unfolding s terminal_putchar_def by simp
qed

text \<open>What an operation of the terminal may change.\<close>

definition terminal_frame :: "nat \<Rightarrow> 'a console_scheme \<Rightarrow> 'a console_scheme \<Rightarrow> bool" where
  "terminal_frame L s s' \<longleftrightarrow>
     s' = s\<lparr>km := km s', terminal_row := terminal_row s', terminal_col := terminal_col s'\<rparr>
     \<and> (\<forall>a. \<not> in_range (video_mem s) (2 * L) a \<longrightarrow> km s' a = km s a)"

lemma terminal_frame_refl: "terminal_frame L s s"
  by (simp add: terminal_frame_def)

lemma terminal_frame_trans: "terminal_frame L s s' \<Longrightarrow> terminal_frame L s' s'' \<Longrightarrow> terminal_frame L s s''"
  unfolding terminal_frame_def by (cases s; cases s'; cases s'') auto

lemma terminal_frame_video: "terminal_frame L s s' \<Longrightarrow> video_mem s' = video_mem s"
proof -
  assume "terminal_frame L s s'"
  then have "video_mem s' = video_mem (s\<lparr>km := km s', terminal_row := terminal_row s', terminal_col := terminal_col s'\<rparr>)"
    unfolding terminal_frame_def by (intro arg_cong [where f = video_mem]) blast
  then show ?thesis by simp
qed

lemma unat_u16: "unat r < 65535 \<Longrightarrow> unat (r + 1) = unat r + 1" "r \<noteq> 0 \<Longrightarrow> unat (r - 1) = unat r - 1" for r :: u16
  by (simp_all add: unat_word_ariths unat_minus_one)

lemma putchar_move:
  assumes "L \<le> 2147483648" and "VGA_WIDTH * unat y + unat x = k" and "k < L"
    and s': "s' = (terminal_putchar (uint x) (uint y) c 15 s)\<lparr>terminal_row := r, terminal_col := q\<rparr>"
  shows "screen_at L s' = \<lparr>cursor = VGA_WIDTH * unat r + unat q, cells = (cells (screen_at L s))[k := terminal_make_char c 15]\<rparr>"
    and "terminal_frame L s s'"
proof -
  let ?t = "terminal_putchar (uint x) (uint y) c 15 s"
  have "VGA_WIDTH * unat y + unat x < L" using assms(2,3) by simp
  note p = putchar_screen [OF assms(1) this refl, where c = c and s = s, unfolded assms(2)]
  have v: "video_mem s' = video_mem s" "km s' = km ?t" by (simp_all add: s' terminal_putchar_def)
  have "cells (screen_at L s') = cells (screen_at L ?t)"
    using v by (simp add: screen_at_def terminal_putchar_def)
  then show "screen_at L s' = \<lparr>cursor = VGA_WIDTH * unat r + unat q, cells = (cells (screen_at L s))[k := terminal_make_char c 15]\<rparr>"
    using p(1) by (simp add: screen_at_def s')
  have "s' = s\<lparr>km := km s', terminal_row := terminal_row s', terminal_col := terminal_col s'\<rparr>"
    by (simp add: s' terminal_putchar_def)
  then show "terminal_frame L s s'" using p(2) v(2) by (simp add: terminal_frame_def)
qed

lemma writechar_screen:
  assumes col: "unat (terminal_col s) < 80" and L: "L \<le> 5242800" and c: "cursor (screen_at L s) < L"
    and s': "s' = terminal_writechar ch 15 s"
  shows "screen_at L s' = screen_put ch (screen_at L s)" and "unat (terminal_col s') < 80"
    and "terminal_frame L s s'" and "cursor (screen_at L s') \<le> cursor (screen_at L s) + 80"
proof -
  let ?r = "terminal_row s" and ?c = "terminal_col s"
  have cur: "cursor (screen_at L s) = 80 * unat ?r + unat ?c" by (simp add: screen_at_def)
  have L': "L \<le> 2147483648" using L by simp
  have r: "unat ?r < 65535" using c L unfolding cur by linarith
  note step = unat_u16(1) [OF r] unat_u16(1) [of ?c] unat_u16(2) [of ?c] unat_u16(2) [of ?r]
  have line_no: "(80 * unat ?r + unat ?c) div 80 = unat ?r" using col by simp
  consider (nl) "ch = 10" | (start) "ch = 8" "?r = 0" "?c = 0" | (line) "ch = 8" "?c = 0" "?r \<noteq> 0"
    | (mid) "ch = 8" "?c \<noteq> 0" | (put) "ch \<noteq> 10" "ch \<noteq> 8" by blast
  then have "screen_at L s' = screen_put ch (screen_at L s) \<and> unat (terminal_col s') < 80
    \<and> terminal_frame L s s' \<and> cursor (screen_at L s') \<le> cursor (screen_at L s) + 80"
  proof cases
    case nl
    then show ?thesis
      using step(1) line_no by (simp add: s' terminal_writechar_def screen_at_def screen_put_def terminal_frame_def)
  next
    case start
    then show ?thesis
      using col by (simp add: s' terminal_writechar_def terminal_backspace_def screen_at_def screen_put_def terminal_frame_def)
  next
    case line
    have e: "s' = (terminal_putchar (uint (79 :: u16)) (uint (?r - 1)) 32 15 s)\<lparr>terminal_row := ?r - 1, terminal_col := 79\<rparr>"
      using line by (simp add: s' terminal_writechar_def terminal_backspace_def terminal_putchar_def)
    have "0 < unat ?r" using line by (simp add: unat_gt_0)
    then have k: "80 * unat (?r - 1) + unat (79 :: u16) = cursor (screen_at L s) - 1"
      using step(4) line unfolding cur by simp
    have q: "unat (terminal_col s') < 80" by (simp add: e)
    note p = putchar_move [OF L' k _ e]
    show ?thesis using p c k line cur q \<open>0 < unat ?r\<close> by (simp add: screen_put_def)
  next
    case mid
    have e: "s' = (terminal_putchar (uint (?c - 1)) (uint ?r) 32 15 s)\<lparr>terminal_row := ?r, terminal_col := ?c - 1\<rparr>"
      using mid by (simp add: s' terminal_writechar_def terminal_backspace_def terminal_putchar_def)
    have "0 < unat ?c" using mid by (simp add: unat_gt_0)
    then have k: "80 * unat ?r + unat (?c - 1) = cursor (screen_at L s) - 1"
      using step(3) mid unfolding cur by simp
    have q: "unat (terminal_col s') < 80" using step(3) mid col by (simp add: e)
    note p = putchar_move [OF L' k _ e]
    show ?thesis using p c k mid cur q \<open>0 < unat ?c\<close> by (simp add: screen_put_def)
  next
    case put
    define wrap where "wrap \<longleftrightarrow> 80 \<le> ?c + 1"
    have w: "wrap \<longleftrightarrow> unat ?c = 79" using step(2) col by (auto simp: wrap_def word_le_nat_alt)
    have e: "s' = (terminal_putchar (uint ?c) (uint ?r) ch 15 s)
        \<lparr>terminal_row := if wrap then ?r + 1 else ?r, terminal_col := if wrap then 0 else ?c + 1\<rparr>"
      using put by (simp add: s' terminal_writechar_def terminal_putchar_def wrap_def)
    have q: "unat (terminal_col s') < 80" using step(2) w col by (simp add: e)
    note p = putchar_move [OF L' cur [symmetric] c e]
    show ?thesis using p put q w step(1,2) col by (simp add: screen_put_def cur)
  qed
  then show "screen_at L s' = screen_put ch (screen_at L s)" "unat (terminal_col s') < 80"
    "terminal_frame L s s'" "cursor (screen_at L s') \<le> cursor (screen_at L s) + 80" by blast+
qed

lemma print_loop_screen:
  assumes "unat (terminal_col s) < 80" and L: "L \<le> 5242800" and "cursor (screen_at L s) + 80 * length bs < L"
    and "\<And>i. i < length bs \<Longrightarrow> km s (str + of_nat (k + i)) = bs ! i"
    and dj: "\<And>i. i < length bs \<Longrightarrow> \<not> in_range (video_mem s) (2 * L) (str + of_nat (k + i))"
    and "k + length bs < 4294967296" and s': "s' = print_loop str (of_nat (k + length bs)) (of_nat k) s"
  shows "screen_at L s' = fold screen_put bs (screen_at L s) \<and> unat (terminal_col s') < 80 \<and> terminal_frame L s s'"
  using assms
proof (induction bs arbitrary: k s)
  case Nil
  then show ?case by (simp add: print_loop.simps terminal_frame_refl)
next
  case (Cons c bs)
  let ?t = "terminal_writechar c 15 s"
  have cur: "cursor (screen_at L s) < L" using Cons.prems(3) by simp
  note w = writechar_screen [OF Cons.prems(1) L cur refl, of c]
  have c: "km s (str + of_nat k) = c" using Cons.prems(4) [of 0] by simp
  have "(of_nat k :: u32) < of_nat (k + length (c # bs))"
    using Cons.prems(6) by (simp add: word_less_nat_alt unat_of_nat_u32 del: of_nat_add of_nat_Suc)
  then have s': "s' = print_loop str (of_nat (k + 1 + length bs)) (of_nat (k + 1)) ?t"
    using Cons.prems(7) c by (simp add: print_loop.simps [of str _ "of_nat k"] add_ac)
  have v: "video_mem ?t = video_mem s" by (rule terminal_frame_video [OF w(3)])
  have "screen_at L s' = fold screen_put bs (screen_at L ?t) \<and> unat (terminal_col s') < 80 \<and> terminal_frame L ?t s'"
  proof (rule Cons.IH [OF w(2) L _ _ _ _ s'])
    show "cursor (screen_at L ?t) + 80 * length bs < L" using w(4) Cons.prems(3) by simp
    fix i assume i: "i < length bs"
    have n: "\<not> in_range (video_mem s) (2 * L) (str + of_nat (k + 1 + i))" using Cons.prems(5) [of "i + 1"] i by simp
    then show "\<not> in_range (video_mem ?t) (2 * L) (str + of_nat (k + 1 + i))" unfolding v .
    show "km ?t (str + of_nat (k + 1 + i)) = bs ! i"
      using w(3) n Cons.prems(4) [of "i + 1"] i by (simp add: terminal_frame_def)
  qed (use Cons.prems(6) in simp)
  then show ?case using w(1,3) terminal_frame_trans [OF w(3)] by simp
qed

lemma print_cstr:
  assumes "cstr (km s) str bs" and "unat (terminal_col s) < VGA_WIDTH"
    and "cursor (screen_at L s) + VGA_WIDTH * length bs < L" and "L \<le> 5242800"
    and "disj_range (video_mem s) (2 * L) str (length bs)"
  shows "\<exists>s'. print str s = Some s' \<and> screen_at L s' = fold screen_put bs (screen_at L s)
    \<and> unat (terminal_col s') < VGA_WIDTH \<and> terminal_frame L s s'"
proof -
  let ?s = "print_loop str (of_nat (0 + length bs)) (of_nat 0) s"
  have b: "length bs < 4294967296" using assms(3,4) by simp
  have "strlen (km s) str = Some (of_nat (length bs))"
    using strlen_loop_cstr [OF assms(1), of 0] by (simp add: strlen_def)
  then have "print str s = Some ?s" by (simp add: print_def)
  moreover have "screen_at L ?s = fold screen_put bs (screen_at L s) \<and> unat (terminal_col ?s) < 80 \<and> terminal_frame L s ?s"
  proof (rule print_loop_screen [OF assms(2,4,3) _ _ _ refl])
    fix i assume i: "i < length bs"
    show "km s (str + of_nat (0 + i)) = bs ! i" using cstr_nth [OF assms(1) i] by simp
    have "in_range str (length bs) (str + of_nat (0 + i))" using i b by (intro in_range_of_nat) simp_all
    then show "\<not> in_range (video_mem s) (2 * L) (str + of_nat (0 + i))" by (rule disj_rangeD2 [OF assms(5)])
  qed (use b in simp)
  ultimately show ?thesis by blast
qed

text \<open>C15. \<^verbatim>\<open>print\<close> puts the characters of its string on the screen one after the other, newlines and backspaces included,
  and keeps the cursor in its line; apart from cursor and screen nothing changes, as long as the string is not
  in the screen and the screen has room for the text.\<close>

theorem print_screen:
  assumes "cstr (km s) str bs" and "unat (terminal_col s) < VGA_WIDTH"
    and "cursor (screen_at L s) + VGA_WIDTH * length bs < L" and "L \<le> 5242800"
    and "disj_range (video_mem s) (2 * L) str (length bs)"
  shows "\<exists>s'. print str s = Some s' \<and> screen_at L s' = fold screen_put bs (screen_at L s)
    \<and> unat (terminal_col s') < VGA_WIDTH \<and> terminal_frame L s s'"
  by (rule print_cstr [OF assms])

definition example_console :: console where
  "example_console = kernel.extend (example_kernel\<lparr>km := (km example_kernel)(0x5000 := 72, 0x5001 := 105, 0x5002 := 8, 0x5003 := 111)\<rparr>)
     (console.fields 0xB8000 3 79)"

theorem print_screen_witness:
  "\<exists>s'. print 0x5000 example_console = Some s' \<and> cursor (screen_at 1000 s') = 321
    \<and> cells (screen_at 1000 s') ! 319 = 0x0F48 \<and> cells (screen_at 1000 s') ! 320 = 0x0F6F"
proof -
  let ?s = "example_console"
  have c: "cstr (km ?s) 0x5000 [72, 105, 8, 111]"
    by (simp add: example_console_def kernel.defs console.defs example_kernel_def store32_def)
  have p: "cursor (screen_at 1000 ?s) = 319" "unat (terminal_col ?s) < 80" "video_mem ?s = 0xB8000"
    by (simp_all add: example_console_def kernel.defs console.defs screen_at_def)
  have l: "length (cells (screen_at 1000 ?s)) = 1000" by (simp add: screen_at_def)
  obtain s' where "print 0x5000 ?s = Some s'" "screen_at 1000 s' = fold screen_put [72, 105, 8, 111] (screen_at 1000 ?s)"
    using print_screen [OF c, of 1000] p by (auto simp: disj_range_def)
  then show ?thesis using p l by (simp add: screen_put_def terminal_make_char_def)
qed

end
