(* ===== verification/Interrupts.thy ===== *)
theory Interrupts
  imports Terminal
begin

text \<open>
  The tables of \<^verbatim>\<open>src/src/idt/idt.c\<close>: the gates of the interrupt descriptor table, the callbacks of the interrupts and
  the commands of the system call, with the operations that fill them. The C functions that the tables point to
  are values of two datatypes; what they do is in \<open>Keyboard\<close> and \<open>Isr80h\<close>. \<open>gate_at\<close> is a gate as the processor
  reads it.
\<close>

datatype interrupt_callback = Idt_handle_exception | Idt_clock | Classic_keyboard_handle_interrupt

datatype isr80h_command = Command0_sum | Command1_print | Command2_getkey | Command3_putchar | Command4_malloc
  | Command5_free | Command6_process_load_start | Command7_invoke_system_command
  | Command8_get_program_arguments | Command9_exit

abbreviation (input) LIEBE_OS_TOTAL_INTERRUPTS :: "'a::numeral" where "LIEBE_OS_TOTAL_INTERRUPTS \<equiv> 512"
abbreviation (input) LIEBE_OS_ISR80H_MAX_COMMANDS :: "'a::numeral" where "LIEBE_OS_ISR80H_MAX_COMMANDS \<equiv> 1024"
abbreviation (input) KERNEL_CODE_SELECTOR :: u16 where "KERNEL_CODE_SELECTOR \<equiv> 0x08"

text \<open>The state of the system: \<open>idt_descriptors\<close>, \<open>idtr_descriptor\<close> and \<open>classic_keyboard\<close> are the addresses of those
  variables, \<open>idtr\<close> is the register that \<^verbatim>\<open>lidt\<close> loads and \<open>port_writes\<close> what was written to the ports.\<close>

record system = console +
  interrupt_callbacks :: "interrupt_callback option list"
  isr80h_commnads :: "isr80h_command option list"
  idt_descriptors :: ptr
  idtr_descriptor :: ptr
  idtr :: "u16 \<times> u32"
  port_writes :: "(u16 \<times> u8) list"
  keyboard_list_head :: ptr
  keyboard_list_last :: ptr
  classic_keyboard :: ptr

definition outb :: "u16 \<Rightarrow> u8 \<Rightarrow> 'a system_scheme \<Rightarrow> 'a system_scheme" where
  "outb port val s = s\<lparr>port_writes := port_writes s @ [(port, val)]\<rparr>"

section \<open>Gates\<close>

definition idt_set :: "int \<Rightarrow> ptr \<Rightarrow> 'a system_scheme \<Rightarrow> 'a system_scheme" where
  "idt_set interrupt_no address s =
     (let descriptor = idt_descriptors s + 8 * c_uint interrupt_no;
          m = store16 (km s) descriptor (ucast (address AND 0x0000FFFF));
          m = store16 m (descriptor + 2) KERNEL_CODE_SELECTOR;
          m = m(descriptor + 4 := 0x00);
          m = m(descriptor + 5 := 0xEE)
      in s\<lparr>km := store16 m (descriptor + 6) (ucast (drop_bit 16 address))\<rparr>)"

definition idt_load :: "ptr \<Rightarrow> 'a system_scheme \<Rightarrow> 'a system_scheme" where
  "idt_load p s = s\<lparr>idtr := (load16 (km s) p, load32 (km s) (p + 2))\<rparr>"

definition idt_register_interrupt_callback ::
    "int \<Rightarrow> interrupt_callback option \<Rightarrow> 'a system_scheme \<Rightarrow> int \<times> 'a system_scheme" where
  "idt_register_interrupt_callback interrupt callback s =
     (if interrupt < 0 \<or> LIEBE_OS_TOTAL_INTERRUPTS \<le> interrupt then (- EINVARG, s)
      else (0, s\<lparr>interrupt_callbacks := (interrupt_callbacks s)[nat interrupt := callback]\<rparr>))"

text \<open>\<open>table\<close> is the address of \<^verbatim>\<open>interrupt_pointer_table\<close>, \<open>int_0_handler\<close> and \<open>isr80h_wrapper\<close> are entry points, all of
  them defined in \<^verbatim>\<open>idt.asm\<close>.\<close>

definition idt_init :: "ptr \<Rightarrow> ptr \<Rightarrow> ptr \<Rightarrow> 'a system_scheme \<Rightarrow> 'a system_scheme" where
  "idt_init table int_0_handler isr80h_wrapper s =
     (let s = s\<lparr>km := snd (memset (km s) (idt_descriptors s) 0 4096)\<rparr>;
          s = s\<lparr>km := store16 (km s) (idtr_descriptor s) (4096 - 1)\<rparr>;
          s = s\<lparr>km := store32 (km s) (idtr_descriptor s + 2) (idt_descriptors s)\<rparr>;
          s = fold (\<lambda>i s. idt_set (int i) (load32 (km s) (table + of_nat (4 * i))) s) [0..<LIEBE_OS_TOTAL_INTERRUPTS] s;
          s = idt_set 0 int_0_handler s;
          s = idt_set 0x80 isr80h_wrapper s;
          s = fold (\<lambda>i s. snd (idt_register_interrupt_callback (int i) (Some Idt_handle_exception) s)) [0..<0x20] s;
          s = snd (idt_register_interrupt_callback 0x20 (Some Idt_clock) s)
      in idt_load (idtr_descriptor s) s)"

definition isr80h_register_command :: "int \<Rightarrow> isr80h_command option \<Rightarrow> 'a system_scheme \<Rightarrow> (unit, 'a system_scheme) outcome" where
  "isr80h_register_command command_id command s =
     (if command_id < 0 \<or> LIEBE_OS_ISR80H_MAX_COMMANDS \<le> command_id then Panicked ''!Command out of bounds''
      else if isr80h_commnads s ! nat command_id \<noteq> None then Panicked ''!Trying to set on exisitng command''
      else Returned () (s\<lparr>isr80h_commnads := (isr80h_commnads s)[nat command_id := command]\<rparr>))"

section \<open>The gates as the processor reads them\<close>

record gate =
  gt_offset :: u32
  gt_selector :: u16
  gt_type :: u8

definition gate_at :: "mem \<Rightarrow> ptr \<Rightarrow> gate" where
  "gate_at m p = \<lparr>gt_offset = ucast (load16 m p) OR push_bit 16 (ucast (load16 m (p + 6))),
     gt_selector = load16 m (p + 2), gt_type = m (p + 5)\<rparr>"

lemma offset_halves: "ucast (ucast (a AND 0x0000FFFF) :: u16) OR push_bit 16 (ucast (ucast (drop_bit 16 a) :: u16)) = a"
  (is "?o = a") for a :: u32
proof (rule bit_word_eqI)
  fix n assume n: "n < LENGTH(32)"
  have mask: "(0x0000FFFF :: u32) = mask 16" by (simp add: mask_eq_exp_minus_1)
  from n consider "n < 16" | "16 \<le> n" "n < 32" by force
  then show "bit ?o n = bit a n"
    unfolding mask by cases (auto simp: bit_simps)
qed

lemma gate_at_cong:
  assumes "\<And>a. in_range p 8 a \<Longrightarrow> m' a = m a"
  shows "gate_at m' p = gate_at m p"
proof -
  have "m' (p + of_nat k) = m (p + of_nat k)" if "k < 8" for k using that by (intro assms in_range_of_nat) simp_all
  from this [of 0] this [of 1] this [of 2] this [of 3] this [of 4] this [of 5] this [of 6] this [of 7]
  show ?thesis by (simp add: gate_at_def load16_def add.assoc)
qed

lemma idt_set_bytes:
  shows "gate_at (km (idt_set i address s)) (idt_descriptors s + 8 * c_uint i)
      = \<lparr>gt_offset = address, gt_selector = 8, gt_type = 0xEE\<rparr>"
    and "\<not> in_range (idt_descriptors s + 8 * c_uint i) 8 a \<Longrightarrow> km (idt_set i address s) a = km s a"
    and "idt_set i address s = s\<lparr>km := km (idt_set i address s)\<rparr>"
proof -
  let ?p = "idt_descriptors s + 8 * c_uint i"
  show "gate_at (km (idt_set i address s)) ?p = \<lparr>gt_offset = address, gt_selector = 8, gt_type = 0xEE\<rparr>"
    using offset_halves [of address]
    by (simp add: gate_at_def idt_set_def Let_def load16_def store16_def bytes_of_u16 add.assoc)
  have "in_range ?p 8 (?p + of_nat k)" if "k < 8" for k using that by (intro in_range_of_nat) simp_all
  from this [of 0] this [of 1] this [of 2] this [of 3] this [of 4] this [of 5] this [of 6] this [of 7]
  show "km (idt_set i address s) a = km s a" if "\<not> in_range ?p 8 a"
    using that by (auto simp: idt_set_def Let_def store16_def add.assoc)
  show "idt_set i address s = s\<lparr>km := km (idt_set i address s)\<rparr>" by (simp add: idt_set_def Let_def)
qed

abbreviation (input) kernel_gate :: "ptr \<Rightarrow> gate" where
  "kernel_gate address \<equiv> \<lparr>gt_offset = address, gt_selector = KERNEL_CODE_SELECTOR, gt_type = 0xEE\<rparr>"

lemma gate_range: "i < 512 \<Longrightarrow> in_range (p + of_nat (8 * i)) 8 a \<longleftrightarrow> unat (a - p) div 8 = i"
  by (rule in_range_block) simp_all

lemma idt_set_gate:
  assumes "i < 512" and "j < 512" and t: "t = idt_set (int i) address s"
  shows "gate_at (km t) (idt_descriptors s + of_nat (8 * j))
      = (if j = i then kernel_gate address else gate_at (km s) (idt_descriptors s + of_nat (8 * j)))"
    and "\<not> in_range (idt_descriptors s) 4096 a \<Longrightarrow> km t a = km s a"
    and "t = s\<lparr>km := km t\<rparr>"
proof -
  have at: "8 * c_uint (int i) = (of_nat (8 * i) :: u32)" by simp
  note b = idt_set_bytes [where s = s and i = "int i" and address = address, folded t, unfolded at]
  show "gate_at (km t) (idt_descriptors s + of_nat (8 * j))
      = (if j = i then kernel_gate address else gate_at (km s) (idt_descriptors s + of_nat (8 * j)))"
  proof (cases "j = i")
    case False
    have "gate_at (km t) (idt_descriptors s + of_nat (8 * j)) = gate_at (km s) (idt_descriptors s + of_nat (8 * j))"
    proof (rule gate_at_cong, rule b(2))
      fix a assume "in_range (idt_descriptors s + of_nat (8 * j)) 8 a"
      then show "\<not> in_range (idt_descriptors s + of_nat (8 * i)) 8 a"
        using False unfolding gate_range [OF assms(1)] gate_range [OF assms(2)] by simp
    qed
    then show ?thesis using False by simp
  qed (use b(1) in simp)
  show "km t a = km s a" if "\<not> in_range (idt_descriptors s) 4096 a"
  proof (rule b(2))
    show "\<not> in_range (idt_descriptors s + of_nat (8 * i)) 8 a"
      unfolding gate_range [OF assms(1)] using that assms(1) by (auto simp: in_range_def)
  qed
  show "t = s\<lparr>km := km t\<rparr>" by (rule b(3))
qed

lemma table_load:
  assumes "\<And>a. in_range table 2048 a \<Longrightarrow> m' a = m a" and "i < 512"
  shows "load32 m' (table + of_nat (4 * i)) = load32 m (table + of_nat (4 * i))"
proof (rule load32_cong, rule assms(1))
  fix a assume a: "in_range (table + of_nat (4 * i)) 4 a"
  show "in_range table 2048 a"
    by (rule in_range_offset [OF _ _ a]) (use assms(2) in \<open>simp_all add: in_range_def unat_of_nat_u32 del: of_nat_mult\<close>)
qed

lemma idt_fill_gates:
  assumes tab: "disj_range (idt_descriptors s) 4096 table 2048" and "n \<le> 512"
    and "t = fold (\<lambda>i s. idt_set (int i) (load32 (km s) (table + of_nat (4 * i))) s) [0..<n] s"
  shows "(\<forall>j<n. gate_at (km t) (idt_descriptors s + of_nat (8 * j)) = kernel_gate (load32 (km s) (table + of_nat (4 * j))))
    \<and> (\<forall>a. \<not> in_range (idt_descriptors s) 4096 a \<longrightarrow> km t a = km s a) \<and> t = s\<lparr>km := km t\<rparr>"
  using assms(2,3)
proof (induction n arbitrary: t)
  case 0
  then show ?case by simp
next
  case (Suc n)
  let ?u = "fold (\<lambda>i s. idt_set (int i) (load32 (km s) (table + of_nat (4 * i))) s) [0..<n] s"
  let ?h = "load32 (km ?u) (table + of_nat (4 * n))"
  have IH: "\<And>j. j < n \<Longrightarrow> gate_at (km ?u) (idt_descriptors s + of_nat (8 * j)) = kernel_gate (load32 (km s) (table + of_nat (4 * j)))"
    "\<And>a. \<not> in_range (idt_descriptors s) 4096 a \<Longrightarrow> km ?u a = km s a" "?u = s\<lparr>km := km ?u\<rparr>"
    using Suc.IH [OF _ refl] Suc.prems(1) by simp_all
  have d: "idt_descriptors ?u = idt_descriptors s" by (subst IH(3)) simp
  have n: "n < 512" using Suc.prems(1) by simp
  have t: "t = idt_set (int n) ?h ?u" using Suc.prems(2) by simp
  note g = idt_set_gate [OF n _ t, unfolded d]
  have "?h = load32 (km s) (table + of_nat (4 * n))"
    by (rule table_load [OF IH(2) n]) (rule disj_rangeD2 [OF tab])
  then have "gate_at (km t) (idt_descriptors s + of_nat (8 * j)) = kernel_gate (load32 (km s) (table + of_nat (4 * j)))"
    if "j < Suc n" for j using g(1) [of j] IH(1) [of j] that n by (cases "j = n") simp_all
  moreover have "km t a = km s a" if "\<not> in_range (idt_descriptors s) 4096 a" for a
    using g(2) [of 0, OF _ that] IH(2) that by simp
  moreover have "t = s\<lparr>km := km t\<rparr>"
  proof -
    have "t = ?u\<lparr>km := km t\<rparr>" by (rule g(3) [of 0]) simp
    then show ?thesis by (subst (asm) IH(3)) simp
  qed
  ultimately show ?case by blast
qed

lemma idt_special_gates:
  assumes t: "t = idt_set 0x80 w (idt_set 0 h s)"
  shows "(\<forall>j<512. gate_at (km t) (idt_descriptors s + of_nat (8 * j)) = (if j = 0 then kernel_gate h
      else if j = 0x80 then kernel_gate w else gate_at (km s) (idt_descriptors s + of_nat (8 * j))))
    \<and> (\<forall>a. \<not> in_range (idt_descriptors s) 4096 a \<longrightarrow> km t a = km s a) \<and> t = s\<lparr>km := km t\<rparr>"
proof -
  let ?u = "idt_set (int 0) h s"
  have t: "t = idt_set (int 128) w ?u" using t by simp
  have d: "idt_descriptors ?u = idt_descriptors s" by (simp add: idt_set_def Let_def)
  note first = idt_set_gate [where i = 0 and address = h and s = s, OF _ _ refl] and second = idt_set_gate [OF _ _ t, unfolded d]
  have "gate_at (km t) (idt_descriptors s + of_nat (8 * j)) = (if j = 0 then kernel_gate h
      else if j = 0x80 then kernel_gate w else gate_at (km s) (idt_descriptors s + of_nat (8 * j)))" if "j < 512" for j
    using first(1) [OF _ that] second(1) [OF _ that] by (cases "j = 0"; simp del: of_nat_mult)
  moreover have "km t a = km s a" if "\<not> in_range (idt_descriptors s) 4096 a" for a
    using first(2) [of 0, OF _ _ that] second(2) [of 0, OF _ _ that] by simp
  moreover have "t = s\<lparr>km := km t\<rparr>" by (simp add: t idt_set_def Let_def)
  ultimately show ?thesis by blast
qed

lemma register_exceptions:
  "fold (\<lambda>i s. snd (idt_register_interrupt_callback (int i) (Some Idt_handle_exception) s)) [0..<n] s
    = s\<lparr>interrupt_callbacks := fold (\<lambda>i cs. cs[i := Some Idt_handle_exception]) [0..<n] (interrupt_callbacks s)\<rparr>"
  if "n \<le> 512"
  using that by (induction n) (simp_all add: idt_register_interrupt_callback_def)

lemma fold_update_nth:
  "n \<le> length cs \<Longrightarrow> fold (\<lambda>i cs. cs[i := x]) [0..<n] cs ! j = (if j < n then x else cs ! j)
    \<and> length (fold (\<lambda>i cs. cs[i := x]) [0..<n] cs) = length cs"
  by (induction n) (auto simp: nth_list_update less_Suc_eq)

lemma km_frame:
  "t = s\<lparr>km := m\<rparr> \<Longrightarrow> idt_descriptors t = idt_descriptors s \<and> idtr_descriptor t = idtr_descriptor s
    \<and> interrupt_callbacks t = interrupt_callbacks s"
  by simp

text \<open>The structures in memory before the gates are filled.\<close>

lemma idtr_stored:
  assumes "disj_range d 4096 r 6"
    and m: "m = store32 (store16 (snd (memset old d 0 4096)) r (4096 - 1)) (r + 2) d"
  shows "load16 m r = 4095" "load32 m (r + 2) = d" "\<not> in_range d 4096 a \<Longrightarrow> \<not> in_range r 6 a \<Longrightarrow> m a = old a"
proof -
  have "store32 m1 (r + 2) d r = m1 r" "store32 m1 (r + 2) d (r + 1) = m1 (r + 1)" for m1
    by (simp_all add: store32_def)
  then show "load16 m r = 4095" unfolding m by (simp add: load16_def store16_def)
  show "load32 m (r + 2) = d" unfolding m by (simp add: mem_simps)
  have "in_range r 6 (r + of_nat k)" if "k < 6" for k using that by (intro in_range_of_nat) simp_all
  from this [of 0] this [of 1] this [of 2] this [of 3] this [of 4] this [of 5]
  show "m a = old a" if "\<not> in_range d 4096 a" "\<not> in_range r 6 a"
    using that unfolding m by (auto simp: store32_def store16_def memset_apply in_range_def)
qed

text \<open>C14. After \<^verbatim>\<open>idt_init\<close> every one of the 512 gates leads to its stub of \<^verbatim>\<open>idt.asm\<close>, gate 0 to the handler of division
  by zero and gate \<^verbatim>\<open>0x80\<close> to the system call, as an interrupt gate that user programs may use; the exceptions and
  the clock have their callbacks, and the processor's register holds the table. No byte outside of the two
  structures is written.\<close>

theorem idt_init_gates:
  assumes tab: "disj_range (idt_descriptors s) 4096 table 2048" and reg: "disj_range (idt_descriptors s) 4096 (idtr_descriptor s) 6"
    and tab2: "disj_range (idtr_descriptor s) 6 table 2048" and cb: "length (interrupt_callbacks s) = LIEBE_OS_TOTAL_INTERRUPTS"
    and s': "s' = idt_init table int_0_handler isr80h_wrapper s"
  shows "(\<forall>i<LIEBE_OS_TOTAL_INTERRUPTS. gate_at (km s') (idt_descriptors s + of_nat (8 * i))
      = kernel_gate (if i = 0 then int_0_handler else if i = 0x80 then isr80h_wrapper else load32 (km s) (table + of_nat (4 * i))))
    \<and> idtr s' = (4095, idt_descriptors s)
    \<and> (\<forall>i<LIEBE_OS_TOTAL_INTERRUPTS. interrupt_callbacks s' ! i
        = (if i < 0x20 then Some Idt_handle_exception else if i = 0x20 then Some Idt_clock else interrupt_callbacks s ! i))
    \<and> (\<forall>a. \<not> in_range (idt_descriptors s) 4096 a \<and> \<not> in_range (idtr_descriptor s) 6 a \<longrightarrow> km s' a = km s a)"
proof -
  let ?d = "idt_descriptors s" and ?r = "idtr_descriptor s"
  let ?m = "store32 (store16 (snd (memset (km s) ?d 0 4096)) ?r (4096 - 1)) (?r + 2) ?d"
  define s1 where "s1 = s\<lparr>km := ?m\<rparr>"
  define s2 where "s2 = fold (\<lambda>i s. idt_set (int i) (load32 (km s) (table + of_nat (4 * i))) s) [0..<512] s1"
  define s3 where "s3 = idt_set 0x80 isr80h_wrapper (idt_set 0 int_0_handler s2)"
  define cs where "cs = (fold (\<lambda>i cs. cs[i := Some Idt_handle_exception]) [0..<32] (interrupt_callbacks s))[32 := Some Idt_clock]"
  have d1: "idt_descriptors s1 = ?d" "idtr_descriptor s1 = ?r" "interrupt_callbacks s1 = interrupt_callbacks s" by (simp_all add: s1_def)
  note fill = idt_fill_gates [OF tab [folded d1(1)] order_refl s2_def, unfolded d1(1)]
  note d2 = km_frame [OF fill [THEN conjunct2, THEN conjunct2], unfolded d1]
  note special = idt_special_gates [OF s3_def, unfolded d2 [THEN conjunct1]]
  note d3 = km_frame [OF special [THEN conjunct2, THEN conjunct2], unfolded d2 [THEN conjunct2, THEN conjunct1] d2 [THEN conjunct2, THEN conjunct2]]
  have le: "(32 :: nat) \<le> 512" by simp
  have "s' = (let s = fold (\<lambda>i s. snd (idt_register_interrupt_callback (int i) (Some Idt_handle_exception) s)) [0..<0x20] s3;
      s = snd (idt_register_interrupt_callback 0x20 (Some Idt_clock) s) in idt_load (idtr_descriptor s) s)"
    unfolding s' idt_init_def s3_def s2_def s1_def Let_def by simp
  then have s': "s' = idt_load ?r (s3\<lparr>interrupt_callbacks := cs\<rparr>)"
    unfolding register_exceptions [OF le] Let_def using d3
    by (simp add: cs_def idt_register_interrupt_callback_def)
  have km: "km s' = km s3" "idtr s' = (load16 (km s3) ?r, load32 (km s3) (?r + 2))" "interrupt_callbacks s' = cs"
    by (simp_all add: s' idt_load_def)
  have same: "km s3 a = km s1 a" if "\<not> in_range ?d 4096 a" for a using special fill that by simp
  have r: "in_range ?r 6 a \<Longrightarrow> km s3 a = km s1 a" for a using same disj_rangeD2 [OF reg] by blast
  note st = idtr_stored [OF reg refl, where old = "km s"]
  have l: "load16 (km s3) ?r = load16 ?m ?r"
    by (rule load16_cong) (use r in_range_mono in \<open>auto simp: s1_def\<close>)
  have "load32 (km s3) (?r + 2) = load32 ?m (?r + 2)"
  proof (rule load32_cong)
    fix a assume a: "in_range (?r + 2) 4 a"
    have "in_range ?r 6 a" by (rule in_range_offset [OF _ _ a]) (simp_all add: in_range_def)
    then show "km s3 a = ?m a" using r by (simp add: s1_def)
  qed
  then have idtr: "idtr s' = (4095, ?d)" using l st km by simp
  have "load32 (km s1) (table + of_nat (4 * i)) = load32 (km s) (table + of_nat (4 * i))" if "i < 512" for i
    using st(3) disj_rangeD2 [OF tab] disj_rangeD2 [OF tab2] by (intro table_load that) (simp add: s1_def)
  then have gates: "gate_at (km s') (?d + of_nat (8 * i)) = kernel_gate (if i = 0 then int_0_handler else if i = 0x80
      then isr80h_wrapper else load32 (km s) (table + of_nat (4 * i)))" if "i < 512" for i
    using that special fill km(1) by (simp del: of_nat_mult)
  have "interrupt_callbacks s' ! i = (if i < 0x20 then Some Idt_handle_exception else if i = 0x20 then Some Idt_clock
      else interrupt_callbacks s ! i)" if "i < 512" for i
    using fold_update_nth [of 32 "interrupt_callbacks s" "Some Idt_handle_exception" i] cb that
    by (auto simp: km(3) cs_def nth_list_update)
  moreover have "km s' a = km s a" if "\<not> in_range ?d 4096 a" "\<not> in_range ?r 6 a" for a
    using same [OF that(1)] st(3) [OF that] km(1) by (simp add: s1_def)
  ultimately show ?thesis using gates idtr by blast
qed

text \<open>A system with its tables at fixed places and a pointer table that holds \<open>0x100 + 16 * i\<close> for small \<open>i\<close>.\<close>

definition example_system :: system where
  "example_system = console.extend (example_console\<lparr>km := store32 (store32 (km example_console) 0x9004 0x110) 0x9084 0x310\<rparr>)
     (system.fields (replicate 512 None) (replicate 1024 None) 0xA000 0xB000 (0, 0) [] 0 0 0xC000)"

theorem idt_init_gates_witness:
  "let s = idt_init 0x9000 0x555 0x777 example_system
   in gate_at (km s) 0xA000 = kernel_gate 0x555 \<and> gate_at (km s) 0xA008 = kernel_gate 0x110
     \<and> gate_at (km s) 0xA108 = kernel_gate 0x310 \<and> gate_at (km s) 0xA400 = kernel_gate 0x777
     \<and> interrupt_callbacks s ! 14 = Some Idt_handle_exception \<and> interrupt_callbacks s ! 0x21 = None"
proof -
  let ?e = example_system
  have e: "idt_descriptors ?e = 0xA000" "idtr_descriptor ?e = 0xB000" "interrupt_callbacks ?e = replicate 512 None"
    "load32 (km ?e) 0x9004 = 0x110" "load32 (km ?e) 0x9084 = 0x310"
    by (simp_all add: example_system_def console.defs system.defs load32_store32 load32_store32_disj disj_range_def)
  note i = idt_init_gates [where s = ?e and table = "0x9000" and int_0_handler = "0x555" and isr80h_wrapper = "0x777", OF _ _ _ _ refl]
  have g: "gate_at (km (idt_init 0x9000 0x555 0x777 ?e)) (0xA000 + of_nat (8 * i))
      = kernel_gate (if i = 0 then 0x555 else if i = 0x80 then 0x777 else load32 (km ?e) (0x9000 + of_nat (4 * i)))" if "i < 512" for i
    using i that by (simp add: e disj_range_def)
  have "interrupt_callbacks (idt_init 0x9000 0x555 0x777 ?e) ! i
      = (if i < 0x20 then Some Idt_handle_exception else if i = 0x20 then Some Idt_clock else None)" if "i < 512" for i
    using i that by (simp add: e disj_range_def)
  then show ?thesis using g [of 0] g [of 1] g [of 33] g [of 128] e(4,5) by (simp add: Let_def)
qed

end
