(* ===== verification/Keyboard.thy ===== *)
theory Keyboard
  imports Interrupts
begin

text \<open>
  \<^verbatim>\<open>src/src/keyboard/keyboard.c\<close> and \<^verbatim>\<open>classic.c\<close>: keyboards in a list, the ring buffer of characters in every process and
  the interrupt of the PS/2 keyboard. The buffer is compared with a queue of at most 1024 characters.
\<close>

section \<open>Keyboards\<close>

text \<open>\<^verbatim>\<open>struct keyboard\<close>, 32 bytes; the function pointer \<^verbatim>\<open>init\<close> is looked up in \<open>init_fns\<close>.\<close>

record keyboard =
  kbd_init :: ptr
  kbd_name :: "u8 list"
  kbd_next :: ptr
  capslock_state :: int

definition keyboard_at :: "mem \<Rightarrow> ptr \<Rightarrow> keyboard" where
  "keyboard_at m p = \<lparr>kbd_init = load32 m p, kbd_name = bytes_at m (p + 4) 20, kbd_next = load32 m (p + 24),
     capslock_state = c_int (load32 m (p + 28))\<rparr>"

abbreviation (input) KEYBOARD_CAPS_LOCK_ON :: int where "KEYBOARD_CAPS_LOCK_ON \<equiv> 1"
abbreviation (input) KEYBOARD_CAPS_LOCK_OFF :: int where "KEYBOARD_CAPS_LOCK_OFF \<equiv> 0"
abbreviation (input) ISR_KEYBOARD_INTERRUPT :: int where "ISR_KEYBOARD_INTERRUPT \<equiv> 0x21"
abbreviation (input) LIEBE_OS_KEYBOARD_BUFFER_SIZE :: "'a::numeral" where "LIEBE_OS_KEYBOARD_BUFFER_SIZE \<equiv> 1024"
abbreviation (input) PS2_PORT :: u16 where "PS2_PORT \<equiv> 0x64"
abbreviation (input) PS2_COMMAND_ENABLE_FIRST_PORT :: u8 where "PS2_COMMAND_ENABLE_FIRST_PORT \<equiv> 0xAE"
abbreviation (input) CLASSIC_KEYBOARD_KEY_RELEASED :: u8 where "CLASSIC_KEYBOARD_KEY_RELEASED \<equiv> 0x80"
abbreviation (input) CLASSIC_KEYBOARD_CAPSLOCK :: u8 where "CLASSIC_KEYBOARD_CAPSLOCK \<equiv> 0x3A"

definition keyboard_set_capslock :: "ptr \<Rightarrow> int \<Rightarrow> 'a system_scheme \<Rightarrow> 'a system_scheme" where
  "keyboard_set_capslock keyboard state s = s\<lparr>km := store32 (km s) (keyboard + 28) (c_uint state)\<rparr>"

definition keyboard_get_capslock :: "ptr \<Rightarrow> 'a system_scheme \<Rightarrow> int" where
  "keyboard_get_capslock keyboard s = capslock_state (keyboard_at (km s) keyboard)"

definition keyboard_insert ::
    "(ptr \<Rightarrow> 'a system_scheme \<Rightarrow> int \<times> 'a system_scheme) \<Rightarrow> ptr \<Rightarrow> 'a system_scheme \<Rightarrow> int \<times> 'a system_scheme" where
  "keyboard_insert init_fns keyboard s =
     (if kbd_init (keyboard_at (km s) keyboard) = 0 then (- EINVARG, s)
      else
        let s = (if keyboard_list_last s \<noteq> 0
                 then s\<lparr>km := store32 (km s) (keyboard_list_last s + 24) keyboard, keyboard_list_last := keyboard\<rparr>
                 else s\<lparr>keyboard_list_head := keyboard, keyboard_list_last := keyboard\<rparr>)
        in init_fns (kbd_init (keyboard_at (km s) keyboard)) s)"

section \<open>The buffer of a process\<close>

definition keyboard_get_tail_index :: "ptr \<Rightarrow> mem \<Rightarrow> int" where
  "keyboard_get_tail_index process m = uint (c_uint (kb_tail (process_at m process)) mod LIEBE_OS_KEYBOARD_BUFFER_SIZE)"

definition keyboard_push :: "u8 \<Rightarrow> 'a system_scheme \<Rightarrow> 'a system_scheme" where
  "keyboard_push c s =
     (let process_obj = process_current s
      in if process_obj = 0 then s
         else if c = 0 then s
         else
           let real_index = keyboard_get_tail_index process_obj (km s);
               m = (km s)(process_obj + 8324 + c_uint real_index := c)
           in s\<lparr>km := store32 m (process_obj + 9352) (load32 m (process_obj + 9352) + 1)\<rparr>)"

definition keyboard_backspace :: "ptr \<Rightarrow> 'a system_scheme \<Rightarrow> 'a system_scheme" where
  "keyboard_backspace process_obj s =
     (let m = store32 (km s) (process_obj + 9352) (load32 (km s) (process_obj + 9352) - 1);
          real_index = keyboard_get_tail_index process_obj m
      in s\<lparr>km := m(process_obj + 8324 + c_uint real_index := 0)\<rparr>)"

definition keyboard_pop :: "'a system_scheme \<Rightarrow> u8 \<times> 'a system_scheme" where
  "keyboard_pop s =
     (if task_current s = 0 then (0, s)
      else
        let process = tk_process (task_at (km s) (task_current s));
            real_index = uint (c_uint (kb_head (process_at (km s) process)) mod LIEBE_OS_KEYBOARD_BUFFER_SIZE);
            c = km s (process + 8324 + c_uint real_index)
        in if c = 0 then (0, s)
           else
             let m = (km s)(process + 8324 + c_uint real_index := 0)
             in (c, s\<lparr>km := store32 m (process + 9348) (load32 m (process + 9348) + 1)\<rparr>))"

section \<open>The PS/2 keyboard\<close>

definition keyboard_scan_set_one :: "u8 list" where
  "keyboard_scan_set_one =
     [0x00, 0x1B, 0x31, 0x32, 0x33, 0x34, 0x35, 0x36, 0x37, 0x38, 0x39, 0x30,
      0x2D, 0x3D, 0x08, 0x09, 0x51, 0x57, 0x45, 0x52, 0x54, 0x59, 0x55, 0x49,
      0x4F, 0x50, 0x5B, 0x5D, 0x0D, 0x00, 0x41, 0x53, 0x44, 0x46, 0x47, 0x48,
      0x4A, 0x4B, 0x4C, 0x3B, 0x27, 0x60, 0x00, 0x5C, 0x5A, 0x58, 0x43, 0x56,
      0x42, 0x4E, 0x4D, 0x2C, 0x2E, 0x2F, 0x00, 0x2A, 0x00, 0x20, 0x00, 0x00,
      0x00, 0x00, 0x00, 0x00, 0x00, 0x00, 0x00, 0x00, 0x00, 0x37, 0x38, 0x39,
      0x2D, 0x34, 0x35, 0x36, 0x2B, 0x31, 0x32, 0x33, 0x30, 0x2E]"

definition classic_keyboard_init :: "'a system_scheme \<Rightarrow> int \<times> 'a system_scheme" where
  "classic_keyboard_init s =
     (let s = snd (idt_register_interrupt_callback ISR_KEYBOARD_INTERRUPT (Some Classic_keyboard_handle_interrupt) s);
          s = outb PS2_PORT PS2_COMMAND_ENABLE_FIRST_PORT s
      in (0, keyboard_set_capslock (classic_keyboard s) KEYBOARD_CAPS_LOCK_OFF s))"

text \<open>The comparison lets the scan code through that is the size of the array: \<open>behind\<close> is the byte that follows it in
  memory.\<close>

definition classic_keyboard_scancode_to_char :: "u8 \<Rightarrow> u8 \<Rightarrow> 'a system_scheme \<Rightarrow> u8" where
  "classic_keyboard_scancode_to_char behind scancode s =
     (if length keyboard_scan_set_one < unat scancode then 0
      else
        let c = (keyboard_scan_set_one @ [behind]) ! unat scancode
        in if keyboard_get_capslock (classic_keyboard s) s = KEYBOARD_CAPS_LOCK_OFF \<and> 65 \<le> sint c \<and> sint c \<le> 90
           then c + 32 else c)"

text \<open>\<open>scancode\<close> is what the keyboard's port gives. On both early returns the kernel's page directory stays loaded.\<close>

definition classic_keyboard_handle_interrupt :: "u8 \<Rightarrow> u8 \<Rightarrow> 'a system_scheme \<Rightarrow> 'a system_scheme" where
  "classic_keyboard_handle_interrupt behind scancode s =
     (let s = kernel_page s
      in if scancode AND CLASSIC_KEYBOARD_KEY_RELEASED \<noteq> 0 then s
         else if scancode = CLASSIC_KEYBOARD_CAPSLOCK then
           let old_state = keyboard_get_capslock (classic_keyboard s) s
           in keyboard_set_capslock (classic_keyboard s)
                (if old_state = KEYBOARD_CAPS_LOCK_ON then KEYBOARD_CAPS_LOCK_OFF else KEYBOARD_CAPS_LOCK_ON) s
         else
           let c = classic_keyboard_scancode_to_char behind scancode s;
               s = (if c \<noteq> 0 then keyboard_push c s else s)
           in snd (task_page s))"

definition classic_init :: "'a system_scheme \<Rightarrow> ptr" where
  "classic_init s = classic_keyboard s"

definition keyboard_init :: "(ptr \<Rightarrow> 'a system_scheme \<Rightarrow> int \<times> 'a system_scheme) \<Rightarrow> 'a system_scheme \<Rightarrow> 'a system_scheme" where
  "keyboard_init init_fns s = snd (keyboard_insert init_fns (classic_init s) s)"

section \<open>Queues\<close>

datatype 'c queue_event = Push 'c | Pop

text \<open>A queue of at most \<open>cap\<close> elements that ignores the element \<open>none\<close> and gives it when it is empty; \<open>None\<close> is a push
  on a full queue.\<close>

fun queue_run :: "nat \<Rightarrow> 'c \<Rightarrow> 'c queue_event list \<Rightarrow> 'c list \<Rightarrow> ('c list \<times> 'c list) option" where
  "queue_run cap none [] q = Some ([], q)"
| "queue_run cap none (Push c # evs) q =
     (if c = none then queue_run cap none evs q
      else if cap \<le> length q then None else queue_run cap none evs (q @ [c]))"
| "queue_run cap none (Pop # evs) q =
     (case q of [] \<Rightarrow> map_option (apfst (Cons none)) (queue_run cap none evs [])
      | c # q \<Rightarrow> map_option (apfst (Cons c)) (queue_run cap none evs q))"

text \<open>The same events on an implementation.\<close>

fun buffer_run :: "('c \<Rightarrow> 's \<Rightarrow> 's) \<Rightarrow> ('s \<Rightarrow> 'c \<times> 's) \<Rightarrow> 'c queue_event list \<Rightarrow> 's \<Rightarrow> 'c list \<times> 's" where
  "buffer_run push pop [] s = ([], s)"
| "buffer_run push pop (Push c # evs) s = buffer_run push pop evs (push c s)"
| "buffer_run push pop (Pop # evs) s = (let (c, s) = pop s in apfst (Cons c) (buffer_run push pop evs s))"

locale bounded_queue =
  fixes holds :: "'s \<Rightarrow> 'c list \<Rightarrow> bool" and push :: "'c \<Rightarrow> 's \<Rightarrow> 's" and pop :: "'s \<Rightarrow> 'c \<times> 's"
    and none :: 'c and cap :: nat
  assumes push_none: "push none s = s"
    and push_holds: "\<lbrakk>holds s q; c \<noteq> none; length q < cap\<rbrakk> \<Longrightarrow> holds (push c s) (q @ [c])"
    and pop_empty: "holds s [] \<Longrightarrow> pop s = (none, s)"
    and pop_holds: "holds s (c # q) \<Longrightarrow> fst (pop s) = c \<and> holds (snd (pop s)) q"
begin

lemma run_queue:
  "\<lbrakk>holds s q; queue_run cap none evs q = Some (outs, q')\<rbrakk> \<Longrightarrow>
    fst (buffer_run push pop evs s) = outs \<and> holds (snd (buffer_run push pop evs s)) q'"
proof (induction evs arbitrary: s q outs)
  case Nil
  then show ?case by simp
next
  case (Cons e evs)
  show ?case
  proof (cases e)
    case (Push c)
    then show ?thesis using Cons push_none [of s] push_holds [of s q c] by (auto split: if_splits simp: not_le)
  next
    case Pop
    note e = this
    show ?thesis
    proof (cases q)
      case Nil
      then show ?thesis using Cons e pop_empty [of s] by (auto split: if_splits)
    next
      case (Cons c r)
      have p: "fst (pop s) = c" "holds (snd (pop s)) r" using pop_holds [of s c r] Cons.prems(1) Cons by simp_all
      obtain os where os: "queue_run cap none evs r = Some (os, q')" "outs = c # os"
        using Cons.prems(2) e Cons by auto
      show ?thesis using Cons.IH [OF p(2) os(1)] os(2) p(1) e by (cases "pop s") simp
    qed
  qed
qed

end

section \<open>The buffer as a queue\<close>

text \<open>The characters of the queue lie from the head on, every other place of the buffer is zero.\<close>

definition keyboard_queue :: "mem \<Rightarrow> ptr \<Rightarrow> u8 list \<Rightarrow> bool" where
  "keyboard_queue m p q \<longleftrightarrow> length q \<le> 1024 \<and> 0 \<notin> set q
     \<and> load32 m (p + 9352) = load32 m (p + 9348) + of_nat (length q)
     \<and> (\<forall>k<1024. m (p + of_nat (8324 + (unat (load32 m (p + 9348)) + k) mod 1024)) = (if k < length q then q ! k else 0))"

text \<open>The current task belongs to the current process, whose buffer holds the queue.\<close>

definition keyboard_holds :: "'a system_scheme \<Rightarrow> u8 list \<Rightarrow> bool" where
  "keyboard_holds s q \<longleftrightarrow> current_process s \<noteq> 0 \<and> current_task s \<noteq> 0
     \<and> tk_process (task_at (km s) (current_task s)) = current_process s
     \<and> disj_range (current_task s) 64 (current_process s) 9364 \<and> keyboard_queue (km s) (current_process s) q"

lemma offset_range:
  assumes "i < 16384" and "j < 16384"
  shows "in_range (p + of_nat j) 4 (p + of_nat i) \<longleftrightarrow> j \<le> i \<and> i < j + 4"
proof -
  have u: "unat (of_nat i :: u32) = i" "unat (of_nat j :: u32) = j" using assms by (simp_all add: unat_of_nat_u32)
  have "unat (p + of_nat i - (p + of_nat j)) = (if j \<le> i then i - j else 4294967296 + i - j)"
    using unat_diff_u32 [of "of_nat i" "of_nat j"] unfolding u by simp
  then show ?thesis using assms by (auto simp: in_range_def)
qed

lemma offset_inject:
  assumes "i < 16384" and "j < 16384"
  shows "p + of_nat i = p + (of_nat j :: u32) \<longleftrightarrow> i = j"
proof -
  have u: "unat (of_nat i :: u32) = i" "unat (of_nat j :: u32) = j" using assms by (simp_all add: unat_of_nat_u32)
  then show ?thesis by (metis add_left_cancel)
qed

lemma load32_byte:
  assumes "i < 8324 + 1024" and "j = 9348 \<or> j = 9352"
  shows "load32 (m(p + of_nat i := c)) (p + of_nat j) = load32 m (p + of_nat j)"
proof (rule load32_cong)
  fix a assume "in_range (p + of_nat j) 4 a"
  then have "a \<noteq> p + of_nat i" using offset_range [of i j p] assms by auto
  then show "(m(p + of_nat i := c)) a = m a" by simp
qed

lemma ring_index:
  fixes w :: u32
  shows "c_uint (uint (c_uint (c_int w) mod 1024)) = of_nat (unat w mod 1024)"
    and "unat (w + of_nat n) mod 1024 = (unat w + n) mod 1024"
proof -
  have "w mod 1024 = of_nat (unat w mod 1024)"
    by (rule word_unat_eq_iff [THEN iffD2]) (simp add: unat_mod unat_of_nat_u32)
  then show "c_uint (uint (c_uint (c_int w) mod 1024)) = of_nat (unat w mod 1024)" by simp
  have "unat (w + of_nat n) mod 1024 = ((unat w + n mod 4294967296) mod 4294967296) mod 1024"
    by (simp add: unat_word_ariths unat_of_nat)
  then show "unat (w + of_nat n) mod 1024 = (unat w + n) mod 1024"
    by (simp add: mod_mod_cancel mod_add_right_eq)
qed

lemma ring_inject:
  fixes h k l :: nat
  assumes "k < 1024" and "l < 1024"
  shows "(h + k) mod 1024 = (h + l) mod 1024 \<longleftrightarrow> k = l"
  using assms
proof (induction k l rule: linorder_wlog)
  case (le k l)
  show ?case
  proof
    assume "(h + k) mod 1024 = (h + l) mod 1024"
    then have "1024 dvd l - k" using le mod_eq_dvd_iff_nat [of "h + k" "h + l" 1024] by simp
    moreover have "l - k < 1024" using le.prems by simp
    ultimately have "l - k = 0" by (rule dvd_imp_mod_0 [THEN mod_less [THEN sym, THEN trans, rotated]])
    then show "k = l" using le.hyps by simp
  qed simp
next
  case (sym k l)
  then show ?case by metis
qed

text \<open>Writing one place of the buffer and then one of its two counters (at \<open>j\<close>), as push and pop do.\<close>

lemma buffer_write:
  assumes t: "t < 1024" and j: "j = 9348 \<or> j = 9352"
    and m': "m' = store32 (m(p + of_nat (8324 + t) := c)) (p + of_nat j) v"
  shows "i < 1024 \<Longrightarrow> m' (p + of_nat (8324 + i)) = (if i = t then c else m (p + of_nat (8324 + i)))"
    and "load32 m' (p + of_nat j) = v"
    and "k = 9348 \<or> k = 9352 \<Longrightarrow> k \<noteq> j \<Longrightarrow> load32 m' (p + of_nat k) = load32 m (p + of_nat k)"
    and "\<not> in_range p 9364 a \<Longrightarrow> m' a = m a"
proof -
  let ?m = "m(p + of_nat (8324 + t) := c)"
  show "m' (p + of_nat (8324 + i)) = (if i = t then c else m (p + of_nat (8324 + i)))" if "i < 1024"
  proof -
    have "\<not> in_range (p + of_nat j) 4 (p + of_nat (8324 + i))" using offset_range [of "8324 + i" j p] that j by auto
    then have "m' (p + of_nat (8324 + i)) = ?m (p + of_nat (8324 + i))" unfolding m' by (rule store32_other)
    then show ?thesis using offset_inject [of "8324 + i" "8324 + t" p] that t by (simp del: of_nat_add)
  qed
  show "load32 m' (p + of_nat j) = v" unfolding m' by (rule load32_store32)
  show "load32 m' (p + of_nat k) = load32 m (p + of_nat k)" if "k = 9348 \<or> k = 9352" "k \<noteq> j"
    using load32_store32_disj [OF field_disj [of j k p], of ?m v] load32_byte [of "8324 + t" k m p c] that j t
    unfolding m' by (auto simp del: of_nat_add)
  show "m' a = m a" if "\<not> in_range p 9364 a"
  proof -
    have "in_range p 9364 (p + of_nat (8324 + t))" using t by (intro in_range_of_nat) simp_all
    then have "a \<noteq> p + of_nat (8324 + t)" using that by blast
    moreover have "\<not> in_range (p + of_nat j) 4 a"
    proof
      assume a: "in_range (p + of_nat j) 4 a"
      have "in_range p 9364 a" by (rule in_range_offset [OF _ _ a]) (use j in \<open>auto simp: in_range_def\<close>)
      then show False using that by blast
    qed
    ultimately show ?thesis unfolding m' by (simp add: store32_other)
  qed
qed

lemma queue_push:
  assumes q: "keyboard_queue m p q" and "c \<noteq> 0" and "length q < 1024"
    and m': "m' = store32 (m(p + 8324 + c_uint (keyboard_get_tail_index p m) := c)) (p + 9352) (load32 m (p + 9352) + 1)"
  shows "keyboard_queue m' p (q @ [c])" "\<not> in_range p 9364 a \<Longrightarrow> m' a = m a"
proof -
  let ?h = "unat (load32 m (p + 9348))"
  define t where "t = (?h + length q) mod 1024"
  have "load32 m (p + 9352) = load32 m (p + 9348) + of_nat (length q)" using q by (simp add: keyboard_queue_def)
  then have "c_uint (keyboard_get_tail_index p m) = of_nat t"
    unfolding keyboard_get_tail_index_def process_at_simps ring_index(1) by (simp only: ring_index(2) t_def)
  then have e: "m' = store32 (m(p + of_nat (8324 + t) := c)) (p + of_nat 9352) (load32 m (p + 9352) + 1)"
    by (simp add: m' add.assoc)
  have "t < 1024" by (simp add: t_def)
  note w = buffer_write [OF this disjI2 [OF refl] e]
  have h: "load32 m' (p + 9348) = load32 m (p + 9348)" "load32 m' (p + 9352) = load32 m (p + 9352) + 1"
    using w(2) w(3) [of 9348] by simp_all
  have "m' (p + of_nat (8324 + (?h + k) mod 1024)) = (if k < length (q @ [c]) then (q @ [c]) ! k else 0)" if "k < 1024" for k
  proof -
    have "m' (p + of_nat (8324 + (?h + k) mod 1024)) = (if k = length q then c else m (p + of_nat (8324 + (?h + k) mod 1024)))"
      using w(1) [of "(?h + k) mod 1024"] ring_inject [of k "length q" ?h] that assms(3) by (simp add: t_def)
    then show ?thesis using q that by (auto simp: keyboard_queue_def nth_append)
  qed
  then show "keyboard_queue m' p (q @ [c])" using q assms(2,3) by (simp add: keyboard_queue_def h add.assoc)
  show "\<not> in_range p 9364 a \<Longrightarrow> m' a = m a" by (rule w(4))
qed

lemma queue_pop:
  assumes q: "keyboard_queue m p (c # q)"
    and m': "m' = store32 (m(p + of_nat (8324 + unat (load32 m (p + 9348)) mod 1024) := 0)) (p + 9348) (load32 m (p + 9348) + 1)"
  shows "keyboard_queue m' p q" "\<not> in_range p 9364 a \<Longrightarrow> m' a = m a"
proof -
  let ?h = "unat (load32 m (p + 9348))"
  define t where "t = ?h mod 1024"
  have e: "m' = store32 (m(p + of_nat (8324 + t) := 0)) (p + of_nat 9348) (load32 m (p + 9348) + 1)"
    by (simp add: m' t_def)
  have "t < 1024" by (simp add: t_def)
  note w = buffer_write [OF this disjI1 [OF refl] e]
  have h: "load32 m' (p + 9352) = load32 m (p + 9352)" "load32 m' (p + 9348) = load32 m (p + 9348) + 1"
    using w(2) w(3) [of 9352] by simp_all
  have "(unat (load32 m' (p + 9348)) + k) mod 1024 = (?h + Suc k) mod 1024" for k
    using ring_index(2) [of "load32 m (p + 9348)" 1] mod_add_left_eq [of "unat (load32 m' (p + 9348))" 1024 k]
      mod_add_left_eq [of "?h + 1" 1024 k] unfolding h by simp
  moreover have "m' (p + of_nat (8324 + (?h + Suc k) mod 1024)) = (if k < length q then q ! k else 0)" if k: "k < 1024" for k
  proof (cases "Suc k < 1024")
    case True
    then have "(?h + Suc k) mod 1024 \<noteq> t" using ring_inject [of "Suc k" 0 ?h] by (simp add: t_def)
    then have "m' (p + of_nat (8324 + (?h + Suc k) mod 1024)) = m (p + of_nat (8324 + (?h + Suc k) mod 1024))"
      using w(1) [of "(?h + Suc k) mod 1024"] by simp
    also have "\<dots> = (if Suc k < length (c # q) then (c # q) ! Suc k else 0)"
      using q True unfolding keyboard_queue_def by blast
    finally show ?thesis by simp
  next
    case False
    then have "Suc k = 1024" using k by simp
    then have "(?h + Suc k) mod 1024 = t" by (simp only: t_def mod_add_self2)
    then show ?thesis using w(1) [of t] q False by (simp add: t_def keyboard_queue_def)
  qed
  ultimately show "keyboard_queue m' p q" using q by (simp add: keyboard_queue_def h)
  show "\<not> in_range p 9364 a \<Longrightarrow> m' a = m a" by (rule w(4))
qed

text \<open>The task of the process is outside of it and stays as it is.\<close>

lemma holds_frame:
  assumes h: "keyboard_holds s q" and fr: "\<And>a. \<not> in_range (current_process s) 9364 a \<Longrightarrow> m a = km s a"
    and q: "keyboard_queue m (current_process s) q'"
  shows "keyboard_holds (s\<lparr>km := m\<rparr>) q'"
proof -
  have d: "disj_range (current_task s) 64 (current_process s) 9364" using h by (simp add: keyboard_holds_def)
  have "load32 m (current_task s + 52) = load32 (km s) (current_task s + 52)"
  proof (rule load32_cong, rule fr)
    fix a assume a: "in_range (current_task s + 52) 4 a"
    have "in_range (current_task s) 64 a" by (rule in_range_offset [OF _ _ a]) (simp_all add: in_range_def)
    then show "\<not> in_range (current_process s) 9364 a" by (rule disj_rangeD [OF d])
  qed
  then show ?thesis using h q by (simp add: keyboard_holds_def task_at_def)
qed

lemma keyboard_pushE:
  assumes h: "keyboard_holds s q" and c: "c \<noteq> 0" and l: "length q < 1024"
  obtains m where "keyboard_push c s = s\<lparr>km := m\<rparr>" "keyboard_holds (s\<lparr>km := m\<rparr>) (q @ [c])"
    "\<And>a. \<not> in_range (current_process s) 9364 a \<Longrightarrow> m a = km s a"
proof -
  let ?p = "current_process s" and ?i = "keyboard_get_tail_index (current_process s) (km s)"
  have q: "keyboard_queue (km s) ?p q" using h by (simp add: keyboard_holds_def)
  let ?m = "store32 ((km s)(?p + 8324 + c_uint ?i := c)) (?p + 9352) (load32 (km s) (?p + 9352) + 1)"
  have i: "c_uint ?i = of_nat (unat (load32 (km s) (?p + 9352)) mod 1024)"
    unfolding keyboard_get_tail_index_def process_at_simps ring_index(1) ..
  have "load32 ((km s)(?p + 8324 + c_uint ?i := c)) (?p + 9352) = load32 (km s) (?p + 9352)"
    using load32_byte [of "8324 + unat (load32 (km s) (?p + 9352)) mod 1024" 9352 "km s" ?p c] unfolding i
    by (simp add: add.assoc del: of_nat_mod)
  then have "keyboard_push c s = s\<lparr>km := ?m\<rparr>"
    using h c by (simp add: keyboard_push_def process_current_def keyboard_holds_def Let_def)
  then show thesis
    using that holds_frame [OF h queue_push(2) [OF q c l refl] queue_push(1) [OF q c l refl]] queue_push(2) [OF q c l refl] by blast
qed

lemma keyboard_pop_queue:
  assumes h: "keyboard_holds s q"
  obtains m where "keyboard_pop s = (if q = [] then (0, s) else (hd q, s\<lparr>km := m\<rparr>))"
    "q \<noteq> [] \<Longrightarrow> keyboard_holds (s\<lparr>km := m\<rparr>) (tl q)" "\<And>a. q \<noteq> [] \<Longrightarrow> \<not> in_range (current_process s) 9364 a \<Longrightarrow> m a = km s a"
proof -
  let ?p = "current_process s" and ?h = "load32 (km s) (current_process s + 9348)"
  have q: "keyboard_queue (km s) ?p q" using h by (simp add: keyboard_holds_def)
  have at: "?p + 8324 + c_uint (uint (c_uint (c_int ?h) mod 1024)) = ?p + of_nat (8324 + unat ?h mod 1024)"
    unfolding ring_index(1) by (simp add: add.assoc)
  have "\<forall>k<1024. km s (?p + of_nat (8324 + (unat ?h + k) mod 1024)) = (if k < length q then q ! k else 0)"
    using q by (simp add: keyboard_queue_def)
  from spec [OF this, of 0] have c: "km s (?p + of_nat (8324 + unat ?h mod 1024)) = (if q = [] then 0 else hd q)"
    by (simp add: hd_conv_nth)
  have pr: "tk_process (task_at (km s) (task_current s)) = ?p" and cur: "task_current s \<noteq> 0"
    using h by (simp_all add: keyboard_holds_def task_current_def)
  have z: "hd q \<noteq> 0" if "q \<noteq> []" using q hd_in_set [OF that] by (auto simp: keyboard_queue_def)
  let ?m = "(km s)(?p + of_nat (8324 + unat ?h mod 1024) := 0)"
  have "load32 ?m (?p + 9348) = ?h" using load32_byte [of "8324 + unat ?h mod 1024" 9348 "km s" ?p 0] by (simp del: of_nat_add)
  then have p: "keyboard_pop s = (if q = [] then (0, s) else (hd q, s\<lparr>km := store32 ?m (?p + 9348) (?h + 1)\<rparr>))"
    using z cur unfolding keyboard_pop_def Let_def pr process_at_simps at c by (simp del: of_nat_add of_nat_mod)
  have qc: "keyboard_queue (km s) ?p (hd q # tl q)" if "q \<noteq> []" using q that by simp
  show thesis
  proof (rule that [OF p])
    assume "q \<noteq> []"
    note w = queue_pop [OF qc [OF this] refl]
    show "keyboard_holds (s\<lparr>km := store32 ?m (?p + 9348) (?h + 1)\<rparr>) (tl q)" by (rule holds_frame [OF h w(2,1)])
    show "store32 ?m (?p + 9348) (?h + 1) a = km s a" if "\<not> in_range ?p 9364 a" for a by (rule w(2) [OF that])
  qed
qed

interpretation kq: bounded_queue keyboard_holds keyboard_push keyboard_pop 0 1024
proof unfold_locales
  fix s :: "'a system_scheme" and q :: "u8 list" and c :: u8
  show "keyboard_push 0 s = s" by (simp add: keyboard_push_def Let_def)
  show "\<lbrakk>keyboard_holds s q; c \<noteq> 0; length q < 1024\<rbrakk> \<Longrightarrow> keyboard_holds (keyboard_push c s) (q @ [c])"
    by (metis keyboard_pushE)
  show "keyboard_holds s [] \<Longrightarrow> keyboard_pop s = (0, s)" using keyboard_pop_queue [of s "[]"] by metis
  assume "keyboard_holds s (c # q)"
  from keyboard_pop_queue [OF this]
  show "fst (keyboard_pop s) = c \<and> keyboard_holds (snd (keyboard_pop s)) q"
    by (metis fst_conv snd_conv list.distinct(1) list.sel(1,3))
qed

text \<open>Any sequence of key presses and reads gives the reading program the characters of a queue: in the order they came,
  each once, and zero when none is waiting, as long as at most 1024 characters wait.\<close>

lemma keyboard_queue_order:
  assumes "keyboard_holds s q" and "queue_run 1024 0 evs q = Some (outs, q')"
  shows "fst (buffer_run keyboard_push keyboard_pop evs s) = outs
    \<and> keyboard_holds (snd (buffer_run keyboard_push keyboard_pop evs s)) q'"
  using assms by (rule kq.run_queue)

text \<open>The process at \<^verbatim>\<open>0x20000\<close> of the current task at \<^verbatim>\<open>0x2000\<close>, with an empty buffer.\<close>

definition keyboard_system :: system where
  "keyboard_system = example_system\<lparr>km := store32 (km example_kernel) 0x2034 0x20000, current_process := 0x20000\<rparr>"

lemma keyboard_system_holds: "keyboard_holds keyboard_system []"
proof -
  have z: "km keyboard_system a = 0" if "in_range 0x20000 9364 a" for a
  proof -
    have d: "\<not> in_range b 4 a" if "disj_range 0x20000 9364 b 4" for b
      using that \<open>in_range 0x20000 9364 a\<close> by (rule disj_rangeD)
    show ?thesis
      by (simp add: keyboard_system_def example_kernel_def store32_other d disj_range_def)
  qed
  have r: "in_range 0x20000 9364 (0x20000 + of_nat i)" if "i < 9364" for i using that by (intro in_range_of_nat) simp_all
  have "load32 (km keyboard_system) (0x20000 + of_nat j) = 0" if "j < 9361" for j
  proof (rule load32_zero)
    fix a assume a: "in_range (0x20000 + of_nat j) 4 a"
    show "km keyboard_system a = 0"
      by (rule z, rule in_range_offset [OF r _ a]) (use that in \<open>simp_all add: unat_of_nat_u32\<close>)
  qed
  from this [of 9348] this [of 9352]
  have "keyboard_queue (km keyboard_system) 0x20000 []"
    using z [OF r] by (simp add: keyboard_queue_def del: of_nat_add)
  moreover have "current_task keyboard_system = 0x2000" "current_process keyboard_system = 0x20000"
    "load32 (km keyboard_system) 0x2034 = 0x20000"
    by (simp_all add: keyboard_system_def example_system_def example_console_def console.defs system.defs kernel.defs
      example_kernel_def load32_store32)
  ultimately show ?thesis by (simp add: keyboard_holds_def task_at_def disj_range_def)
qed

end
