(* ===== verification/Gdt.thy ===== *)
theory Gdt
  imports Task
begin

text \<open>
  \<^verbatim>\<open>src/src/gdt/gdt.c\<close>: segment descriptors in the format of the processor from base, limit and type, and the
  descriptors as the processor reads them. \<^verbatim>\<open>None\<close> is the panic of \<^verbatim>\<open>encodeGdtEntry\<close>.
\<close>

record gdt_structured =
  g_base :: u32
  g_limit :: u32
  g_type :: u8

definition encodeGdtEntry :: "ptr \<Rightarrow> gdt_structured \<Rightarrow> mem \<Rightarrow> mem option" where
  "encodeGdtEntry target source m =
     (if 65536 < g_limit source \<and> g_limit source AND 0xFFF \<noteq> 0xFFF then None
      else
        let m = m(target + 6 := 0x40);
            limit = (if 65536 < g_limit source then drop_bit 12 (g_limit source) else g_limit source);
            m = (if 65536 < g_limit source then m(target + 6 := 0xc0) else m);
            m = m(target := ucast (limit AND 0xFF));
            m = m(target + 1 := ucast (drop_bit 8 limit AND 0xFF));
            m = m(target + 6 := m (target + 6) OR ucast (drop_bit 16 limit AND 0x0F));
            m = m(target + 2 := ucast (g_base source AND 0xFF));
            m = m(target + 3 := ucast (drop_bit 8 (g_base source) AND 0xFF));
            m = m(target + 4 := ucast (drop_bit 16 (g_base source) AND 0xFF));
            m = m(target + 7 := ucast (drop_bit 24 (g_base source) AND 0xFF))
        in Some (m(target + 5 := g_type source)))"

text \<open>The entries from number \<open>i\<close> on.\<close>

fun gdt_entries_loop :: "ptr \<Rightarrow> gdt_structured list \<Rightarrow> nat \<Rightarrow> mem \<Rightarrow> mem option" where
  "gdt_entries_loop gdt [] i m = Some m"
| "gdt_entries_loop gdt (e # es) i m =
     (case encodeGdtEntry (gdt + of_nat (8 * i)) e m of None \<Rightarrow> None | Some m \<Rightarrow> gdt_entries_loop gdt es (i + 1) m)"

definition gdt_structured_to_gdt :: "ptr \<Rightarrow> gdt_structured list \<Rightarrow> int \<Rightarrow> mem \<Rightarrow> mem option" where
  "gdt_structured_to_gdt gdt structured_gdt total_entries m =
     gdt_entries_loop gdt (take (nat total_entries) structured_gdt) 0 m"

section \<open>The processor's view\<close>

text \<open>Base, limit in bytes and access byte of the descriptor at an address: with the granularity bit the limit
  counts pages.\<close>

definition gdt_entry_at :: "mem \<Rightarrow> ptr \<Rightarrow> gdt_structured" where
  "gdt_entry_at m p =
     (let limit = ucast (m p) OR push_bit 8 (ucast (m (p + 1))) OR push_bit 16 (ucast (m (p + 6)) AND 0x0F)
      in \<lparr>g_base = ucast (m (p + 2)) OR push_bit 8 (ucast (m (p + 3))) OR push_bit 16 (ucast (m (p + 4)))
            OR push_bit 24 (ucast (m (p + 7))),
          g_limit = (if bit (m (p + 6)) 7 then push_bit 12 limit OR 0xFFF else limit),
          g_type = m (p + 5)\<rparr>)"

definition gdt_valid :: "gdt_structured \<Rightarrow> bool" where
  "gdt_valid e \<longleftrightarrow> g_limit e \<le> 65536 \<or> g_limit e AND 0xFFF = 0xFFF"

lemma encode_bytes:
  assumes "encodeGdtEntry p e m = Some m'"
  defines "l \<equiv> if 65536 < g_limit e then drop_bit 12 (g_limit e) else g_limit e"
  shows "m' p = ucast (l AND 0xFF)" "m' (p + 1) = ucast (drop_bit 8 l AND 0xFF)"
    "m' (p + 6) = (if 65536 < g_limit e then 0xc0 else 0x40) OR ucast (drop_bit 16 l AND 0x0F)"
    "m' (p + 2) = ucast (g_base e AND 0xFF)" "m' (p + 3) = ucast (drop_bit 8 (g_base e) AND 0xFF)"
    "m' (p + 4) = ucast (drop_bit 16 (g_base e) AND 0xFF)" "m' (p + 7) = ucast (drop_bit 24 (g_base e) AND 0xFF)"
    "m' (p + 5) = g_type e" "\<not> in_range p 8 a \<Longrightarrow> m' a = m a"
proof -
  have "in_range p 8 (p + of_nat k)" if "k < 8" for k using that by (intro in_range_of_nat) simp_all
  from this [of 0] this [of 1] this [of 2] this [of 3] this [of 4] this [of 5] this [of 6] this [of 7]
  show "\<not> in_range p 8 a \<Longrightarrow> m' a = m a"
    using assms(1) by (auto simp: encodeGdtEntry_def Let_def split: if_splits)
qed (use assms(1) in \<open>auto simp: encodeGdtEntry_def Let_def l_def split: if_splits\<close>)

lemma masks: "(0xFF :: u32) = mask 8" "(0x0F :: u32) = mask 4" "(0xFFF :: u32) = mask 12"
  by (simp_all add: mask_eq_exp_minus_1)

lemma ucast_and_byte: "ucast (x AND 0xFF :: u32) = (ucast x :: u8)"
  unfolding masks by (rule bit_word_eqI) (auto simp: bit_simps)

lemma high_bits_clear:
  fixes l :: u32
  assumes "l < 1048576" and "20 \<le> n"
  shows "\<not> bit l n"
proof -
  have "drop_bit 20 l = 0" using assms(1) by (simp add: drop_bit_eq_div div_word_less)
  moreover have "bit l n \<longleftrightarrow> bit (drop_bit 20 l) (n - 20)" using assms(2) by (simp add: bit_drop_bit_eq)
  ultimately show ?thesis by simp
qed

lemma limit_bytes:
  fixes l :: u32 and f :: u8
  assumes "l < 1048576" and "f AND mask 4 = 0"
  shows "ucast (ucast (l AND 0xFF) :: u8) OR push_bit 8 (ucast (ucast (drop_bit 8 l AND 0xFF) :: u8))
     OR push_bit 16 (ucast (f OR ucast (drop_bit 16 l AND 0x0F)) AND 0x0F) = l" (is "?l = l")
proof (rule bit_word_eqI)
  fix n :: nat
  assume n: "n < LENGTH(32)"
  have f: "\<not> bit f k" if "k < 4" for k
  proof
    assume "bit f k"
    then have "bit (f AND mask 4) k" using that by (simp add: bit_simps)
    then show False by (simp add: assms(2))
  qed
  from n consider "n < 8" | "8 \<le> n" "n < 16" | "16 \<le> n" "n < 20" | "20 \<le> n" by force
  then show "bit ?l n = bit l n"
    unfolding ucast_and_byte masks
    using f [of "n - 16"] high_bits_clear [OF assms(1), of n] by cases (auto simp: bit_simps)
qed

lemma page_limit: "l AND 0xFFF = 0xFFF \<Longrightarrow> push_bit 12 (drop_bit 12 l) OR 0xFFF = l" for l :: u32
proof (rule bit_word_eqI)
  fix n assume l: "l AND 0xFFF = 0xFFF" and n: "n < LENGTH(32)"
  have "bit l n" if "n < 12"
  proof -
    have "bit (l AND mask 12) n" using l that n by (simp add: masks bit_simps)
    then show ?thesis by (simp add: bit_simps)
  qed
  then show "bit (push_bit 12 (drop_bit 12 l) OR 0xFFF) n = bit l n"
    unfolding masks using n by (auto simp: bit_simps)
qed

text \<open>A descriptor is read by the processor as the base, limit and type it was made from.\<close>

lemma encodeGdtEntry_roundtrip:
  "case encodeGdtEntry p e m of None \<Rightarrow> \<not> gdt_valid e
   | Some m' \<Rightarrow> gdt_valid e \<and> gdt_entry_at m' p = e \<and> (\<forall>a. \<not> in_range p 8 a \<longrightarrow> m' a = m a)"
proof (cases "encodeGdtEntry p e m")
  case None
  then show ?thesis by (simp add: encodeGdtEntry_def gdt_valid_def Let_def not_le split: if_splits)
next
  case (Some m')
  note b = encode_bytes [OF Some]
  have v: "gdt_valid e" using Some by (auto simp: encodeGdtEntry_def gdt_valid_def Let_def not_less split: if_splits)
  have base: "g_base (gdt_entry_at m' p) = g_base e" "g_type (gdt_entry_at m' p) = g_type e"
    using bytes_of_u32 [of "g_base e"] by (simp_all add: gdt_entry_at_def Let_def b ucast_and_byte)
  define l where "l = (if 65536 < g_limit e then drop_bit 12 (g_limit e) else g_limit e)"
  define f :: u8 where "f = (if 65536 < g_limit e then 0xc0 else 0x40)"
  have "l < 1048576"
    using unat_lt_u32 [of "g_limit e"] by (auto simp: l_def word_less_nat_alt drop_bit_eq_div unat_div)
  moreover have "f AND mask 4 = 0" by (simp add: f_def mask_eq_exp_minus_1)
  ultimately have "ucast (m' p) OR push_bit 8 (ucast (m' (p + 1))) OR push_bit 16 (ucast (m' (p + 6)) AND 0x0F) = l"
    unfolding b by (fold l_def f_def) (rule limit_bytes)
  moreover have "bit (m' (p + 6)) 7 \<longleftrightarrow> 65536 < g_limit e"
    unfolding b by (simp add: bit_simps masks)
  ultimately have "g_limit (gdt_entry_at m' p) = (if 65536 < g_limit e then push_bit 12 l OR 0xFFF else l)"
    by (simp only: gdt_entry_at_def Let_def gdt_structured.simps)
  also have "\<dots> = g_limit e" using v page_limit [of "g_limit e"] by (auto simp: l_def gdt_valid_def)
  finally have "g_limit (gdt_entry_at m' p) = g_limit e" .
  then have "gdt_entry_at m' p = e" using base by (cases e) (cases "gdt_entry_at m' p", simp)
  then show ?thesis using Some v b(9) by simp
qed

lemma gdt_entry_at_cong:
  assumes "\<And>a. in_range p 8 a \<Longrightarrow> m' a = m a"
  shows "gdt_entry_at m' p = gdt_entry_at m p"
proof -
  have "m' (p + of_nat k) = m (p + of_nat k)" if "k < 8" for k using that by (intro assms in_range_of_nat) simp_all
  from this [of 0] this [of 1] this [of 2] this [of 3] this [of 4] this [of 5] this [of 6] this [of 7]
  show ?thesis by (simp add: gdt_entry_at_def)
qed

lemma gdt_entries_loop_entries:
  assumes "8 * (i + length es) \<le> 4294967296"
  shows "case gdt_entries_loop p es i m of None \<Rightarrow> \<exists>e\<in>set es. \<not> gdt_valid e
    | Some m' \<Rightarrow> (\<forall>e\<in>set es. gdt_valid e)
        \<and> (\<forall>k<length es. gdt_entry_at m' (p + of_nat (8 * (i + k))) = es ! k)
        \<and> (\<forall>a. unat (a - p) < 8 * i \<or> 8 * (i + length es) \<le> unat (a - p) \<longrightarrow> m' a = m a)"
  using assms
proof (induction es arbitrary: i m)
  case Nil
  then show ?case by simp
next
  case (Cons e es)
  let ?q = "p + of_nat (8 * i)"
  note e = encodeGdtEntry_roundtrip [where p = ?q and e = e and m = m]
  show ?case
  proof (cases "encodeGdtEntry ?q e m")
    case None
    then show ?thesis using e by auto
  next
    case (Some m1)
    have r: "in_range ?q 8 a \<longleftrightarrow> unat (a - p) div 8 = i" for a using Cons.prems by (intro in_range_block) simp_all
    have b: "8 * (i + 1 + length es) \<le> 4294967296" using Cons.prems by simp
    note IH = Cons.IH [OF b, of m1]
    show ?thesis
    proof (cases "gdt_entries_loop p es (i + 1) m1")
      case None
      then show ?thesis using Some IH by auto
    next
      case m2: (Some m2)
      from IH m2 have frame: "m2 a = m1 a" if "unat (a - p) < 8 * (i + 1) \<or> 8 * (i + 1 + length es) \<le> unat (a - p)" for a
        using that by auto
      have "gdt_entry_at m2 ?q = gdt_entry_at m1 ?q"
        by (rule gdt_entry_at_cong, rule frame) (simp only: r, presburger)
      then have "gdt_entry_at m2 (p + of_nat (8 * (i + k))) = (e # es) ! k" if "k < length (e # es)" for k
        using that IH m2 e Some by (cases k) auto
      moreover have "m2 a = m a" if "unat (a - p) < 8 * i \<or> 8 * (i + length (e # es)) \<le> unat (a - p)" for a
      proof -
        have "unat (a - p) div 8 \<noteq> i" using that by auto
        then have "\<not> in_range ?q 8 a" by (simp only: r not_False_eq_True)
        then have "m1 a = m a" using e Some by simp
        then show ?thesis using frame [of a] that by auto
      qed
      ultimately show ?thesis using Some m2 IH e by auto
    qed
  qed
qed

text \<open>C25. Every descriptor of the table that \<^verbatim>\<open>gdt_structured_to_gdt\<close> makes is read by the processor as the base, limit
  and type it was made from; it panics exactly when some limit above 65536 does not end at a page. Only the
  table is written.\<close>

theorem gdt_structured_to_gdt_entries:
  assumes "8 * length es \<le> 4294967296"
  shows "case gdt_structured_to_gdt gdt es (int (length es)) m of None \<Rightarrow> \<exists>e\<in>set es. \<not> gdt_valid e
    | Some m' \<Rightarrow> (\<forall>e\<in>set es. gdt_valid e)
        \<and> (\<forall>k<length es. gdt_entry_at m' (gdt + of_nat (8 * k)) = es ! k)
        \<and> (\<forall>a. \<not> in_range gdt (8 * length es) a \<longrightarrow> m' a = m a)"
  using gdt_entries_loop_entries [of 0 es gdt m] assms
  by (auto simp: gdt_structured_to_gdt_def in_range_def not_less split: option.splits)

section \<open>The task state segment\<close>

record tss =
  tss_link :: u32
  tss_esp0 :: u32
  tss_ss0 :: u32
  tss_esp1 :: u32
  tss_ss1 :: u32
  tss_esp2 :: u32
  tss_ss2 :: u32
  tss_cr3 :: u32
  tss_eip :: u32
  tss_eflags :: u32
  tss_eax :: u32
  tss_ecx :: u32
  tss_edx :: u32
  tss_ebx :: u32
  tss_esp :: u32
  tss_ebp :: u32
  tss_esi :: u32
  tss_edi :: u32
  tss_es :: u32
  tss_cs :: u32
  tss_ss :: u32
  tss_ds :: u32
  tss_fs :: u32
  tss_gs :: u32
  tss_ldtr :: u32
  tss_iopb :: u32

definition tss_at :: "mem \<Rightarrow> ptr \<Rightarrow> tss" where
  "tss_at m p =
   \<lparr>tss_link = load32 m p, tss_esp0 = load32 m (p + 4), tss_ss0 = load32 m (p + 8),
    tss_esp1 = load32 m (p + 12), tss_ss1 = load32 m (p + 16), tss_esp2 = load32 m (p + 20),
    tss_ss2 = load32 m (p + 24), tss_cr3 = load32 m (p + 28), tss_eip = load32 m (p + 32),
    tss_eflags = load32 m (p + 36), tss_eax = load32 m (p + 40), tss_ecx = load32 m (p + 44),
    tss_edx = load32 m (p + 48), tss_ebx = load32 m (p + 52), tss_esp = load32 m (p + 56),
    tss_ebp = load32 m (p + 60), tss_esi = load32 m (p + 64), tss_edi = load32 m (p + 68),
    tss_es = load32 m (p + 72), tss_cs = load32 m (p + 76), tss_ss = load32 m (p + 80),
    tss_ds = load32 m (p + 84), tss_fs = load32 m (p + 88), tss_gs = load32 m (p + 92),
    tss_ldtr = load32 m (p + 96), tss_iopb = load32 m (p + 100)\<rparr>"

text \<open>What \<^verbatim>\<open>kernel_main\<close> writes to the segment at \<open>tss\<close>: the stack for interrupts that arrive in user mode.\<close>

abbreviation (input) LIEBE_OS_TOTAL_GDT_SEGMENTS :: int where "LIEBE_OS_TOTAL_GDT_SEGMENTS \<equiv> 6"
abbreviation (input) KERNEL_DATA_SELECTOR :: u32 where "KERNEL_DATA_SELECTOR \<equiv> 0x10"

definition tss_setup :: "ptr \<Rightarrow> mem \<Rightarrow> mem" where
  "tss_setup tss m =
     (let m = snd (memset m tss 0 104);
          m = store32 m (tss + 4) 0x600000
      in store32 m (tss + 8) KERNEL_DATA_SELECTOR)"

lemma tss_setup_fields:
  "tss_at (tss_setup p m) p =
   \<lparr>tss_link = 0, tss_esp0 = 0x600000, tss_ss0 = 0x10, tss_esp1 = 0, tss_ss1 = 0, tss_esp2 = 0, tss_ss2 = 0,
    tss_cr3 = 0, tss_eip = 0, tss_eflags = 0, tss_eax = 0, tss_ecx = 0, tss_edx = 0, tss_ebx = 0,
    tss_esp = 0, tss_ebp = 0, tss_esi = 0, tss_edi = 0, tss_es = 0, tss_cs = 0, tss_ss = 0, tss_ds = 0,
    tss_fs = 0, tss_gs = 0, tss_ldtr = 0, tss_iopb = 0\<rparr>"
  and tss_setup_other: "\<not> in_range p 104 a \<Longrightarrow> tss_setup p m a = m a"
proof -
  have z: "load32 (snd (memset m p 0 104)) (p + of_nat k) = 0" if "k + 4 \<le> 104" for k
  proof -
    have "load32 (snd (memset m p 0 104)) (p + of_nat k) = load32 (\<lambda>_. 0) (p + of_nat k)"
      by (rule load32_cong) (use in_range_suffix(1) [of k 4 104 p] that in \<open>simp add: memset_apply\<close>)
    then show ?thesis by (simp add: load32_def)
  qed
  have w: "load32 (tss_setup p m) (p + of_nat k) = (if k = 4 then 0x600000 else if k = 8 then 0x10 else 0)"
    if "k + 4 \<le> 104" "4 dvd k" for k
  proof -
    have d: "disj_range (p + of_nat j) 4 (p + of_nat k) 4" if "j = 4 \<or> j = 8" "j \<noteq> k" for j
      using word_index_disj [of "j div 4" "k div 4" p] that \<open>4 dvd k\<close> \<open>k + 4 \<le> 104\<close> by (auto elim!: dvdE)
    show ?thesis
      using d [of 4] d [of 8] z [OF that(1)]
      by (auto simp: tss_setup_def Let_def load32_store32 load32_store32_disj disj_range_def)
  qed
  show "tss_at (tss_setup p m) p = \<lparr>tss_link = 0, tss_esp0 = 0x600000, tss_ss0 = 0x10, tss_esp1 = 0, tss_ss1 = 0, tss_esp2 = 0, tss_ss2 = 0,
      tss_cr3 = 0, tss_eip = 0, tss_eflags = 0, tss_eax = 0, tss_ecx = 0, tss_edx = 0, tss_ebx = 0,
      tss_esp = 0, tss_ebp = 0, tss_esi = 0, tss_edi = 0, tss_es = 0, tss_cs = 0, tss_ss = 0, tss_ds = 0,
      tss_fs = 0, tss_gs = 0, tss_ldtr = 0, tss_iopb = 0\<rparr>"
    using w [of 0] w [of 4] w [of 8] w [of 12] w [of 16] w [of 20] w [of 24] w [of 28] w [of 32] w [of 36] w [of 40] w [of 44] w [of 48] w [of 52] w [of 56] w [of 60] w [of 64] w [of 68] w [of 72] w [of 76] w [of 80] w [of 84] w [of 88] w [of 92] w [of 96] w [of 100]
    by (simp add: tss_at_def)
  show "tss_setup p m a = m a" if "\<not> in_range p 104 a"
  proof -
    have "\<not> in_range (p + of_nat 4) 4 a" "\<not> in_range (p + of_nat 8) 4 a"
      using in_range_suffix(1) [of 4 4 104 p a] in_range_suffix(1) [of 8 4 104 p a] that by auto
    then show ?thesis using that by (simp add: tss_setup_def Let_def store32_other memset_apply)
  qed
qed

text \<open>The six segments of \<^verbatim>\<open>kernel.c\<close>, for a task state segment of 104 bytes at \<open>tss\<close>.\<close>

definition gdt_structured_table :: "ptr \<Rightarrow> gdt_structured list" where
  "gdt_structured_table tss =
     [\<lparr>g_base = 0x00, g_limit = 0x00, g_type = 0x00\<rparr>,
      \<lparr>g_base = 0x00, g_limit = 0xFFFFFFFF, g_type = 0x9A\<rparr>,
      \<lparr>g_base = 0x00, g_limit = 0xFFFFFFFF, g_type = 0x92\<rparr>,
      \<lparr>g_base = 0x00, g_limit = 0xFFFFFFFF, g_type = 0xF8\<rparr>,
      \<lparr>g_base = 0x00, g_limit = 0xFFFFFFFF, g_type = 0xF2\<rparr>,
      \<lparr>g_base = tss, g_limit = 104, g_type = 0xE9\<rparr>]"

theorem gdt_structured_to_gdt_entries_witness:
  "case gdt_structured_to_gdt 0x5000 (gdt_structured_table 0x7000) 6 (\<lambda>a. 0) of None \<Rightarrow> False
   | Some m' \<Rightarrow> gdt_entry_at m' 0x5028 = \<lparr>g_base = 0x7000, g_limit = 104, g_type = 0xE9\<rparr>
       \<and> gdt_entry_at m' 0x5018 = \<lparr>g_base = 0, g_limit = 0xFFFFFFFF, g_type = 0xF8\<rparr>"
proof -
  have l: "length (gdt_structured_table 0x7000) = 6" by (simp add: gdt_structured_table_def)
  have v: "\<forall>e\<in>set (gdt_structured_table 0x7000). gdt_valid e" by (simp add: gdt_structured_table_def gdt_valid_def)
  note t = gdt_structured_to_gdt_entries [of "gdt_structured_table 0x7000" "0x5000" "\<lambda>a. 0"]
  show ?thesis
  proof (cases "gdt_structured_to_gdt 0x5000 (gdt_structured_table 0x7000) 6 (\<lambda>a. 0)")
    case None
    then show ?thesis using t v by (simp add: l)
  next
    case (Some m')
    have "gdt_entry_at m' (0x5000 + of_nat (8 * k)) = gdt_structured_table 0x7000 ! k" if "k < 6" for k
      using t Some that by (simp add: l)
    from this [of 5] this [of 3] show ?thesis using Some by (simp add: gdt_structured_table_def)
  qed
qed

end
