(* ===== verification/Isr80h.thy ===== *)
theory Isr80h
  imports Keyboard ProcessMem Gdt
begin

text \<open>
  Entry into the kernel: the dispatch of interrupts and system calls of \<^verbatim>\<open>src/src/idt/idt.c\<close>, the ten commands of
  \<^verbatim>\<open>src/src/isr80h/\<close> and the start of the system in \<^verbatim>\<open>kernel_main\<close>. \<open>None\<close> stands for a call that does not return,
  \<open>Entered\<close> for a command that enters a task instead of returning to the caller.
\<close>

text \<open>What the code finds in its environment: the functions of the file systems, the string literals, and the
  places of the local and static variables whose addresses are taken.\<close>

record 's environment =
  fs_table :: "ptr \<Rightarrow> 's fs_ops"
  mode_r :: ptr
  start_stat :: file_stat
  garbage_process :: ptr
  print_buffer :: ptr
  filename_buffer :: ptr
  path_buffer :: ptr
  drive_prefix :: ptr
  process_variable :: ptr
  divide_message :: ptr
  shell_path :: ptr
  static_tss :: ptr
  gdt_real :: ptr

section \<open>Commands\<close>

definition isr80h_command0_sum :: "'a system_scheme \<Rightarrow> u32 \<times> 'a system_scheme" where
  "isr80h_command0_sum s =
     (let (v2, s) = task_get_stack_item (task_current s) 1 s;
          (v1, s) = task_get_stack_item (task_current s) 0 s
      in (v1 + v2, s))"

definition isr80h_command1_print :: "'a system_scheme environment \<Rightarrow> 'a system_scheme \<Rightarrow> (u32 \<times> 'a system_scheme) option" where
  "isr80h_command1_print env s =
     (let (user_space_msg_buff, s) = task_get_stack_item (task_current s) 0 s;
          (_, s) = copy_string_from_task (task_current s) user_space_msg_buff (print_buffer env) 1024 s
      in map_option (Pair 0) (print (print_buffer env) s))"

definition isr80h_command2_getkey :: "'a system_scheme \<Rightarrow> u32 \<times> 'a system_scheme" where
  "isr80h_command2_getkey s = (let (c, s) = keyboard_pop s in (scast c, s))"

definition isr80h_commad3_putchar :: "'a system_scheme \<Rightarrow> u32 \<times> 'a system_scheme" where
  "isr80h_commad3_putchar s =
     (let (c, s) = task_get_stack_item (task_current s) 0 s in (0, terminal_writechar (ucast c) 15 s))"

definition isr80h_command4_malloc :: "'a system_scheme \<Rightarrow> u32 \<times> 'a system_scheme" where
  "isr80h_command4_malloc s =
     (let (sz, s) = task_get_stack_item (task_current s) 0 s
      in process_malloc (tk_process (task_at (km s) (task_current s))) sz s)"

definition isr80h_command5_free :: "'a system_scheme \<Rightarrow> u32 \<times> 'a system_scheme" where
  "isr80h_command5_free s =
     (let (ptr_to_free, s) = task_get_stack_item (task_current s) 0 s
      in (0, process_free (tk_process (task_at (km s) (task_current s))) ptr_to_free s))"

text \<open>Both ways to start a program end in the new task.\<close>

definition enter_process :: "ptr option \<Rightarrow> 'a system_scheme \<Rightarrow> (u32, 'a system_scheme) outcome" where
  "enter_process p s =
     (let process = (case p of Some q \<Rightarrow> q | None \<Rightarrow> 0);
          s = snd (task_switch (ps_task (process_at (km s) process)) s)
      in Entered (ps_task (process_at (km s) process) + 4) s)"

definition isr80h_command6_process_load_start ::
    "'a system_scheme environment \<Rightarrow> 'a system_scheme \<Rightarrow> (u32, 'a system_scheme) outcome option" where
  "isr80h_command6_process_load_start env s =
     (let (filename_user_ptr, s) = task_get_stack_item (task_current s) 0 s;
          (res, s) = copy_string_from_task (task_current s) filename_user_ptr (filename_buffer env) LIEBE_OS_MAX_PATH_LEN s
      in if res < 0 then Some (Returned 0 s)
         else do {
           (_, m) \<leftarrow> strcpy (km s) (path_buffer env) (drive_prefix env);
           (_, m) \<leftarrow> strcpy m (path_buffer env + 3) (filename_buffer env);
           r \<leftarrow> process_load_switch (fs_table env) (mode_r env) (start_stat env) (garbage_process env) (path_buffer env)
                  (process_variable env) (s\<lparr>km := m\<rparr>);
           case r of
             Returned (res, p) s \<Rightarrow> Some (if res < 0 then Returned 0 s else enter_process p s)
           | Panicked msg \<Rightarrow> Some (Panicked msg)
           | Entered regs s \<Rightarrow> Some (Entered regs s)
         })"

text \<open>The whole length of \<open>path\<close> is allowed behind its first three bytes.\<close>

definition isr80h_command7_invoke_system_command ::
    "'a system_scheme environment \<Rightarrow> 'a system_scheme \<Rightarrow> (u32, 'a system_scheme) outcome option" where
  "isr80h_command7_invoke_system_command env s =
     (let task = task_current s;
          (item, s) = task_get_stack_item (task_current s) 0 s;
          arguments = task_virtual_address_to_physical task item (km s)
      in if arguments = 0 then Some (Returned (ERROR (- EINVARG)) s)
         else do {
           len \<leftarrow> strlen (km s) arguments;
           if len = 0 then Some (Returned (ERROR (- EINVARG)) s)
           else do {
             (_, m) \<leftarrow> strcpy (km s) (path_buffer env) (drive_prefix env);
             let m = snd (strncpy m (path_buffer env + 3) arguments LIEBE_OS_MAX_PATH_LEN);
             r \<leftarrow> process_load_switch (fs_table env) (mode_r env) (start_stat env) (garbage_process env) (path_buffer env)
                    (process_variable env) (s\<lparr>km := m\<rparr>);
             case r of
               Returned (res, p) s \<Rightarrow>
                 (if res < 0 then Some (Returned (ERROR res) s)
                  else do {
                    (res, s) \<leftarrow> process_inject_arguments (case p of Some q \<Rightarrow> q | None \<Rightarrow> 0) arguments s;
                    Some (if res < 0 then Returned (ERROR res) s else enter_process p s)
                  })
             | Panicked msg \<Rightarrow> Some (Panicked msg)
             | Entered regs s \<Rightarrow> Some (Entered regs s)
           }
         })"

definition isr80h_command8_get_program_arguments :: "'a system_scheme \<Rightarrow> u32 \<times> 'a system_scheme" where
  "isr80h_command8_get_program_arguments s =
     (let process = tk_process (task_at (km s) (task_current s));
          task = task_current s;
          (item, s) = task_get_stack_item (task_current s) 0 s;
          arguments = task_virtual_address_to_physical task item (km s);
          (argc, argv) = process_get_arguments process (km s)
      in (0, s\<lparr>km := store32 (store32 (km s) arguments (c_uint argc)) (arguments + 4) argv\<rparr>))"

text \<open>Ending the process of the current task, on its own request or after an exception.\<close>

definition idt_handle_exception :: "'a system_scheme \<Rightarrow> (unit, 'a system_scheme) outcome" where
  "idt_handle_exception s =
     (case process_terminate (tk_process (task_at (km s) (task_current s))) s of
        Returned _ s \<Rightarrow> task_next s
      | Panicked msg \<Rightarrow> Panicked msg
      | Entered regs s \<Rightarrow> Entered regs s)"

definition isr80h_command9_exit :: "'a system_scheme \<Rightarrow> (u32, 'a system_scheme) outcome" where
  "isr80h_command9_exit s =
     (case process_terminate (tk_process (task_at (km s) (task_current s))) s of
        Returned _ s \<Rightarrow>
          (case task_next s of
             Returned _ s \<Rightarrow> Returned 0 s | Panicked msg \<Rightarrow> Panicked msg | Entered regs s \<Rightarrow> Entered regs s)
      | Panicked msg \<Rightarrow> Panicked msg
      | Entered regs s \<Rightarrow> Entered regs s)"

section \<open>Dispatch\<close>

definition isr80h_run :: "'a system_scheme environment \<Rightarrow> isr80h_command \<Rightarrow> 'a system_scheme \<Rightarrow> (u32, 'a system_scheme) outcome option" where
  "isr80h_run env command s =
     (case command of
        Command0_sum \<Rightarrow> Some (case_prod Returned (isr80h_command0_sum s))
      | Command1_print \<Rightarrow> map_option (case_prod Returned) (isr80h_command1_print env s)
      | Command2_getkey \<Rightarrow> Some (case_prod Returned (isr80h_command2_getkey s))
      | Command3_putchar \<Rightarrow> Some (case_prod Returned (isr80h_commad3_putchar s))
      | Command4_malloc \<Rightarrow> Some (case_prod Returned (isr80h_command4_malloc s))
      | Command5_free \<Rightarrow> Some (case_prod Returned (isr80h_command5_free s))
      | Command6_process_load_start \<Rightarrow> isr80h_command6_process_load_start env s
      | Command7_invoke_system_command \<Rightarrow> isr80h_command7_invoke_system_command env s
      | Command8_get_program_arguments \<Rightarrow> Some (case_prod Returned (isr80h_command8_get_program_arguments s))
      | Command9_exit \<Rightarrow> Some (isr80h_command9_exit s))"

definition isr80h_handle_command ::
    "'a system_scheme environment \<Rightarrow> int \<Rightarrow> 'a system_scheme \<Rightarrow> (u32, 'a system_scheme) outcome option" where
  "isr80h_handle_command env command s =
     (if command < 0 \<or> LIEBE_OS_ISR80H_MAX_COMMANDS \<le> command then Some (Returned 0 s)
      else case isr80h_commnads s ! nat command of
             None \<Rightarrow> Some (Returned 0 s)
           | Some c \<Rightarrow> isr80h_run env c s)"

definition isr80h_handler ::
    "'a system_scheme environment \<Rightarrow> int \<Rightarrow> interrupt_frame \<Rightarrow> 'a system_scheme \<Rightarrow> (u32, 'a system_scheme) outcome option" where
  "isr80h_handler env command frame s =
     (case task_current_save_state frame (kernel_page s) of
        Returned _ s \<Rightarrow>
          do {
            r \<leftarrow> isr80h_handle_command env command s;
            case r of
              Returned res s \<Rightarrow> Some (Returned res (snd (task_page s)))
            | Panicked msg \<Rightarrow> Some (Panicked msg)
            | Entered regs s \<Rightarrow> Some (Entered regs s)
          }
      | Panicked msg \<Rightarrow> Some (Panicked msg)
      | Entered regs s \<Rightarrow> Some (Entered regs s))"

text \<open>\<open>scancode\<close> and \<open>behind\<close> are the inputs of the keyboard interrupt.\<close>

definition callback_run :: "u8 \<Rightarrow> u8 \<Rightarrow> interrupt_callback \<Rightarrow> 'a system_scheme \<Rightarrow> (unit, 'a system_scheme) outcome" where
  "callback_run behind scancode callback s =
     (case callback of
        Idt_handle_exception \<Rightarrow> idt_handle_exception s
      | Idt_clock \<Rightarrow> Returned () s
      | Classic_keyboard_handle_interrupt \<Rightarrow> Returned () (classic_keyboard_handle_interrupt behind scancode s))"

definition interrupt_handler ::
    "u8 \<Rightarrow> u8 \<Rightarrow> int \<Rightarrow> interrupt_frame \<Rightarrow> 'a system_scheme \<Rightarrow> (unit, 'a system_scheme) outcome" where
  "interrupt_handler behind scancode interrupt frame s =
     (let s = kernel_page s;
          r = (case interrupt_callbacks s ! nat interrupt of
                 None \<Rightarrow> Returned () s
               | Some callback \<Rightarrow>
                   (case task_current_save_state frame s of
                      Returned _ s \<Rightarrow> callback_run behind scancode callback s
                    | Panicked msg \<Rightarrow> Panicked msg
                    | Entered regs s \<Rightarrow> Entered regs s))
      in case r of
           Returned _ s \<Rightarrow> Returned () (outb 0x20 0x20 (snd (task_page s)))
         | Panicked msg \<Rightarrow> Panicked msg
         | Entered regs s \<Rightarrow> Entered regs s)"

definition int_null_fn :: "'a system_scheme \<Rightarrow> 'a system_scheme" where
  "int_null_fn s = outb 0x20 0x20 s"

definition int_0_fn :: "'a system_scheme environment \<Rightarrow> 'a system_scheme \<Rightarrow> 'a system_scheme option" where
  "int_0_fn env s = print (divide_message env) s"

section \<open>Start of the system\<close>

definition isr80h_commands :: "isr80h_command list" where
  "isr80h_commands = [Command0_sum, Command1_print, Command2_getkey, Command3_putchar, Command4_malloc, Command5_free,
     Command6_process_load_start, Command7_invoke_system_command, Command8_get_program_arguments, Command9_exit]"

fun isr80h_register_loop :: "isr80h_command list \<Rightarrow> int \<Rightarrow> 'a system_scheme \<Rightarrow> (unit, 'a system_scheme) outcome" where
  "isr80h_register_loop [] i s = Returned () s"
| "isr80h_register_loop (c # cs) i s =
     (case isr80h_register_command i (Some c) s of
        Returned _ s \<Rightarrow> isr80h_register_loop cs (i + 1) s
      | Panicked msg \<Rightarrow> Panicked msg
      | Entered regs s \<Rightarrow> Entered regs s)"

definition isr80h_register_commands :: "'a system_scheme \<Rightarrow> (unit, 'a system_scheme) outcome" where
  "isr80h_register_commands s = isr80h_register_loop isr80h_commands 0 s"

text \<open>\<^verbatim>\<open>kernel_main\<close> up to the kernel's page directory and from there on. \<open>table\<close>, \<open>int_0_handler\<close> and \<open>isr80h_wrapper\<close> are as
  for \<^verbatim>\<open>idt_init\<close>, \<open>fs_addr\<close> is the address of the file system \<^verbatim>\<open>fat16\<close>.\<close>

definition kernel_main_setup ::
    "'a system_scheme environment \<Rightarrow> ptr \<Rightarrow> ptr \<Rightarrow> ptr \<Rightarrow> ptr \<Rightarrow> 'a system_scheme \<Rightarrow> (unit, 'a system_scheme) outcome option" where
  "kernel_main_setup env table int_0_handler isr80h_wrapper fs_addr s =
     (let s = terminal_initialize s;
          m = snd (memset (km s) (gdt_real env) 0 48)
      in case gdt_structured_to_gdt (gdt_real env) (gdt_structured_table (static_tss env)) LIEBE_OS_TOTAL_GDT_SEGMENTS m of
           None \<Rightarrow> Some (Panicked ''encodeeGDTEntry: Invlaid Args'')
         | Some m \<Rightarrow>
             let (heap, m, failed) = kheap_init (kheap s) m;
                 s = s\<lparr>km := m, kheap := heap\<rparr>
             in case failed of
                  Some msg \<Rightarrow> Some (Panicked msg)
                | None \<Rightarrow> do {
                    s \<leftarrow> fs_init fs_addr s;
                    s \<leftarrow> disk_search_and_init (fs_table env) s;
                    let s = idt_init table int_0_handler isr80h_wrapper s;
                    let m = tss_setup (static_tss env) (km s);
                    let (directory, m) = create_new_page_directory (kheap s) 7 m;
                    let s = s\<lparr>km := m, page_directory_obj := directory\<rparr>;
                    let s = s\<lparr>cpu := enable_paging (page_switch (get_page_directory_entry directory (km s)) (cpu s))\<rparr>;
                    Some (Returned () s)
                  })"

definition kernel_main ::
    "'a system_scheme environment \<Rightarrow> (ptr \<Rightarrow> 'a system_scheme \<Rightarrow> int \<times> 'a system_scheme) \<Rightarrow> ptr \<Rightarrow> ptr \<Rightarrow> ptr \<Rightarrow> ptr
      \<Rightarrow> 'a system_scheme \<Rightarrow> (unit, 'a system_scheme) outcome option" where
  "kernel_main env init_fns table int_0_handler isr80h_wrapper fs_addr s =
     do {
       r \<leftarrow> kernel_main_setup env table int_0_handler isr80h_wrapper fs_addr s;
       case r of
         Returned _ s \<Rightarrow>
           (case isr80h_register_commands s of
              Returned _ s \<Rightarrow> do {
                let s = keyboard_init init_fns s;
                r \<leftarrow> process_load_switch (fs_table env) (mode_r env) (start_stat env) (garbage_process env) (shell_path env)
                       (process_variable env) s;
                case r of
                  Returned (res, p) s \<Rightarrow>
                    Some (if res \<noteq> 0 then Panicked ''Failed to load the shell! Panic'' else task_run_first_ever_task s)
                | Panicked msg \<Rightarrow> Some (Panicked msg)
                | Entered regs s \<Rightarrow> Some (Entered regs s)
              }
            | Panicked msg \<Rightarrow> Some (Panicked msg)
            | Entered regs s \<Rightarrow> Some (Entered regs s))
       | Panicked msg \<Rightarrow> Some (Panicked msg)
       | Entered regs s \<Rightarrow> Some (Entered regs s)
     }"

section \<open>System calls\<close>

text \<open>Reading the stack of the current task goes through its page directory and back to the kernel's.\<close>

lemma stack_item_current:
  fixes s :: "'a system_scheme"
  assumes "task_get_stack_item (current_task s) i s = (v, s')"
  defines "dir \<equiv> get_page_directory_entry (tk_page_directory (task_at (km s) (current_task s))) (km s)"
  shows "v = load32 (seen dir (km s)) (rg_esp (tk_registers (task_at (km s) (current_task s))) + 4 * c_uint i)"
    and "s' = kernel_page s"
proof -
  show "v = load32 (seen dir (km s)) (rg_esp (tk_registers (task_at (km s) (current_task s))) + 4 * c_uint i)"
    using assms(1) by (auto simp: task_get_stack_item_def task_page_task_def user_registers_def Let_def dir_def
      page_switch_def paging_load_directory_def)
  show "s' = kernel_page s"
    using assms(1) by (auto simp: task_get_stack_item_def task_page_task_def user_registers_def kernel_page_def
      kernel_registers_def Let_def page_switch_def paging_load_directory_def)
qed

lemma kernel_page_simps [simp]:
  "km (kernel_page s) = km s" "current_task (kernel_page s) = current_task s" "kheap (kernel_page s) = kheap s"
  "data_selector (kernel_page s) = 0x10" "page_directory_obj (kernel_page s) = page_directory_obj s"
  by (simp_all add: kernel_page_def kernel_registers_def Let_def)

lemma kernel_page_system [simp]:
  "isr80h_commnads (kernel_page s) = isr80h_commnads s" "interrupt_callbacks (kernel_page s) = interrupt_callbacks s"
  by (simp_all add: kernel_page_def kernel_registers_def Let_def)

lemma task_page_simps [simp]:
  "km (snd (task_page s)) = km s" "current_task (snd (task_page s)) = current_task s"
  "data_selector (snd (task_page s)) = 0x23" "kheap (snd (task_page s)) = kheap s"
  "cr3 (cpu (snd (task_page s))) = get_page_directory_entry (tk_page_directory (task_at (km s) (current_task s))) (km s)"
  by (simp_all add: task_page_def task_switch_def user_registers_def Let_def page_switch_def paging_load_directory_def)

text \<open>What a system call finds: the registers of the frame in the task, the kernel's page directory loaded.\<close>

definition syscall_state :: "interrupt_frame \<Rightarrow> 'a system_scheme \<Rightarrow> 'a system_scheme" where
  "syscall_state frame s = (kernel_page s)\<lparr>km := task_save_state (current_task s) frame (km s)\<rparr>"

lemma syscall_state_simps [simp]:
  "km (syscall_state frame s) = task_save_state (current_task s) frame (km s)"
  "current_task (syscall_state frame s) = current_task s" "kheap (syscall_state frame s) = kheap s"
  "isr80h_commnads (syscall_state frame s) = isr80h_commnads s"
  by (simp_all add: syscall_state_def)

lemma isr80h_handler_run:
  assumes "current_task s \<noteq> 0" and "isr80h_handle_command env command (syscall_state frame s) = Some (Returned res s')"
  shows "isr80h_handler env command frame s = Some (Returned res (snd (task_page s')))"
  using assms by (simp add: isr80h_handler_def task_current_save_state_def task_current_def syscall_state_def)

lemma saved_esp: "rg_esp (registers_at (task_save_state t frame m) (t + 4)) = if_esp frame"
  by (simp add: registers_at_def task_save_state_def Let_def mem_simps add.assoc)

text \<open>The system call 0 returns to the program the sum of the two words on top of its stack, as its page directory
  shows them; the kernel stores nothing but its registers, and the program's page directory and data segment
  are loaded again.\<close>

lemma syscall_sum:
  assumes "current_task s \<noteq> 0" and "isr80h_commnads s ! 0 = Some Command0_sum"
    and m: "m = task_save_state (current_task s) frame (km s)"
    and dir: "dir = get_page_directory_entry (tk_page_directory (task_at m (current_task s))) m"
  shows "\<exists>s'. isr80h_handler env 0 frame s
      = Some (Returned (load32 (seen dir m) (if_esp frame) + load32 (seen dir m) (if_esp frame + 4)) s')
    \<and> km s' = m \<and> cr3 (cpu s') = dir \<and> data_selector s' = 0x23"
proof -
  let ?s = "syscall_state frame s"
  obtain v2 s2 where i2: "task_get_stack_item (current_task ?s) 1 ?s = (v2, s2)" by force
  note k2 = stack_item_current [OF i2]
  obtain v1 s1 where i1: "task_get_stack_item (current_task s2) 0 s2 = (v1, s1)" by force
  note k1 = stack_item_current [OF i1]
  have "isr80h_handle_command env 0 ?s = Some (Returned (v1 + v2) s1)"
    using assms(2) i1 i2 by (simp add: isr80h_handle_command_def isr80h_run_def isr80h_command0_sum_def task_current_def)
  from isr80h_handler_run [OF assms(1) this] show ?thesis
    using k1 k2 by (simp add: m dir saved_esp)
qed

lemma register_loop:
  assumes "int n + int (length cs) \<le> 1024" and "length (isr80h_commnads s) = 1024"
    and "\<And>i. n \<le> i \<Longrightarrow> i < 1024 \<Longrightarrow> isr80h_commnads s ! i = None"
  shows "\<exists>s'. isr80h_register_loop cs (int n) s = Returned () s' \<and> length (isr80h_commnads s') = 1024
    \<and> s' = s\<lparr>isr80h_commnads := isr80h_commnads s'\<rparr>
    \<and> (\<forall>i<1024. isr80h_commnads s' ! i = (if n \<le> i \<and> i < n + length cs then Some (cs ! (i - n)) else isr80h_commnads s ! i))"
  using assms
proof (induction cs arbitrary: n s)
  case Nil
  then show ?case by simp
next
  case (Cons c cs)
  let ?s = "s\<lparr>isr80h_commnads := (isr80h_commnads s)[n := Some c]\<rparr>"
  have r: "isr80h_register_command (int n) (Some c) s = Returned () ?s"
    using Cons.prems by (simp add: isr80h_register_command_def)
  have "\<exists>s'. isr80h_register_loop cs (int (n + 1)) ?s = Returned () s' \<and> length (isr80h_commnads s') = 1024
    \<and> s' = ?s\<lparr>isr80h_commnads := isr80h_commnads s'\<rparr>
    \<and> (\<forall>i<1024. isr80h_commnads s' ! i = (if n + 1 \<le> i \<and> i < n + 1 + length cs then Some (cs ! (i - (n + 1))) else isr80h_commnads ?s ! i))"
    using Cons.prems by (intro Cons.IH) simp_all
  then obtain s' where s': "isr80h_register_loop cs (int (n + 1)) ?s = Returned () s'" "length (isr80h_commnads s') = 1024"
    "s' = ?s\<lparr>isr80h_commnads := isr80h_commnads s'\<rparr>" "\<And>i. i < 1024 \<Longrightarrow> isr80h_commnads s' ! i
      = (if n + 1 \<le> i \<and> i < n + 1 + length cs then Some (cs ! (i - (n + 1))) else isr80h_commnads ?s ! i)"
    by blast
  have "isr80h_commnads s' ! i = (if n \<le> i \<and> i < n + length (c # cs) then Some ((c # cs) ! (i - n)) else isr80h_commnads s ! i)"
    if "i < 1024" for i
    using s'(4) [OF that] Cons.prems(1,2) that by (cases "i = n") (auto simp: nth_Cons' nth_list_update)
  moreover have "s' = s\<lparr>isr80h_commnads := isr80h_commnads s'\<rparr>" by (subst s'(3)) simp
  ultimately show ?case using s'(1,2) r by (auto simp: add.commute)
qed

text \<open>C26. After \<^verbatim>\<open>isr80h_register_commands\<close> the system calls are those of the enumeration in \<^verbatim>\<open>isr80h.h\<close>: 0 is the
  sum, 1 print, 2 getkey, 3 putchar, 4 malloc, 5 free, 6 process\_load\_start, 7 invoke\_system\_command, 8
  get\_program\_arguments and 9 exit; any other number, negative ones included, gives null and changes nothing. Of the
  state only the table of commands was written.\<close>

theorem syscall_dispatch:
  assumes "isr80h_commnads s = replicate LIEBE_OS_ISR80H_MAX_COMMANDS None"
  shows "\<exists>s'. isr80h_register_commands s = Returned () s' \<and> s' = s\<lparr>isr80h_commnads := isr80h_commnads s'\<rparr>
    \<and> isr80h_handle_command env 0 s' = Some (case_prod Returned (isr80h_command0_sum s'))
    \<and> isr80h_handle_command env 1 s' = map_option (case_prod Returned) (isr80h_command1_print env s')
    \<and> isr80h_handle_command env 2 s' = Some (case_prod Returned (isr80h_command2_getkey s'))
    \<and> isr80h_handle_command env 3 s' = Some (case_prod Returned (isr80h_commad3_putchar s'))
    \<and> isr80h_handle_command env 4 s' = Some (case_prod Returned (isr80h_command4_malloc s'))
    \<and> isr80h_handle_command env 5 s' = Some (case_prod Returned (isr80h_command5_free s'))
    \<and> isr80h_handle_command env 6 s' = isr80h_command6_process_load_start env s'
    \<and> isr80h_handle_command env 7 s' = isr80h_command7_invoke_system_command env s'
    \<and> isr80h_handle_command env 8 s' = Some (case_prod Returned (isr80h_command8_get_program_arguments s'))
    \<and> isr80h_handle_command env 9 s' = Some (isr80h_command9_exit s')
    \<and> (\<forall>c. c < 0 \<or> 9 < c \<longrightarrow> isr80h_handle_command env c s' = Some (Returned 0 s'))"
proof -
  have l: "length isr80h_commands = 10" by (simp add: isr80h_commands_def)
  obtain s' where s': "isr80h_register_commands s = Returned () s'" "s' = s\<lparr>isr80h_commnads := isr80h_commnads s'\<rparr>"
    "\<And>i. i < 1024 \<Longrightarrow> isr80h_commnads s' ! i = (if i < 10 then Some (isr80h_commands ! i) else None)"
    using register_loop [of 0 isr80h_commands s] assms by (auto simp: isr80h_register_commands_def l)
  have run: "isr80h_handle_command env (int i) s' = isr80h_run env (isr80h_commands ! i) s'" if "i < 10" for i
    using s'(3) [of i] that by (simp add: isr80h_handle_command_def)
  have none: "isr80h_handle_command env c s' = Some (Returned 0 s')" if "c < 0 \<or> 9 < c" for c
    using s'(3) [of "nat c"] that by (auto simp: isr80h_handle_command_def)
  show ?thesis
    using s'(1,2) none run [of 0] run [of 1] run [of 2] run [of 3] run [of 4] run [of 5] run [of 6] run [of 7] run [of 8] run [of 9]
    by (intro exI [of _ s']) (simp add: isr80h_commands_def isr80h_run_def)
qed

section \<open>An example\<close>

text \<open>The task at \<^verbatim>\<open>0x2000\<close> with a page directory at \<^verbatim>\<open>0x10000\<close> that maps the page of its stack to \<^verbatim>\<open>0x30000\<close>.\<close>

abbreviation (input) example_tables :: mem where
  "example_tables \<equiv> store32 (store32 (store32 (store32 (store32 (store32 (\<lambda>_. 0) 0x2000 0x6000) 0x6000 0x10000)
     0x10000 0x11007) 0x11FF8 0x30007) 0x30FF0 20) 0x30FF4 22"

abbreviation (input) example_frame :: interrupt_frame where
  "example_frame \<equiv> \<lparr>if_edi = 1, if_esi = 2, if_ebp = 3, if_reserved = 0, if_ebx = 4, if_edx = 5, if_ecx = 6, if_eax = 0,
     if_ip = 0x400010, if_cs = 0x1b, if_flags = 0x202, if_esp = 0x3FEFF0, if_ss = 0x23\<rparr>"

definition syscall_system :: system where
  "syscall_system = keyboard_system\<lparr>km := example_tables, isr80h_commnads := replicate 1024 None\<rparr>"

lemma syscall_system_simps [simp]:
  "km syscall_system = example_tables" "current_task syscall_system = 0x2000"
  "isr80h_commnads syscall_system = replicate 1024 None"
  by (simp_all add: syscall_system_def keyboard_system_def example_system_def example_console_def console.defs system.defs
      kernel.defs example_kernel_def)

lemma task_save_state_load:
  assumes "disj_range t 64 a 4"
  shows "load32 (task_save_state t frame m) a = load32 m a"
proof (rule load32_cong)
  fix b assume "in_range a 4 b"
  then have n: "\<not> in_range t 64 b" by (rule disj_rangeD2 [OF assms])
  have o: "store32 m' (t + numeral k) v b = m' b" if "numeral k + 4 \<le> (64 :: nat)" for m' v k
    using store_fields_other [OF n that] by simp
  show "task_save_state t frame m b = m b" by (simp add: task_save_state_def Let_def o)
qed

lemma example_stack:
  assumes "load32 m 0x10000 = 0x11007" and "load32 m 0x11FF8 = 0x30007"
  shows "load32 (seen 0x10000 m) 0x3FEFF0 = load32 m 0x30FF0" "load32 (seen 0x10000 m) 0x3FEFF4 = load32 m 0x30FF4"
proof -
  have s: "seen 0x10000 m v = m (v - 0x3CE000)"
    if "v \<in> {0x3FEFF0, 0x3FEFF1, 0x3FEFF2, 0x3FEFF3, 0x3FEFF4, 0x3FEFF5, 0x3FEFF6, 0x3FEFF7}" for v
    using that by (auto simp: seen_def paging_get_physical_address_def paging_align_to_lower_page_def paging_get_def
      get_page_indexs_def is_page_aligned_def Let_def assms)
  show "load32 (seen 0x10000 m) 0x3FEFF0 = load32 m 0x30FF0" "load32 (seen 0x10000 m) 0x3FEFF4 = load32 m 0x30FF4"
    by (simp_all add: load32_def s)
qed

theorem syscall_dispatch_witness:
  "\<exists>s'. isr80h_register_commands syscall_system = Returned () s'
     \<and> (\<forall>env. isr80h_handle_command env 10 s' = Some (Returned 0 s') \<and> isr80h_handle_command env 9 s' = Some (isr80h_command9_exit s')
          \<and> isr80h_handle_command env 4 s' = Some (case_prod Returned (isr80h_command4_malloc s')))"
proof -
  obtain s' where r: "isr80h_register_commands syscall_system = Returned () s'" by (rule exE [OF syscall_dispatch [of syscall_system]]) auto
  then show ?thesis using syscall_dispatch [of syscall_system] by auto
qed

end
