(* ===== verification/SyscallMem.thy ===== *)
theory SyscallMem
  imports Isr80h
begin

text \<open>
  The system call for memory from end to end: the interrupt, the registers saved in the task, the argument read
  through the page directory of the process, the heap, the page tables and the table of the process, and the way back.
\<close>

section \<open>Saving registers\<close>

lemma heap_fits_cong:
  assumes "wf_heap h" and "\<And>a. in_range (hp_entries h) (hp_total h) a \<Longrightarrow> m' a = m a"
  shows "heap_fits h m' n \<longleftrightarrow> heap_fits h m n"
proof -
  have "taken h m' i = taken h m i" if "i < hp_total h" for i
    using assms(2) in_range_of_nat [OF that] hp_total_bound [OF assms(1)] by (simp add: taken_def blk_def)
  then have "free_run h m' s k \<longleftrightarrow> free_run h m s k" for s k by (auto simp: free_run_def)
  then show ?thesis by (simp add: heap_fits_def)
qed

lemma task_save_state_other: "\<not> in_range t 64 a \<Longrightarrow> task_save_state t frame m a = m a"
proof -
  assume n: "\<not> in_range t 64 a"
  have o: "store32 m' (t + numeral k) v a = m' a" if "numeral k + 4 \<le> (64 :: nat)" for m' v k
    using store_fields_other [OF n that] by simp
  show ?thesis by (simp add: task_save_state_def Let_def o)
qed

lemma task_save_state_fields:
  "load32 (task_save_state t frame m) t = load32 m t" "load32 (task_save_state t frame m) (t + 52) = load32 m (t + 52)"
  by (simp_all add: task_save_state_def Let_def mem_simps)

text \<open>The registers of the task lie in blocks of the kernel but not in the process, so all of the process is as before.\<close>

lemma process_mem_save:
  fixes frame :: interrupt_frame
  assumes p: "process_mem h m A process ob db bs"
  defines "m' \<equiv> task_save_state (ps_task (process_at m process)) frame m"
  shows "process_mem h m' A process ob db bs" and "avail h m' = avail h m" and "heap_fits h m' n \<longleftrightarrow> heap_fits h m n"
    and "\<And>a. in_range process 9364 a \<Longrightarrow> m' a = m a"
    and "is_page_aligned v \<Longrightarrow> paging_get (block_addr h db) v m' = paging_get (block_addr h db) v m"
    and "table_words h f m bs \<Longrightarrow> table_words h f m' bs"
proof -
  let ?t = "ps_task (process_at m process)"
  note d = process_memD [OF p]
  have task: "owned_byte (block_addr h) A a" if "in_range ?t 64 a" for a using p that by (simp add: process_mem_def)
  have dj: "disj_range process 9364 ?t 64" using p by (simp add: process_mem_def)
  have w: "m' a = m a" if "\<not> owned_byte (block_addr h) A a" for a
    using task that unfolding m'_def by (blast intro: task_save_state_other)
  show same: "m' a = m a" if "in_range process 9364 a" for a
    unfolding m'_def by (rule task_save_state_other [OF disj_rangeD [OF dj that]])
  show "avail h m' = avail h m" by (rule pgd_at_owned_write(2) [OF d(1)]) (rule w)
  show "table_words h f m bs \<Longrightarrow> table_words h f m' bs" by (rule pgd_at_owned_write(3) [OF d(1)]) (rule w)
  show "is_page_aligned v \<Longrightarrow> paging_get (block_addr h db) v m' = paging_get (block_addr h db) v m"
    by (rule pgd_get_owned_write [OF d(1)]) (rule w)
  have wr: "pgd_at h m' A ob db bs" by (rule pgd_at_owned_write(1) [OF d(1)]) (rule w)
  show "heap_fits h m' n \<longleftrightarrow> heap_fits h m n"
  proof (rule heap_fits_cong [OF d(2)])
    fix a assume a: "in_range (hp_entries h) (hp_total h) a"
    have "\<forall>b\<in>insert ob (insert db (set bs)). A b = None" using pgd_atD(6-8) [OF d(1)] by auto
    then have "\<not> owned_byte (block_addr h) A a"
      using owned_not_table [OF pgd_atD(1) [OF d(1)]] owned_byte_own_pages a by metis
    then show "m' a = m a" by (rule w)
  qed
  have "allocations_owned h m' A process"
    using d(7) process_fields_cong(2) [OF same] by (simp add: allocations_owned_def del: process_at_simps)
  then show "process_mem h m' A process ob db bs"
    using p wr process_fields_cong(1) [OF same] task_save_state_fields(1) [of ?t frame m]
    by (simp add: process_mem_def m'_def del: process_at_simps)
qed

lemma registers_at_cong:
  assumes "\<And>a. in_range t 64 a \<Longrightarrow> m' a = m a"
  shows "registers_at m' (t + 4) = registers_at m (t + 4)"
proof -
  have "load32 m' (t + of_nat k) = load32 m (t + of_nat k)" if "k + 4 \<le> 64" for k
    by (rule load32_cong) (use assms in_range_suffix(1) [of k 4 64 t] that in simp)
  from this [of 4] this [of 8] this [of 12] this [of 16] this [of 20] this [of 24] this [of 28] this [of 32] this [of 36]
    this [of 40] this [of 44] this [of 48]
  show ?thesis by (simp add: registers_at_def add.assoc)
qed

section \<open>The system call\<close>

text \<open>A run that the page directory maps at its own addresses is read as it is in memory.\<close>

lemma seen_run:
  assumes p: "is_page_aligned p" and k: "4096 * k \<le> 4294967296"
    and get: "\<And>v. is_page_aligned v \<Longrightarrow> in_range p (4096 * k) v \<Longrightarrow> \<exists>f<4096. paging_get dir v m = v OR f"
    and a: "in_range p (4096 * k) a"
  shows "seen dir m a = m a"
proof -
  let ?v = "paging_align_to_lower_page a"
  obtain i where i: "i < 4096 * k" "a = p + of_nat i" using a by (rule in_range_exE)
  have "unat p mod 4096 = 0" using p by (simp add: is_page_aligned_unat)
  moreover have "unat a mod 4096 = (unat p + i) mod 4096" unfolding i(2) by (rule unat_add_mod_page)
  ultimately have m: "unat (a - ?v) = i mod 4096" by (simp add: lower_page_diff mod_add_left_eq [symmetric])
  have "?v = a - of_nat (unat (a - ?v))" by simp
  also have "\<dots> = p + of_nat (i - i mod 4096)" unfolding m by (simp add: i(2) of_nat_diff)
  finally have "in_range p (4096 * k) ?v" using in_range_of_nat [of "i - i mod 4096" "4096 * k" p] i(1) k by simp
  then obtain f where "f < 4096" "paging_get dir ?v m = ?v OR f" using get lower_page_aligned by blast
  then have "paging_get_physical_address dir a m = a" using physical_of_entry [OF lower_page_aligned] by simp
  then show ?thesis by (simp add: seen_def)
qed

lemma seen_zero:
  assumes h: "wf_heap h" "unat (hp_saddr h) + 4096 * hp_total h < 4294967296" and b: "b + blocks_for sz \<le> hp_total h"
    and get: "\<And>v. is_page_aligned v \<Longrightarrow> paging_get dir v m =
      (if in_range (block_addr h b) (4096 * blocks_for sz) v then v OR 7 else paging_get dir v m0)"
    and z: "\<And>a. in_range (block_addr h b) (unat sz) a \<Longrightarrow> m a = 0" and a: "in_range (block_addr h b) (unat sz) a"
  shows "seen dir m a = 0"
proof -
  have g: "\<exists>f<4096. paging_get dir v m = v OR f" if "is_page_aligned v" "in_range (block_addr h b) (4096 * blocks_for sz) v" for v
    using get [OF that(1)] that(2) by (intro exI [of _ 7]) simp
  have "4096 * blocks_for sz \<le> 4294967296" using b h(2) by simp
  then show ?thesis
    using seen_run [OF block_addr_aligned [OF h(1)] _ g in_range_mono [OF a blocks_for_bound]] z [OF a] by simp
qed

text \<open>What leaves all but the table alone leaves the task alone.\<close>

lemma task_frame:
  assumes p: "process_mem h m A process ob db bs"
    and kept: "\<And>a. owned_byte (block_addr h) A a \<Longrightarrow> \<not> in_range (process + 116) 8192 a \<Longrightarrow> m' a = m a"
  shows "ps_task (process_at m' process) = ps_task (process_at m process)"
    and "in_range (ps_task (process_at m process)) 64 a \<Longrightarrow> m' a = m a"
proof -
  show "ps_task (process_at m' process) = ps_task (process_at m process)"
    by (rule ps_task_frame) (use kept process_memD(5) [OF p] in simp)
  assume a: "in_range (ps_task (process_at m process)) 64 a"
  have "disj_range process 9364 (ps_task (process_at m process)) 64" using p by (simp add: process_mem_def)
  then have "\<not> in_range (process + 116) 8192 a"
    using disj_rangeD2 [OF _ a] in_range_suffix(1) [of 116 8192 9364 process a] by auto
  then show "m' a = m a" using kept p a by (simp add: process_mem_def)
qed

text \<open>With the page directory of a new task a program sees memory as it is.\<close>

lemma physical_identity:
  "(\<And>v. is_page_aligned v \<Longrightarrow> paging_get dir v m = v OR 5) \<Longrightarrow> paging_get_physical_address dir a m = a"
  using physical_of_entry [OF lower_page_aligned, of 5 dir a m a] by (simp add: lower_page_aligned)

lemma seen_identity: "(\<And>v. is_page_aligned v \<Longrightarrow> paging_get dir v m = v OR 5) \<Longrightarrow> seen dir m = m"
  using physical_identity [of dir m] by (simp add: seen_def)

text \<open>What every system call of a process with one argument finds.\<close>

lemma syscall_argument:
  fixes s :: "'a system_scheme"
  assumes p: "process_mem (kheap s) (km s) A process ob db bs" and t: "current_task s = ps_task (process_at (km s) process)"
    and m: "m = task_save_state (current_task s) frame (km s)"
  shows "process_mem (kheap s) m A process ob db bs" and "avail (kheap s) m = avail (kheap s) (km s)"
    and "heap_fits (kheap s) m n \<longleftrightarrow> heap_fits (kheap s) (km s) n"
    and "\<And>a. in_range process 9364 a \<Longrightarrow> m a = km s a"
    and "is_page_aligned v \<Longrightarrow> paging_get (block_addr (kheap s) db) v m = paging_get (block_addr (kheap s) db) v (km s)"
    and "ps_task (process_at m process) = current_task s"
    and "get_page_directory_entry (tk_page_directory (task_at m (current_task s))) m = block_addr (kheap s) db"
    and "task_get_stack_item (current_task s) 0 (syscall_state frame s) =
      (load32 (seen (block_addr (kheap s) db) m) (if_esp frame), kernel_page (syscall_state frame s))"
proof -
  have m': "m = task_save_state (ps_task (process_at (km s) process)) frame (km s)" using t m by simp
  note save = process_mem_save [OF p, where frame = frame, folded m']
  show "process_mem (kheap s) m A process ob db bs" "avail (kheap s) m = avail (kheap s) (km s)"
    "heap_fits (kheap s) m n \<longleftrightarrow> heap_fits (kheap s) (km s) n" "\<And>a. in_range process 9364 a \<Longrightarrow> m a = km s a"
    "is_page_aligned v \<Longrightarrow> paging_get (block_addr (kheap s) db) v m = paging_get (block_addr (kheap s) db) v (km s)"
    using save(1-5) by blast+
  show tk: "ps_task (process_at m process) = current_task s" using process_fields_cong(1) [OF save(4)] t by simp
  show dir: "get_page_directory_entry (tk_page_directory (task_at m (current_task s))) m = block_addr (kheap s) db"
    using process_memD(3) [OF save(1)] tk by (simp add: process_directory_def)
  obtain v s2 where item: "task_get_stack_item (current_task (syscall_state frame s)) 0 (syscall_state frame s) = (v, s2)" by force
  then show "task_get_stack_item (current_task s) 0 (syscall_state frame s) =
      (load32 (seen (block_addr (kheap s) db) m) (if_esp frame), kernel_page (syscall_state frame s))"
    using stack_item_current [OF item] dir m by (simp add: saved_esp)
qed

text \<open>C4. A process that makes the system call 4 with a size on its stack gets back the address of a fresh run of blocks:
  its page directory, which is loaded again, maps it for writing from user mode, the program reads zeros there, the
  run is recorded in the table of the process, no other page is mapped differently, and the registers that
  the program had are kept in its task.\<close>

theorem syscall_malloc:
  assumes "process_mem (kheap s) (km s) A process ob db bs"
    and "current_task s = ps_task (process_at (km s) process)" and "current_task s \<noteq> 0"
    and "tk_process (task_at (km s) (current_task s)) = process" and "isr80h_commnads s ! 4 = Some Command4_malloc"
    and "m = task_save_state (current_task s) frame (km s)" and "sz = load32 (seen (block_addr (kheap s) db) m) (if_esp frame)"
    and "heap_fits (kheap s) (km s) sz" and "allocation_index (km s) process 0 0 LIEBE_OS_MAX_PROGRAM_ALLOCATIONS = Some i"
  shows "\<exists>b p s'. isr80h_handler env 4 frame s = Some (Returned p s') \<and> p = block_addr (kheap s) b \<and> p \<noteq> 0 \<and> A b = None
    \<and> process_mem (kheap s) (km s') (A(b \<mapsto> blocks_for sz)) process ob db bs
    \<and> (\<forall>a. in_range p (unat sz) a \<longrightarrow> seen (cr3 (cpu s')) (km s') a = 0)
    \<and> (\<forall>v. is_page_aligned v \<longrightarrow> paging_get (cr3 (cpu s')) v (km s') =
         (if in_range p (4096 * blocks_for sz) v then v OR 7 else paging_get (block_addr (kheap s) db) v (km s)))
    \<and> ps_allocations (process_at (km s') process) i = \<lparr>al_ptr = p, al_size = sz\<rparr>
    \<and> cr3 (cpu s') = block_addr (kheap s) db \<and> data_selector s' = 0x23
    \<and> task_return (current_task s' + 4) esp flags (km s') = task_return (current_task s + 4) esp flags m"
proof -
  let ?h = "kheap s" and ?t = "current_task s" and ?s = "syscall_state frame s"
  note save = syscall_argument [OF assms(1,2,6)]
  note d = process_memD [OF save(1)] and tk = save(6) and item = save(8) [folded assms(7)]
  have pr: "tk_process (task_at m ?t) = process"
    using assms(4) task_save_state_fields(2) [of ?t frame "km s"] by (simp add: assms(6) task_at_def)
  define s2 where "s2 = kernel_page ?s"
  have s2: "s2 = kernel_page ?s" "kheap s2 = ?h" "km s2 = m" "current_task s2 = ?t" using assms(6) by (simp_all add: s2_def)
  have "allocation_index m process 0 0 1024 = Some i"
    using process_fields_cong(3) [OF save(4)] assms(9) by simp
  then have pre: "process_mem (kheap s2) (km s2) A process ob db bs" "heap_fits (kheap s2) (km s2) sz"
    "allocation_index (km s2) process 0 0 1024 = Some i" and i: "i < 1024"
    using save(1,3) assms(8) s2 allocation_index_Some [of m process 0 0 1024 i] by simp_all
  obtain b m' where r: "process_malloc process sz s2 = (block_addr (kheap s2) b, s2\<lparr>km := m'\<rparr>)" "A b = None"
    "block_addr (kheap s2) b \<noteq> 0" "b + blocks_for sz \<le> hp_total (kheap s2)"
    "process_mem (kheap s2) m' (A(b \<mapsto> blocks_for sz)) process ob db bs"
    "avail (kheap s2) m' + blocks_for sz = avail (kheap s2) (km s2)"
    "\<And>a. in_range (block_addr (kheap s2) b) (unat sz) a \<Longrightarrow> m' a = 0"
    "\<And>j. j < 1024 \<Longrightarrow> ps_allocations (process_at m' process) j =
       (if j = i then \<lparr>al_ptr = block_addr (kheap s2) b, al_size = sz\<rparr> else ps_allocations (process_at (km s2) process) j)"
    "\<And>v. is_page_aligned v \<Longrightarrow> paging_get (block_addr (kheap s2) db) v m' =
       (if in_range (block_addr (kheap s2) b) (4096 * blocks_for sz) v then v OR 7 else paging_get (block_addr (kheap s2) db) v (km s2))"
    "\<And>a. owned_byte (block_addr (kheap s2)) A a \<Longrightarrow> \<not> in_range (process + 116) 8192 a \<Longrightarrow> m' a = km s2 a"
    by (rule process_mallocE [OF pre]) (rule that; assumption)
  note r = r [unfolded s2(2,3)]
  let ?p = "block_addr ?h b" and ?s3 = "s2\<lparr>km := m'\<rparr>"
  have "isr80h_handle_command env 4 ?s = Some (Returned ?p ?s3)"
    using assms(5) item r(1) [unfolded s2(1)] pr s2(1) assms(6)
    by (simp add: isr80h_handle_command_def isr80h_run_def isr80h_command4_malloc_def task_current_def)
  note run = isr80h_handler_run [OF assms(3) this]
  have kept: "m' a = m a" if "owned_byte (block_addr ?h) A a" "\<not> in_range (process + 116) 8192 a" for a using r(10) that .
  have tk': "ps_task (process_at m' process) = ?t" using task_frame(1) [OF save(1) kept] tk by simp
  have cr3: "get_page_directory_entry (tk_page_directory (task_at m' ?t)) m' = block_addr ?h db"
    using process_memD(3) [OF r(5)] tk' by (simp add: process_directory_def)
  have task: "m' a = m a" if "in_range ?t 64 a" for a using task_frame(2) [OF save(1) kept] tk that by simp
  have zero: "seen (block_addr ?h db) m' a = 0" if "in_range ?p (unat sz) a" for a
    by (rule seen_zero [OF d(2,4) r(4,9,7) that])
  show ?thesis
    using run r(2,3,5,9) r(8) [OF i] zero cr3 s2(1) save(5) registers_at_cong [OF task]
    by (intro exI [of _ b] exI [of _ ?p] exI [of _ "snd (task_page ?s3)"])
      (simp add: s2(4) task_return_def cong: if_cong)
qed

text \<open>The process of the other examples asks for 100 bytes; the size lies where its task keeps \<^verbatim>\<open>eax\<close>.\<close>

definition malloc_system :: system where
  "malloc_system = keyboard_system\<lparr>km := km started_kernel, kheap := kernel_heap,
     current_task := ps_task (process_at (km started_kernel) (fst lone_process)),
     isr80h_commnads := replicate 1024 (Some Command4_malloc)\<rparr>"

definition malloc_frame :: interrupt_frame where
  "malloc_frame = example_frame\<lparr>if_eax := 100, if_esp := current_task malloc_system + 28\<rparr>"

theorem syscall_malloc_witness:
  "\<forall>env. \<exists>p s'. isr80h_handler env 4 malloc_frame malloc_system = Some (Returned p s') \<and> p \<noteq> 0
     \<and> (\<forall>a. in_range p 100 a \<longrightarrow> seen (cr3 (cpu s')) (km s') a = 0)"
proof (intro allI, rule started_kernel_mem)
  fix env A ob db bs
  let ?s = malloc_system and ?p = "fst lone_process" and ?t = "current_task malloc_system"
  let ?m = "task_save_state ?t malloc_frame (km ?s)"
  assume a: "process_mem (kheap started_kernel) (km started_kernel) A ?p ob db bs"
    "0 < avail (kheap started_kernel) (km started_kernel)" "allocation_index (km started_kernel) ?p 0 0 1024 = Some 0"
    "kheap started_kernel = kernel_heap" "table_words kernel_heap 5 (km started_kernel) bs"
    "ps_task (process_at (km started_kernel) ?p) \<noteq> 0"
    "load32 (km started_kernel) (ps_task (process_at (km started_kernel) ?p) + 52) = ?p"
  have s: "km ?s = km started_kernel" "kheap ?s = kernel_heap" "?t = ps_task (process_at (km ?s) ?p)"
    "isr80h_commnads ?s ! 4 = Some Command4_malloc"
    by (simp_all add: malloc_system_def del: process_at_simps)
  have mem: "process_mem (kheap ?s) (km ?s) A ?p ob db bs" using a(1,4) s(1,2) by simp
  note save = process_mem_save [OF mem, where frame = malloc_frame, folded s(3)]
  have tw: "table_words kernel_heap 5 ?m bs" using save(6) a(5) s(1,2) by simp
  have "paging_get (block_addr kernel_heap db) v ?m = v OR 5" if "is_page_aligned v" for v
    using table_words_get [OF _ tw that] process_memD(1) [OF save(1)] s(2) by simp
  then have id: "seen (block_addr kernel_heap db) ?m = ?m" by (rule seen_identity)
  have "load32 ?m (?t + 28) = 100"
    by (simp add: task_save_state_def malloc_frame_def Let_def mem_simps)
  then have sz: "100 = load32 (seen (block_addr (kheap ?s) db) ?m) (if_esp malloc_frame)"
    by (simp add: id s(2)) (simp add: malloc_frame_def)
  have f: "heap_fits (kheap ?s) (km ?s) 100"
    using kz.avail_fits [OF pgd_atD(1) [OF process_memD(1) [OF mem]], of 100] a(2,4) s(1,2) by simp
  have tk: "?t \<noteq> 0" "tk_process (task_at (km ?s) ?t) = ?p"
    using a(6,7) s(1,3) by (simp_all add: task_at_def del: process_at_simps)
  show "\<exists>p s'. isr80h_handler env 4 malloc_frame ?s = Some (Returned p s') \<and> p \<noteq> 0
      \<and> (\<forall>a. in_range p 100 a \<longrightarrow> seen (cr3 (cpu s')) (km s') a = 0)"
    using syscall_malloc [OF mem s(3) tk s(4) refl sz f, where i = 0 and env = env and esp = 0 and flags = 0] a(3) s(1)
    by auto
qed

end
