(* ===== verification/PathProps.thy ===== *)
theory PathProps
  imports PathParser
begin

text \<open>
  What the path parser makes of a path: the list of its parts, in heap blocks of its own, which
  \<^verbatim>\<open>pathparser_free\<close> gives back. The path itself may lie anywhere but in the table of the heap and in blocks
  that are free.
\<close>

section \<open>Bytes that the heap leaves alone\<close>

definition kept_byte :: "heap \<Rightarrow> (nat \<rightharpoonup> nat) \<Rightarrow> ptr \<Rightarrow> bool" where
  "kept_byte h A a \<longleftrightarrow> owned_byte (block_addr h) A a
     \<or> \<not> in_range (hp_entries h) (hp_total h) a \<and> \<not> in_range (hp_saddr h) (4096 * hp_total h) a"

lemma owned_in_heap:
  assumes "heap_rep h m A" and "A b = Some k" and "in_range (block_addr h b) (4096 * k) a"
  shows "in_range (hp_saddr h) (4096 * hp_total h) a"
proof -
  have "b + k \<le> hp_total h" using heap_repD(3) [OF assms(1,2)] .
  then have "unat (a - hp_saddr h) div 4096 < hp_total h"
    using in_run [OF heap_repD(1) [OF assms(1)], of b k a] assms(3) by auto
  then show ?thesis unfolding in_range_def by (simp add: div_less_iff_less_mult mult.commute)
qed

lemma kept_byte_upd: "A b = None \<Longrightarrow> kept_byte h A a \<Longrightarrow> kept_byte h (A(b \<mapsto> k)) a"
  unfolding kept_byte_def using hp.owned_byte_upd by blast

lemma kzalloc_keptE:
  assumes rep: "heap_rep h m A" and av: "0 < avail h m" and n: "0 < unat n" "unat n \<le> 4096"
  obtains b where "fst (kzalloc h n m) = block_addr h b" "A b = None" "block_addr h b \<noteq> 0"
    "heap_rep h (snd (kzalloc h n m)) (A(b \<mapsto> 1))" "Suc (avail h (snd (kzalloc h n m))) = avail h m"
    "\<And>a. kept_byte h A a \<Longrightarrow> snd (kzalloc h n m) a = m a"
    "\<And>a. kept_byte h A a \<Longrightarrow> \<not> in_range (block_addr h b) 4096 a"
    "\<And>a. in_range (block_addr h b) (unat n) a \<Longrightarrow> snd (kzalloc h n m) a = 0"
proof -
  have f: "heap_fits h m n" by (rule kz.avail_fits [OF rep av n])
  obtain b where b: "fst (kzalloc h n m) = block_addr h b" "A b = None" "block_addr h b \<noteq> 0"
    "\<And>b' k'. A b' = Some k' \<Longrightarrow> disj_range (block_addr h b) 4096 (block_addr h b') (4096 * k')"
    "heap_rep h (snd (kzalloc h n m)) (A(b \<mapsto> 1))" "Suc (avail h (snd (kzalloc h n m))) = avail h m"
    "\<And>a. owned_byte (block_addr h) A a \<Longrightarrow> snd (kzalloc h n m) a = m a"
    "\<And>a. in_range (block_addr h b) (unat n) a \<Longrightarrow> snd (kzalloc h n m) a = 0"
    using kz.alloc_page [OF rep av n] by blast
  have out: "\<not> in_range (block_addr h b) 4096 a" if "kept_byte h A a" for a
    using that owned_in_heap [OF b(5), of b 1 a] disj_rangeD2 [OF b(4)] by (auto simp: kept_byte_def owned_byte_def)
  have keep: "snd (kzalloc h n m) a = m a" if "kept_byte h A a" for a
  proof (cases "owned_byte (block_addr h) A a")
    case True
    then show ?thesis by (rule b(7))
  next
    case False
    then have "\<not> in_range (hp_entries h) (hp_total h) a" using that by (simp add: kept_byte_def)
    then have "snd (heap_malloc h n m) a = m a" using malloc_fresh_run [OF rep f] by metis
    moreover have "\<not> in_range (block_addr h b) (unat n) a" using out [OF that] in_range_mono n(2) by blast
    ultimately show ?thesis using kzalloc_eq [OF rep f] b(1) by simp
  qed
  show thesis by (rule that [OF b(1-3,5,6) keep out b(8)])
qed

section \<open>The parts of a path\<close>

text \<open>The reference: the parts are what the slashes separate; a slash at the end opens no part.\<close>

function path_parts :: "u8 list \<Rightarrow> u8 list list" where
  "path_parts t = (if t = [] then [] else takeWhile (\<lambda>c. c \<noteq> 47) t # path_parts (tl (dropWhile (\<lambda>c. c \<noteq> 47) t)))"
  by pat_completeness auto
termination
proof (relation "measure length")
  fix t :: "u8 list" assume "t \<noteq> []"
  then have "length (tl (dropWhile (\<lambda>c. c \<noteq> 47) t)) < length t"
    using length_dropWhile_le [of "\<lambda>c. c \<noteq> 47" t] by (cases t) (auto simp: less_Suc_eq_le intro: le_trans)
  then show "(tl (dropWhile (\<lambda>c. c \<noteq> 47) t), t) \<in> measure length" by simp
qed simp

declare path_parts.simps [simp del]

lemma path_parts_Nil [simp]: "path_parts [] = []"
  by (simp add: path_parts.simps)

fun join_path :: "u8 list list \<Rightarrow> u8 list" where
  "join_path [] = []"
| "join_path [x] = x"
| "join_path (x # xs) = x @ 47 # join_path xs"

lemma path_parts_join: "\<forall>x\<in>set xs. x \<noteq> [] \<and> 47 \<notin> set x \<Longrightarrow> path_parts (join_path xs) = xs"
proof (induction xs rule: join_path.induct)
  case (2 x)
  then have eq: "takeWhile (\<lambda>c. c \<noteq> 47) x = x" "dropWhile (\<lambda>c. c \<noteq> 47) x = []" by auto
  show ?case using 2 by (simp add: path_parts.simps [of x] eq)
next
  case (3 x y zs)
  then have "\<forall>c\<in>set x. c \<noteq> 47" by auto
  then show ?case using 3 by (simp add: path_parts.simps [of "x @ _"] takeWhile_append dropWhile_append)
qed simp

text \<open>A list of parts in memory.\<close>

fun parts_at :: "mem \<Rightarrow> ptr \<Rightarrow> u8 list list \<Rightarrow> bool" where
  "parts_at m p [] \<longleftrightarrow> p = 0"
| "parts_at m p (x # xs) \<longleftrightarrow> p \<noteq> 0 \<and> cstr m (load32 m p) x \<and> parts_at m (load32 m (p + 4)) xs"

definition path_at :: "mem \<Rightarrow> ptr \<Rightarrow> int \<Rightarrow> u8 list list \<Rightarrow> bool" where
  "path_at m root drive parts \<longleftrightarrow> root \<noteq> 0 \<and> c_int (load32 m root) = drive \<and> parts_at m (load32 m (root + 4)) parts"

text \<open>The same list with the blocks that it takes, two for a part.\<close>

fun nodes_at :: "heap \<Rightarrow> mem \<Rightarrow> ptr \<Rightarrow> (u8 list \<times> nat \<times> nat) list \<Rightarrow> bool" where
  "nodes_at h m p [] \<longleftrightarrow> p = 0"
| "nodes_at h m p ((x, s, b) # ns) \<longleftrightarrow> p = block_addr h b \<and> p \<noteq> 0 \<and> load32 m p = block_addr h s
     \<and> cstr m (block_addr h s) x \<and> length x < 108 \<and> nodes_at h m (load32 m (p + 4)) ns"

fun node_blocks :: "(u8 list \<times> nat \<times> nat) list \<Rightarrow> nat list" where
  "node_blocks [] = []"
| "node_blocks ((x, s, b) # ns) = s # b # node_blocks ns"

lemma length_node_blocks: "length (node_blocks ns) = 2 * length ns"
  by (induction ns rule: node_blocks.induct) auto

lemma nodes_at_parts: "nodes_at h m p ns \<Longrightarrow> parts_at m p (map fst ns)"
  by (induction ns arbitrary: p rule: node_blocks.induct) auto

lemma nodes_at_cong:
  "(\<And>b a. b \<in> set (node_blocks ns) \<Longrightarrow> in_range (block_addr h b) 4096 a \<Longrightarrow> m' a = m a) \<Longrightarrow> nodes_at h m p ns \<Longrightarrow>
    nodes_at h m' p ns"
proof (induction ns arbitrary: p rule: node_blocks.induct)
  case (2 x s b ns)
  have eq: "m' a = m a" if "in_range (block_addr h c) n a" "c = s \<or> c = b" "n \<le> 4096" for a c n
    using 2(2) [of c a] in_range_mono [OF that(1,3)] that(2) by auto
  have b: "load32 m' (block_addr h b) = load32 m (block_addr h b)" by (rule load32_cong) (simp add: eq)
  have b4: "load32 m' (block_addr h b + 4) = load32 m (block_addr h b + 4)"
  proof (rule load32_cong)
    fix a assume a: "in_range (block_addr h b + 4) 4 a"
    have "in_range (block_addr h b) 4096 a" by (rule in_range_offset [OF _ _ a]) (simp_all add: in_range_def)
    then show "m' a = m a" by (simp add: eq)
  qed
  have "cstr m' (block_addr h s) x = cstr m (block_addr h s) x"
    by (rule cstr_cong) (use 2(3) in \<open>simp_all add: eq\<close>)
  then show ?case using 2 b b4 by auto
qed simp

text \<open>The blocks \<open>bs\<close> are taken beside what was owned.\<close>

definition own :: "(nat \<rightharpoonup> nat) \<Rightarrow> nat list \<Rightarrow> (nat \<rightharpoonup> nat)" where
  "own A bs = (\<lambda>b. if b \<in> set bs then Some 1 else A b)"

definition fresh_blocks :: "(nat \<rightharpoonup> nat) \<Rightarrow> nat list \<Rightarrow> bool" where
  "fresh_blocks A bs \<longleftrightarrow> distinct bs \<and> (\<forall>b\<in>set bs. A b = None)"

lemma own_Nil [simp]: "own A [] = A"
  by (simp add: own_def)

lemma own_upd: "own (A(b \<mapsto> 1)) bs = own A (b # bs)"
  by (auto simp: own_def fun_eq_iff)

lemma own_release: "fresh_blocks A (b # bs) \<Longrightarrow> (own A (b # bs))(b := None) = own A bs"
  by (auto simp: own_def fresh_blocks_def fun_eq_iff)

lemma fresh_blocks_upd: "A b = None \<Longrightarrow> fresh_blocks (A(b \<mapsto> k)) bs \<Longrightarrow> fresh_blocks A (b # bs)"
  by (auto simp: fresh_blocks_def split: if_splits)

lemma fresh_blocks_Cons: "fresh_blocks A (b # bs) \<Longrightarrow> fresh_blocks A bs"
  by (simp add: fresh_blocks_def)

section \<open>Parsing\<close>

lemma path_copy_run:
  assumes t: "cstr m p t" and out: "\<And>j. j \<le> length t \<Longrightarrow> \<not> in_range d (length x) (p + of_nat j)"
    and len: "length t < 4294967295" and i: "i \<le> length x" and x: "x = takeWhile (\<lambda>c. c \<noteq> 47) t"
  shows "path_copy_loop d (of_nat i) (p + of_nat i) (copied m d x i)
    = Some (p + of_nat (length x), copied m d x (length x))"
  using i
proof (induction "length x - i" arbitrary: i)
  have le: "length x \<le> length t" by (simp add: x length_takeWhile_le)
  have src: "copied m d x i (p + of_nat j) = m (p + of_nat j)" if "i \<le> length x" "j \<le> length t" for i j
    using out [OF that(2)] that(1) by (auto simp: copied_def in_range_def)
  {
    case 0
    then have i: "i = length x" by simp
    have "m (p + of_nat i) = 0 \<or> m (p + of_nat i) = 47"
    proof (cases "i = length t")
      case True
      then show ?thesis using cstr_end [OF t] by simp
    next
      case False
      then have "t ! i = 47" using nth_length_takeWhile [of "\<lambda>c. c \<noteq> 47" t] i x le by simp
      then show ?thesis using cstr_nth [OF t, of i] False i le by simp
    qed
    then show ?case using src [of i i] i le by (subst path_copy_loop.simps) auto
  next
    case (Suc n)
    have i: "i < length x" using Suc(2) by simp
    then have c: "t ! i = x ! i" "x ! i \<noteq> 47"
      using takeWhile_nth [of i "\<lambda>c. c \<noteq> 47" t] nth_mem [OF i] set_takeWhileD [of "x ! i" "\<lambda>c. c \<noteq> 47" t]
      by (simp_all add: x)
    have "copied m d x i (p + of_nat i) = x ! i" "x ! i \<noteq> 0"
      using cstr_nth [OF t, of i] src [of i i] i le c by simp_all
    moreover have "path_copy_loop d (of_nat (Suc i)) (p + of_nat (Suc i)) (copied m d x (Suc i))
        = Some (p + of_nat (length x), copied m d x (length x))"
      by (rule Suc(1)) (use Suc(2) i in auto)
    ultimately show ?case
      using c i le len copied_Suc [of i m d x] by (subst path_copy_loop.simps) (simp add: algebra_simps)
  }
qed

text \<open>One turn: the block of the string with the string in it, then the block of the part.\<close>

lemma path_part_run:
  assumes rep: "heap_rep h m A" and av: "2 \<le> avail h m" and t: "cstr m p t" "length t < 4294967295"
    and kept: "\<And>j. j \<le> length t \<Longrightarrow> kept_byte h A (p + of_nat j)"
    and x: "x = takeWhile (\<lambda>c. c \<noteq> 47) t" "length x < 108"
  obtains s b m1 m2 m3 where "kzalloc h 108 m = (block_addr h s, m1)"
    "path_copy_loop (block_addr h s) 0 p m1 = Some (p + of_nat (length x), m2)"
    "kzalloc h 8 m2 = (block_addr h b, m3)" "block_addr h b \<noteq> 0" "fresh_blocks A [s, b]"
    "heap_rep h m3 (own A [s, b])" "Suc (Suc (avail h m3)) = avail h m"
    "\<And>a. kept_byte h A a \<Longrightarrow> m3 a = m a"
    "\<And>a. kept_byte h A a \<or> in_range (block_addr h s) 4096 a \<Longrightarrow> \<not> in_range (block_addr h b) 4096 a"
    "cstr m3 (block_addr h s) x"
proof -
  obtain s where s: "fst (kzalloc h 108 m) = block_addr h s" "A s = None" "block_addr h s \<noteq> 0"
    "heap_rep h (snd (kzalloc h 108 m)) (A(s \<mapsto> 1))" "Suc (avail h (snd (kzalloc h 108 m))) = avail h m"
    "\<And>a. kept_byte h A a \<Longrightarrow> snd (kzalloc h 108 m) a = m a"
    "\<And>a. kept_byte h A a \<Longrightarrow> \<not> in_range (block_addr h s) 4096 a"
    "\<And>a. in_range (block_addr h s) 108 a \<Longrightarrow> snd (kzalloc h 108 m) a = 0"
    using kzalloc_keptE [OF rep, of 108] av by auto
  let ?d = "block_addr h s" and ?m1 = "snd (kzalloc h 108 m)"
  let ?m2 = "copied ?m1 ?d x (length x)"
  have out: "\<not> in_range ?d (length x) a" if "kept_byte h A a" for a
    using s(7) [OF that] in_range_mono [of ?d "length x" a 4096] x(2) by auto
  have t1: "cstr ?m1 p t"
    by (rule cstr_cong [THEN iffD1, OF _ t(2,1)]) (use s(6) kept in \<open>auto elim!: in_range_exE simp: less_Suc_eq_le\<close>)
  have copy: "path_copy_loop ?d 0 p ?m1 = Some (p + of_nat (length x), ?m2)"
    using path_copy_run [OF t1 _ t(2) _ x(1), of ?d 0] out kept by (simp add: copied_def)
  have own_s: "owned_byte (block_addr h) (A(s \<mapsto> 1)) a" if "in_range ?d 4096 a" for a
    by (rule owned_byteI [of _ s 1]) (use that in simp_all)
  have same: "?m2 a = ?m1 a" if "\<not> in_range ?d (length x) a" for a using that by (simp add: copied_def in_range_def)
  have w: "?m2 a = ?m1 a" if "\<not> owned_byte (block_addr h) (A(s \<mapsto> 1)) a" for a
    using same own_s that in_range_mono [of ?d "length x" a 4096] x(2) by fastforce
  have n8: "0 < unat (8 :: u32)" "unat (8 :: u32) \<le> 4096" by simp_all
  have rep2: "heap_rep h ?m2 (A(s \<mapsto> 1))" by (rule heap_rep_write [OF s(4)]) (rule w)
  have "avail h ?m2 = avail h ?m1" by (rule kz.avail_write [OF s(4)]) (rule w)
  then have av2: "0 < avail h ?m2" "Suc (avail h ?m2) = avail h m" using av s(5) by simp_all
  obtain b where b: "fst (kzalloc h 8 ?m2) = block_addr h b" "(A(s \<mapsto> 1)) b = None" "block_addr h b \<noteq> 0"
    "heap_rep h (snd (kzalloc h 8 ?m2)) (A(s \<mapsto> 1, b \<mapsto> 1))" "Suc (avail h (snd (kzalloc h 8 ?m2))) = avail h ?m2"
    "\<And>a. kept_byte h (A(s \<mapsto> 1)) a \<Longrightarrow> snd (kzalloc h 8 ?m2) a = ?m2 a"
    "\<And>a. kept_byte h (A(s \<mapsto> 1)) a \<Longrightarrow> \<not> in_range (block_addr h b) 4096 a"
    by (rule kzalloc_keptE [OF rep2 av2(1) n8]) (rule that; assumption)
  have keep: "kept_byte h (A(s \<mapsto> 1)) a" if "kept_byte h A a \<or> in_range ?d 4096 a" for a
    using that kept_byte_upd [where A = A and b = s, OF s(2)] own_s by (auto simp: kept_byte_def)
  have "cstr (snd (kzalloc h 8 ?m2)) ?d x"
  proof (rule cstrI)
    fix j assume j: "j < length x"
    then have u: "unat (of_nat j :: u32) = j" "in_range ?d 4096 (?d + of_nat j)"
      using x(2) by (auto intro: unat_of_nat_u32 in_range_of_nat)
    have "x ! j = t ! j" "j < length t"
      using j takeWhile_nth [of j "\<lambda>c. c \<noteq> 47" t] length_takeWhile_le [of "\<lambda>c. c \<noteq> 47" t] by (simp_all add: x(1))
    then show "snd (kzalloc h 8 ?m2) (?d + of_nat j) = x ! j \<and> x ! j \<noteq> 0"
      using b(6) keep u j cstr_nth [OF t(1), of j] by (simp add: copied_def)
  next
    have u: "unat (of_nat (length x) :: u32) = length x" "in_range ?d 108 (?d + of_nat (length x))"
      using x(2) by (auto intro: unat_of_nat_u32 in_range_of_nat)
    have "in_range ?d 4096 (?d + of_nat (length x))" using u(2) by (rule in_range_mono) simp
    then show "snd (kzalloc h 8 ?m2) (?d + of_nat (length x)) = 0" using b(6) keep u s(8) by (simp add: copied_def)
  qed
  moreover have "fresh_blocks A [s, b]" using s(2) b(2) by (auto simp: fresh_blocks_def split: if_splits)
  moreover have "own A [s, b] = A(s \<mapsto> 1, b \<mapsto> 1)" by (auto simp: own_def fun_eq_iff)
  moreover have "snd (kzalloc h 8 ?m2) a = m a" if "kept_byte h A a" for a
    using that b(6) keep same out s(6) by simp
  ultimately show thesis
    using that [of s ?m1 ?m2 b "snd (kzalloc h 8 ?m2)"] s b copy av2(2) keep by (simp add: prod_eq_iff)
qed

text \<open>Linking: the fields of the new part and the next field of the one before it.\<close>

lemma block_field_disj:
  assumes "heap_rep h m A" and "A b = Some k" and "A c = Some k'" and "b \<noteq> c" and "i + n \<le> 4096 * k" and "j + n' \<le> 4096 * k'"
    and "0 < n" and "0 < n'"
  shows "disj_range (block_addr h b + of_nat i) n (block_addr h c + of_nat j) n'"
proof -
  have k: "4096 * k \<le> 4294967296" "4096 * k' \<le> 4294967296"
    using heap_repD(3) [OF assms(1,2)] heap_repD(3) [OF assms(1,3)] heap_repD(1) [OF assms(1)] by (auto simp: wf_heap_def)
  have sub: "in_range p l a" if "in_range (p + of_nat i) n a" "i + n \<le> l" "0 < n" "l \<le> 4294967296" for p a i n l
    by (rule in_range_offset [OF in_range_of_nat _ that(1)]) (use that unat_of_nat_u32 [of i] in simp_all)
  show ?thesis
  proof (rule disj_rangeI)
    fix a assume a: "in_range (block_addr h b + of_nat i) n a" "in_range (block_addr h c + of_nat j) n' a"
    show False
      using disj_rangeD [OF heap_rep_disj [OF assms(1-4)] sub [OF a(1) assms(5,7) k(1)]] sub [OF a(2) assms(6,8) k(2)] by blast
  qed
qed

lemma path_link:
  fixes v :: u32
  assumes rep: "heap_rep h m A" and b: "A b = Some 1" "p = block_addr h b"
    and prv: "q \<noteq> 0 \<longrightarrow> A c = Some 1 \<and> q = block_addr h c \<and> c \<noteq> b"
  defines "m4 \<equiv> store32 (store32 m p v) (p + 4) 0"
  defines "m5 \<equiv> if q \<noteq> 0 then store32 m4 (q + 4) p else m4"
  shows "heap_rep h m5 A" and "avail h m5 = avail h m" and "load32 m5 p = v" and "load32 m5 (p + 4) = 0"
    and "q \<noteq> 0 \<Longrightarrow> load32 m5 (q + 4) = p"
    and "\<And>a. \<not> in_range p 8 a \<Longrightarrow> \<not> (q \<noteq> 0 \<and> in_range (q + 4) 4 a) \<Longrightarrow> m5 a = m a"
proof -
  note last = prv [rule_format]
  have part: "in_range p 8 a" if "in_range p 4 a \<or> in_range (p + 4) 4 a" for a
    using in_range_mono [of p 4 a 8] in_range_offset [of p 8 "p + 4" 4 a] that by (auto simp: in_range_def)
  show frame: "m5 a = m a" if "\<not> in_range p 8 a" "\<not> (q \<noteq> 0 \<and> in_range (q + 4) 4 a)" for a
  proof -
    have "\<not> in_range p 4 a" "\<not> in_range (p + 4) 4 a" using that part [of a] by blast+
    then show ?thesis using that by (auto simp: m5_def m4_def store32_other)
  qed
  have own: "owned_byte (block_addr h) A a" if "in_range p 8 a \<or> q \<noteq> 0 \<and> in_range (q + 4) 4 a" for a
  proof (cases "in_range p 8 a")
    case True
    then have "in_range p 4096 a" by (rule in_range_mono) simp
    then show ?thesis using b by (auto intro: owned_byteI)
  next
    case False
    then have q: "q \<noteq> 0" "in_range (q + 4) 4 a" using that by auto
    have "in_range q 4096 a" by (rule in_range_offset [OF _ _ q(2)]) (simp_all add: in_range_def)
    then show ?thesis using last [OF q(1)] by (auto intro: owned_byteI)
  qed
  have w: "m5 a = m a" if "\<not> owned_byte (block_addr h) A a" for a using own frame that by blast
  show "heap_rep h m5 A" by (rule heap_rep_write [OF rep]) (rule w)
  show "avail h m5 = avail h m" by (rule kz.avail_write [OF rep]) (rule w)
  show "q \<noteq> 0 \<Longrightarrow> load32 m5 (q + 4) = p" by (simp add: m5_def load32_store32)
  have d: "disj_range p 4 (q + 4) 4" "disj_range (p + 4) 4 (q + 4) 4" if "q \<noteq> 0"
    using block_field_disj [OF rep b(1), of c 1 0 4 4 4] block_field_disj [OF rep b(1), of c 1 4 4 4 4] last [OF that] b(2)
    by auto
  have "load32 m4 p = v" "load32 m4 (p + 4) = 0"
    by (simp_all add: m4_def load32_store32 load_store_field)
  then show "load32 m5 p = v" "load32 m5 (p + 4) = 0"
    using d by (simp_all add: m5_def load32_store32_disj disj_range_sym)
qed

lemma owned_byte_own: "fresh_blocks A bs \<Longrightarrow> owned_byte (block_addr h) A a \<Longrightarrow> owned_byte (block_addr h) (own A bs) a"
proof -
  assume "fresh_blocks A bs" and "owned_byte (block_addr h) A a"
  then obtain b k where "A b = Some k" "in_range (block_addr h b) (4096 * k) a" "b \<notin> set bs"
    unfolding owned_byte_def fresh_blocks_def by (metis option.distinct(1))
  then show ?thesis by (intro owned_byteI [of _ b k]) (simp_all add: own_def)
qed

lemma kept_byte_own: "fresh_blocks A bs \<Longrightarrow> kept_byte h A a \<Longrightarrow> kept_byte h (own A bs) a"
  using owned_byte_own by (auto simp: kept_byte_def)

lemma kept_byte_block: "A b = Some 1 \<Longrightarrow> in_range (block_addr h b) 4096 a \<Longrightarrow> kept_byte h A a"
  using owned_byteI [of A b 1 "block_addr h" a] by (simp add: kept_byte_def)

lemma fresh_blocks_append:
  "fresh_blocks A bs \<Longrightarrow> fresh_blocks (own A bs) cs \<Longrightarrow> fresh_blocks A (bs @ cs) \<and> own (own A bs) cs = own A (bs @ cs)"
  by (auto simp: fresh_blocks_def own_def fun_eq_iff split: if_splits)

text \<open>What is left of a path behind its first part.\<close>

lemma path_rest:
  assumes t: "cstr m p t" and x: "x = takeWhile (\<lambda>c. c \<noteq> 47) t"
    and r: "r = (if m (p + of_nat (length x)) = 47 then p + of_nat (length x) + 1 else p + of_nat (length x))"
  shows "cstr m r (tl (dropWhile (\<lambda>c. c \<noteq> 47) t))"
    and "\<exists>k. r = p + of_nat k \<and> k + length (tl (dropWhile (\<lambda>c. c \<noteq> 47) t)) = length t"
proof -
  obtain d where d_def: "d = dropWhile (\<lambda>c. c \<noteq> 47) t" by blast
  have split: "t = x @ d" by (simp add: x d_def)
  have d: "cstr m (p + of_nat (length x)) d" using t cstr_suffix [of m p x d] split by simp
  have len: "length t = length x + length d" using arg_cong [OF split, of length] by simp
  have "cstr m r (tl d) \<and> (\<exists>k. r = p + of_nat k \<and> k + length (tl d) = length t)"
  proof (cases d)
    case Nil
    then show ?thesis using d r len by (auto intro!: exI [of _ "length x"])
  next
    case (Cons c rest)
    then have "c = 47" using hd_dropWhile [of "\<lambda>c. c \<noteq> 47" t] by (simp add: d_def [symmetric])
    then show ?thesis using d r len Cons by (auto intro!: exI [of _ "Suc (length x)"] simp: add.assoc)
  qed
  then show "cstr m r (tl (dropWhile (\<lambda>c. c \<noteq> 47) t))"
      "\<exists>k. r = p + of_nat k \<and> k + length (tl (dropWhile (\<lambda>c. c \<noteq> 47) t)) = length t"
    by (simp_all add: d_def)
qed

text \<open>One turn up to the recursive call: the part \<open>b\<close> is in memory, linked to the one before it, and what is left of the
  path lies where the recursion goes on.\<close>

lemma path_turn:
  assumes rep: "heap_rep h m A" and t: "cstr m p t" "length t < 4294967295" "t \<noteq> []" and two: "2 \<le> avail h m"
    and len: "length (takeWhile (\<lambda>c. c \<noteq> 47) t) < 108"
    and kept: "\<And>j. j \<le> length t \<Longrightarrow> kept_byte h A (p + of_nat j) \<and> \<not> (q \<noteq> 0 \<and> in_range (q + 4) 4 (p + of_nat j))"
    and q: "q \<noteq> 0 \<longrightarrow> A c = Some 1 \<and> q = block_addr h c"
  obtains s b r m' k where "create_path_nodes h p q m = do { (_, m) \<leftarrow> create_path_nodes h r (block_addr h b) m'; Some (block_addr h b, m) }"
    "fresh_blocks A [s, b]" "block_addr h b \<noteq> 0" "heap_rep h m' (own A [s, b])" "avail h m' + 2 = avail h m"
    "load32 m' (block_addr h b) = block_addr h s" "load32 m' (block_addr h b + 4) = 0" "q \<noteq> 0 \<longrightarrow> load32 m' (q + 4) = block_addr h b"
    "cstr m' (block_addr h s) (takeWhile (\<lambda>c. c \<noteq> 47) t)" "cstr m' r (tl (dropWhile (\<lambda>c. c \<noteq> 47) t))"
    "r = p + of_nat k" "k + length (tl (dropWhile (\<lambda>c. c \<noteq> 47) t)) = length t"
    "\<And>a. kept_byte h A a \<or> in_range (block_addr h s) 4096 a \<Longrightarrow> \<not> in_range (block_addr h b) 4096 a"
    "\<And>a. kept_byte h A a \<Longrightarrow> \<not> (q \<noteq> 0 \<and> in_range (q + 4) 4 a) \<Longrightarrow> m' a = m a"
proof -
  let ?x = "takeWhile (\<lambda>c. c \<noteq> 47) t"
  have k1: "kept_byte h A (p + of_nat j)" if "j \<le> length t" for j using kept [OF that] by blast
  obtain s b m1 m2 m3 where n: "kzalloc h 108 m = (block_addr h s, m1)"
    "path_copy_loop (block_addr h s) 0 p m1 = Some (p + of_nat (length ?x), m2)"
    "kzalloc h 8 m2 = (block_addr h b, m3)" "block_addr h b \<noteq> 0" "fresh_blocks A [s, b]"
    "heap_rep h m3 (own A [s, b])" "Suc (Suc (avail h m3)) = avail h m" "\<And>a. kept_byte h A a \<Longrightarrow> m3 a = m a"
    "\<And>a. kept_byte h A a \<or> in_range (block_addr h s) 4096 a \<Longrightarrow> \<not> in_range (block_addr h b) 4096 a"
    "cstr m3 (block_addr h s) ?x"
    by (rule path_part_run [OF rep two t(1,2) _ refl len]) (rule k1, assumption, (rule that; assumption))
  let ?A = "own A [s, b]" and ?p = "block_addr h b"
  let ?m4 = "store32 (store32 m3 ?p (block_addr h s)) (?p + 4) 0"
  obtain m5 where m5_def: "m5 = (if q \<noteq> 0 then store32 ?m4 (q + 4) ?p else ?m4)" by blast
  obtain r where r_def: "r = (if m5 (p + of_nat (length ?x)) = 47 then p + of_nat (length ?x) + 1 else p + of_nat (length ?x))" by blast
  have Ab: "?A b = Some 1" "?A s = Some 1" "s \<noteq> b" "A s = None" "A b = None"
    using n(5) by (auto simp: own_def fresh_blocks_def)
  have Ac: "q \<noteq> 0 \<longrightarrow> ?A c = Some 1 \<and> q = block_addr h c \<and> c \<noteq> b"
  proof
    assume "q \<noteq> 0"
    then show "?A c = Some 1 \<and> q = block_addr h c \<and> c \<noteq> b" using q Ab(4,5) by (auto simp: own_def)
  qed
  note link = path_link [OF n(6) Ab(1) refl Ac, where v = "block_addr h s", folded m5_def]
  have part: "in_range ?p 4096 a" if "in_range ?p 8 a" for a using in_range_mono [OF that] by simp
  have m5: "m5 a = m a" if "kept_byte h A a" "\<not> (q \<noteq> 0 \<and> in_range (q + 4) 4 a)" for a
  proof -
    have "\<not> in_range ?p 8 a" using n(9) that(1) part by blast
    then show ?thesis using link(6) that(2) n(8) [OF that(1)] by simp
  qed
  have str: "m5 a = m3 a" if a: "in_range (block_addr h s) 4096 a" for a
  proof -
    have "\<not> in_range (q + 4) 4 a" if nz: "q \<noteq> 0"
    proof
      assume "in_range (q + 4) 4 a"
      then have "in_range q 4096 a" by (rule in_range_offset [rotated 2]) (simp_all add: in_range_def)
      moreover have "c \<noteq> s" using q nz Ab(4) by auto
      ultimately show False using heap_rep_disj [OF n(6) Ab(2), of c 1] mp [OF Ac nz] a disj_rangeD by auto
    qed
    then show ?thesis using link(6) part n(9) a by metis
  qed
  have "cstr m5 (block_addr h s) ?x"
    by (rule cstr_cong [THEN iffD1, OF _ _ n(10)]) (use str len in_range_mono in \<open>fastforce+\<close>)
  moreover have t5: "cstr m5 p t"
    by (rule cstr_cong [THEN iffD1, OF _ t(2,1)]) (use m5 kept in \<open>auto elim!: in_range_exE simp: less_Suc_eq_le\<close>)
  note rest = path_rest [OF t5 refl r_def]
  moreover obtain k where "r = p + of_nat k" "k + length (tl (dropWhile (\<lambda>c. c \<noteq> 47) t)) = length t" using rest(2) by blast
  moreover have nz: "m p \<noteq> 0" using t(1,3) by (cases t) auto
  have "create_path_nodes h p q m = do { (_, m) \<leftarrow> create_path_nodes h r ?p m5; Some (?p, m) }"
    using nz n(1-3)
    by (subst create_path_nodes.simps) (simp add: Let_def m5_def [symmetric] r_def [symmetric] split del: if_split)
  ultimately show thesis
    using that [of r b m5 s k] n(4,5,7,9) link(1-5) m5 by simp
qed

lemma create_path_nodes_run:
  assumes "heap_rep h m A" and "cstr m p t" and "length t < 4294967295" and "2 * length (path_parts t) \<le> avail h m"
    and "\<forall>x\<in>set (path_parts t). length x < 108"
    and "\<And>j. j \<le> length t \<Longrightarrow> kept_byte h A (p + of_nat j) \<and> \<not> (q \<noteq> 0 \<and> in_range (q + 4) 4 (p + of_nat j))"
    and "q \<noteq> 0 \<longrightarrow> A c = Some 1 \<and> q = block_addr h c"
  shows "\<exists>part m' ns. create_path_nodes h p q m = Some (part, m') \<and> map fst ns = path_parts t \<and> nodes_at h m' part ns
    \<and> fresh_blocks A (node_blocks ns) \<and> heap_rep h m' (own A (node_blocks ns)) \<and> avail h m' + 2 * length ns = avail h m
    \<and> (q \<noteq> 0 \<longrightarrow> load32 m' (q + 4) = (if t = [] then load32 m (q + 4) else part))
    \<and> (\<forall>a. kept_byte h A a \<longrightarrow> \<not> (q \<noteq> 0 \<and> in_range (q + 4) 4 a) \<longrightarrow> m' a = m a)"
  using assms
proof (induction t arbitrary: p q c m A rule: path_parts.induct)
  case (1 t)
  note rep = 1(2) and t = 1(3,4) and av = 1(5) and short = 1(6) and kept = 1(7) and q = 1(8)
  show ?case
  proof (cases "t = []")
    case True
    then show ?thesis using rep t(1) by (subst create_path_nodes.simps) (auto intro!: exI [of _ "[]"] simp: fresh_blocks_def)
  next
    case False
    let ?x = "takeWhile (\<lambda>c. c \<noteq> 47) t" and ?t = "tl (dropWhile (\<lambda>c. c \<noteq> 47) t)"
    have parts: "path_parts t = ?x # path_parts ?t" using False by (simp add: path_parts.simps [of t])
    have two: "2 \<le> avail h m" and len: "length ?x < 108" using av short by (simp_all add: parts)
    obtain s b r m5 k where n: "create_path_nodes h p q m = do { (_, m) \<leftarrow> create_path_nodes h r (block_addr h b) m5; Some (block_addr h b, m) }"
      "fresh_blocks A [s, b]" "block_addr h b \<noteq> 0" "heap_rep h m5 (own A [s, b])" "avail h m5 + 2 = avail h m"
      "load32 m5 (block_addr h b) = block_addr h s" "load32 m5 (block_addr h b + 4) = 0" "q \<noteq> 0 \<longrightarrow> load32 m5 (q + 4) = block_addr h b"
      "cstr m5 (block_addr h s) ?x" "cstr m5 r ?t" "r = p + of_nat k" "k + length ?t = length t"
      "\<And>a. kept_byte h A a \<or> in_range (block_addr h s) 4096 a \<Longrightarrow> \<not> in_range (block_addr h b) 4096 a"
      "\<And>a. kept_byte h A a \<Longrightarrow> \<not> (q \<noteq> 0 \<and> in_range (q + 4) 4 a) \<Longrightarrow> m5 a = m a"
      by (rule path_turn [OF rep t False two len kept q]) (assumption, (rule that; assumption))
    let ?A = "own A [s, b]" and ?p = "block_addr h b"
    have Ab: "?A b = Some 1" "?A s = Some 1" by (simp_all add: own_def)
    have part: "in_range ?p 4096 a" if "in_range (?p + 4) 4 a" for a
      by (rule in_range_offset [OF _ _ that]) (simp_all add: in_range_def)
    have kr: "kept_byte h ?A (r + of_nat j) \<and> \<not> (?p \<noteq> 0 \<and> in_range (?p + 4) 4 (r + of_nat j))" if "j \<le> length ?t" for j
    proof -
      have "kept_byte h A (p + of_nat (k + j))" using kept [of "k + j"] that n(12) by simp
      then show ?thesis using kept_byte_own [OF n(2)] n(13) part by (force simp: n(11) add.assoc)
    qed
    obtain part' m' ns where i: "create_path_nodes h r ?p m5 = Some (part', m')" "map fst ns = path_parts ?t"
      "nodes_at h m' part' ns" "fresh_blocks ?A (node_blocks ns)" "heap_rep h m' (own ?A (node_blocks ns))"
      "avail h m' + 2 * length ns = avail h m5" "load32 m' (?p + 4) = (if ?t = [] then load32 m5 (?p + 4) else part')"
      "\<And>a. kept_byte h ?A a \<Longrightarrow> \<not> in_range (?p + 4) 4 a \<Longrightarrow> m' a = m5 a"
      using 1(1) [OF False n(4,10) _ _ _ kr, of b] t(2) av short n(3,5,12) Ab(1) by (auto simp: parts)
    have fld: "m' a = m5 a" if a: "in_range ?p 4 a" for a
    proof -
      have "\<not> in_range (?p + 4) 4 a" using disj_rangeD [OF field_disj [of 0 4 ?p], of a] a by simp
      moreover have "in_range ?p 4096 a" using a by (rule in_range_mono) simp
      ultimately show ?thesis using i(8) kept_byte_block [where A = ?A and b = b, OF Ab(1)] by blast
    qed
    have str: "m' a = m5 a" if a: "in_range (block_addr h s) 4096 a" for a
      using i(8) [OF kept_byte_block [where A = ?A and b = s, OF Ab(2) a]] n(13) part a by blast
    have "cstr m' (block_addr h s) ?x"
      by (rule cstr_cong [THEN iffD1, OF _ _ n(9)]) (use str len in_range_mono in \<open>fastforce+\<close>)
    moreover have "load32 m' ?p = block_addr h s" unfolding n(6) [symmetric] by (rule load32_cong) (rule fld)
    moreover have "nodes_at h m' (load32 m' (?p + 4)) ns" using i(2,3,7) n(7) by (cases "?t = []") auto
    ultimately have "nodes_at h m' ?p ((?x, s, b) # ns)" using n(3) len by simp
    moreover have keep: "m' a = m5 a" if a: "kept_byte h A a" for a
      using i(8) [OF kept_byte_own [OF n(2) a]] n(13) part a by blast
    moreover have "load32 m' (q + 4) = ?p" if nz: "q \<noteq> 0"
    proof -
      have "kept_byte h A a" if a: "in_range (q + 4) 4 a" for a
      proof -
        have "in_range q 4096 a" by (rule in_range_offset [OF _ _ a]) (simp_all add: in_range_def)
        then show ?thesis using mp [OF q nz] kept_byte_block by blast
      qed
      then have "load32 m' (q + 4) = load32 m5 (q + 4)" by (intro load32_cong keep)
      then show ?thesis using n(8) nz by simp
    qed
    ultimately show ?thesis
      using n(1,5,14) i(1,2,5,6) parts False fresh_blocks_append [OF n(2) i(4)]
      by (intro exI [of _ ?p] exI [of _ m'] exI [of _ "(?x, s, b) # ns"]) simp
  qed
qed

lemma digit_byte:
  fixes d :: u8
  assumes "48 \<le> d" and "d \<le> 57"
  shows "is_digit d" and "atoi d = int (unat d) - 48"
proof -
  have "unat d < 128" using assms(2) by (simp add: word_le_nat_alt)
  then have "sint d = int (unat d)" by (simp add: sint_uint uint_nat signed_take_bit_int_eq_self del: of_nat_unat)
  then show "is_digit d" "atoi d = int (unat d) - 48" using assms by (simp_all add: is_digit_def atoi_def word_le_def)
qed

lemma valid_path:
  assumes "cstr m p (d # 58 # 47 # t)" and "48 \<le> d" and "d \<le> 57"
  shows "is_valid_path m p" and "get_drive_number m p = int (unat d) - 48"
proof -
  have "3 \<le> strnlen m p 108"
    unfolding strnlen_cstr [OF assms(1)] by (simp add: word_le_nat_alt min_def unat_of_nat_u32)
  moreover have "m p = d" "m (p + 1) = 58" "m (p + 2) = 47" using assms(1) by (simp_all add: add.assoc)
  ultimately show "is_valid_path m p" using digit_byte [OF assms(2,3)] by (simp add: is_valid_path_def)
  then show "get_drive_number m p = int (unat d) - 48"
    using digit_byte [OF assms(2,3)] \<open>m p = d\<close> by (simp add: get_drive_number_def)
qed

lemma pathparser_parse_run:
  assumes rep: "heap_rep h m A" and path: "cstr m path (d # 58 # 47 # t)" "48 \<le> d" "d \<le> 57" "length t < 4294967292"
    and short: "\<forall>x\<in>set (path_parts t). length x < 108" and av: "1 + 2 * length (path_parts t) \<le> avail h m"
    and kept: "\<forall>a. in_range path (length t + 4) a \<longrightarrow> kept_byte h A a"
  shows "\<exists>r m' ns. pathparser_parse h path m = Some (block_addr h r, m') \<and> block_addr h r \<noteq> 0
    \<and> c_int (load32 m' (block_addr h r)) = int (unat d) - 48 \<and> nodes_at h m' (load32 m' (block_addr h r + 4)) ns
    \<and> map fst ns = path_parts t \<and> fresh_blocks A (r # node_blocks ns) \<and> heap_rep h m' (own A (r # node_blocks ns))
    \<and> avail h m' + 1 + 2 * length ns = avail h m \<and> (\<forall>a. kept_byte h A a \<longrightarrow> m' a = m a)"
proof -
  obtain r m1 where r: "kzalloc h 8 m = (block_addr h r, m1)" "A r = None" "block_addr h r \<noteq> 0" "heap_rep h m1 (A(r \<mapsto> 1))"
    "Suc (avail h m1) = avail h m" "\<And>a. kept_byte h A a \<Longrightarrow> m1 a = m a"
    "\<And>a. kept_byte h A a \<Longrightarrow> \<not> in_range (block_addr h r) 4096 a"
    by (rule kzalloc_keptE [OF rep, of 8]) (use av in \<open>auto simp: prod_eq_iff\<close>)
  let ?r = "block_addr h r" and ?d = "int (unat d) - 48" and ?A = "A(r \<mapsto> 1)"
  obtain m2 where m2: "m2 = store32 (store32 m1 ?r (c_uint ?d)) (?r + 4) 0" by blast
  have Ar: "?A r = Some 1" by simp
  have link: "heap_rep h m2 ?A" "avail h m2 = avail h m1" "load32 m2 ?r = c_uint ?d" "load32 m2 (?r + 4) = 0"
      "\<And>a. \<not> in_range ?r 8 a \<Longrightarrow> m2 a = m1 a"
    using path_link [where A = ?A and b = r and v = "c_uint ?d" and q = 0, OF r(4) Ar refl] by (simp_all add: m2)
  have root: "in_range ?r 4096 a" if "in_range ?r 8 a \<or> in_range (?r + 4) 4 a" for a
    using in_range_mono [of ?r 8 a 4096] in_range_offset [of ?r 4096 "?r + 4" 4 a] that by (auto simp: in_range_def)
  have keep: "m2 a = m a" if "kept_byte h A a" for a
  proof -
    have "\<not> in_range ?r 8 a" using r(7) [OF that] root by blast
    then show ?thesis using link(5) r(6) [OF that] by simp
  qed
  have p3: "in_range path (length t + 4) (path + of_nat j)" if "j \<le> length t + 3" for j
    using that path(4) by (intro in_range_of_nat) simp_all
  have "cstr m2 path (d # 58 # 47 # t)"
    by (rule cstr_cong [THEN iffD1, OF _ _ path(1)]) (use keep kept path(4) in \<open>auto simp: in_range_mono\<close>)
  then have t: "cstr m2 (path + 3) t" by (simp add: add.assoc)
  have k3: "kept_byte h ?A (path + 3 + of_nat j) \<and> \<not> ((0 :: ptr) \<noteq> 0 \<and> in_range (0 + 4) 4 (path + 3 + of_nat j))"
    if "j \<le> length t" for j
    using p3 [of "3 + j"] that kept kept_byte_upd [where A = A and b = r, OF r(2)] by (simp add: add.assoc)
  obtain part m3 ns where n: "create_path_nodes h (path + 3) 0 m2 = Some (part, m3)" "map fst ns = path_parts t"
    "nodes_at h m3 part ns" "fresh_blocks ?A (node_blocks ns)" "heap_rep h m3 (own ?A (node_blocks ns))"
    "avail h m3 + 2 * length ns = avail h m2" "\<And>a. kept_byte h ?A a \<Longrightarrow> m3 a = m2 a"
    using create_path_nodes_run [OF link(1) t _ _ short k3] path(4) av link(2) r(5) by auto
  let ?A' = "own ?A (node_blocks ns)" and ?m4 = "store32 m3 (?r + 4) part"
  have fresh: "fresh_blocks A (r # node_blocks ns)" by (rule fresh_blocks_upd [OF r(2) n(4)])
  have Ar': "?A' r = Some 1" using fresh by (simp add: own_def fresh_blocks_def)
  have out: "?m4 a = m3 a" if "\<not> in_range ?r 4096 a" for a using that root by (auto intro: store32_other)
  have w: "?m4 a = m3 a" if "\<not> owned_byte (block_addr h) ?A' a" for a
    using out that owned_byteI [where A = ?A' and b = r, OF Ar'] by fastforce
  have rep4: "heap_rep h ?m4 ?A'" by (rule heap_rep_write [OF n(5)]) (rule w)
  have av4: "avail h ?m4 = avail h m3" by (rule kz.avail_write [OF n(5)]) (rule w)
  have "nodes_at h ?m4 part ns"
  proof (rule nodes_at_cong [OF _ n(3)])
    fix b a assume b: "b \<in> set (node_blocks ns)" "in_range (block_addr h b) 4096 a"
    have "disj_range (block_addr h b) (4096 * 1) ?r (4096 * 1)"
      by (rule heap_rep_disj [OF n(5) _ Ar']) (use b fresh in \<open>auto simp: own_def fresh_blocks_def\<close>)
    then show "?m4 a = m3 a" using out b(2) disj_rangeD by auto
  qed
  moreover have "load32 ?m4 ?r = c_uint ?d"
  proof -
    have "load32 ?m4 ?r = load32 m3 ?r" by (simp add: load_store_field)
    also have "\<dots> = load32 m2 ?r"
      by (rule load32_cong) (use n(7) kept_byte_block [where A = ?A and b = r, OF Ar] in_range_mono in \<open>fastforce\<close>)
    finally show ?thesis using link(3) by simp
  qed
  moreover have "c_int (c_uint ?d) = ?d"
  proof -
    have "48 \<le> unat d" "unat d \<le> 57" using path(2,3) by (simp_all add: word_le_nat_alt)
    then show ?thesis unfolding int_word_sint by (simp del: of_nat_unat)
  qed
  moreover have "?m4 a = m a" if "kept_byte h A a" for a
    using out r(7) [OF that] n(7) kept_byte_upd [where A = A and b = r, OF r(2) that] keep [OF that] by simp
  moreover have "pathparser_parse h path m = Some (?r, ?m4)"
    using valid_path [OF path(1-3)] r(1) m2 n(1) by (simp add: pathparser_parse_def create_root_path_def)
  ultimately show ?thesis
    using r(3,5) n(2,6) fresh rep4 av4 link(2) own_upd [of A r]
    by (intro exI [of _ r] exI [of _ ?m4] exI [of _ ns]) (simp add: load32_store32)
qed

section \<open>Release\<close>

lemma pathparser_free_loop_run:
  assumes "nodes_at h m p ns" and "fresh_blocks A (node_blocks ns)" and "heap_rep h m (own A (node_blocks ns))"
  shows "\<exists>m'. pathparser_free_loop h p m = Some m' \<and> heap_rep h m' A \<and> avail h m' = avail h m + 2 * length ns
    \<and> (\<forall>a. owned_byte (block_addr h) A a \<longrightarrow> m' a = m a)"
  using assms
proof (induction ns arbitrary: p m rule: node_blocks.induct)
  case 1
  then show ?case by (subst pathparser_free_loop.simps) simp
next
  case (2 x s b ns)
  let ?q = "load32 m (p + 4)" and ?m1 = "kfree h (block_addr h s) m"
  let ?m2 = "kfree h (block_addr h b) ?m1" and ?B = "node_blocks ns"
  have p: "p \<noteq> 0" "p = block_addr h b" "load32 m p = block_addr h s" "nodes_at h m ?q ns" using 2(2) by auto
  have fresh: "fresh_blocks A (s # b # ?B)" and rep: "heap_rep h m (own A (s # b # ?B))" using 2(3,4) by simp_all
  have s1: "own A (s # b # ?B) s = Some 1" and b1: "own A (b # ?B) b = Some 1" by (simp_all add: own_def)
  have rep1: "heap_rep h ?m1 (own A (b # ?B))"
    using kz.release_rep [OF rep s1] by (simp only: own_release [OF fresh])
  have rep2: "heap_rep h ?m2 (own A ?B)"
    using kz.release_rep [OF rep1 b1] by (simp only: own_release [OF fresh_blocks_Cons [OF fresh]])
  have keep: "?m2 a = m a" if a: "owned_byte (block_addr h) (own A ?B) a" for a
  proof -
    obtain c k where c: "own A ?B c = Some k" "in_range (block_addr h c) (4096 * k) a"
      using a by (auto simp: owned_byte_def)
    then have ne: "c \<noteq> b" "c \<noteq> s" using fresh by (auto simp: own_def fresh_blocks_def)
    then have "own A (b # ?B) c = Some k" "own A (s # b # ?B) c = Some k" using c(1) by (simp_all add: own_def)
    then have "owned_byte (block_addr h) (own A (b # ?B)) a" "owned_byte (block_addr h) (own A (s # b # ?B)) a"
      using c(2) by (auto simp: owned_byte_def)
    then show ?thesis using kz.release_frame [OF rep s1] kz.release_frame [OF rep1 b1] by simp
  qed
  have n2: "nodes_at h ?m2 ?q ns"
  proof (rule nodes_at_cong [OF _ p(4)])
    fix c a assume "c \<in> set ?B" "in_range (block_addr h c) 4096 a"
    then show "?m2 a = m a" by (intro keep owned_byteI [of _ c 1]) (simp_all add: own_def)
  qed
  have fr: "fresh_blocks A ?B" by (rule fresh_blocks_Cons [OF fresh_blocks_Cons [OF fresh]])
  obtain m' where m': "pathparser_free_loop h ?q ?m2 = Some m'" "heap_rep h m' A" "avail h m' = avail h ?m2 + 2 * length ns"
    "\<And>a. owned_byte (block_addr h) A a \<Longrightarrow> m' a = ?m2 a"
    using 2(1) [OF n2 fr rep2] by blast
  have "avail h ?m2 = avail h m + 2" using kz.avail_release [OF rep s1] kz.avail_release [OF rep1 b1] by simp
  moreover have "pathparser_free_loop h p m = Some m'"
    using p m'(1) by (subst pathparser_free_loop.simps) (simp add: Let_def)
  ultimately show ?case using m'(2-4) keep owned_byte_own [OF fr] by (intro exI [of _ m']) (simp only:, simp)
qed

section \<open>Properties\<close>

text \<open>C21. A path with a drive number is parsed into a root with that number and the list of its parts, if they have
  at most 107 characters and the heap has a block for the root and two for each part. The
  result takes exactly these blocks and no other byte changes that is owned or outside of the heap.\<close>

theorem pathparser_parse_parts:
  assumes "heap_rep h m A" and "cstr m path (d # 58 # 47 # t)" and "48 \<le> d" and "d \<le> 57" and "length t < 4294967292"
    and "\<forall>x\<in>set (path_parts t). length x < 108" and "1 + 2 * length (path_parts t) \<le> avail h m"
    and "\<forall>a. in_range path (length t + 4) a \<longrightarrow> kept_byte h A a"
  shows "\<exists>root m' bs. pathparser_parse h path m = Some (root, m') \<and> path_at m' root (int (unat d) - 48) (path_parts t)
    \<and> length bs = 1 + 2 * length (path_parts t) \<and> fresh_blocks A bs \<and> heap_rep h m' (own A bs)
    \<and> avail h m' + length bs = avail h m \<and> (\<forall>a. kept_byte h A a \<longrightarrow> m' a = m a)"
proof -
  obtain r m' ns where r: "pathparser_parse h path m = Some (block_addr h r, m')" "block_addr h r \<noteq> 0"
    "c_int (load32 m' (block_addr h r)) = int (unat d) - 48" "nodes_at h m' (load32 m' (block_addr h r + 4)) ns"
    "map fst ns = path_parts t" "fresh_blocks A (r # node_blocks ns)" "heap_rep h m' (own A (r # node_blocks ns))"
    "avail h m' + 1 + 2 * length ns = avail h m" "\<And>a. kept_byte h A a \<Longrightarrow> m' a = m a"
    using pathparser_parse_run [OF assms] by blast
  have "length ns = length (path_parts t)" unfolding r(5) [symmetric] by simp
  then show ?thesis
    using r nodes_at_parts [OF r(4)]
    by (intro exI [of _ "block_addr h r"] exI [of _ m'] exI [of _ "r # node_blocks ns"])
      (simp add: path_at_def length_node_blocks)
qed

text \<open>The path \<^verbatim>\<open>0:/a//b/\<close>, outside of the heap.\<close>

definition example_path :: mem where
  "example_path = (\<lambda>_. 0)(0x500 := 48, 0x501 := 58, 0x502 := 47, 0x503 := 97, 0x504 := 47, 0x505 := 47, 0x506 := 98, 0x507 := 47)"

lemma example_path:
  "heap_rep kernel_heap example_path Map.empty" "avail kernel_heap example_path = 25600"
  "cstr example_path 0x500 [48, 58, 47, 97, 47, 47, 98, 47]" "path_parts [97, 47, 47, 98, 47] = [[97], [], [98]]"
  "in_range 0x500 9 a \<Longrightarrow> kept_byte kernel_heap Map.empty a"
proof -
  have "heap_rep kernel_heap example_path Map.empty \<and> avail kernel_heap example_path = hp_total kernel_heap"
    by (intro conjI heap_rep_empty) (auto simp: example_path_def in_range_def)
  then show "heap_rep kernel_heap example_path Map.empty" "avail kernel_heap example_path = 25600" by simp_all
  show "cstr example_path 0x500 [48, 58, 47, 97, 47, 47, 98, 47]" by (simp add: example_path_def)
  show "path_parts [97, 47, 47, 98, 47] = [[97], [], [98]]" by (simp add: path_parts.simps [of "_ # _"])
  have d: "disj_range 0x500 9 0x7E00 25600" "disj_range 0x500 9 0x1000000 104857600" by (simp_all add: disj_range_def)
  assume "in_range 0x500 9 a"
  then show "kept_byte kernel_heap Map.empty a" using disj_rangeD [OF d(1)] disj_rangeD [OF d(2)] by (simp add: kept_byte_def)
qed

theorem pathparser_parse_parts_witness:
  "\<exists>root m'. pathparser_parse kernel_heap 0x500 example_path = Some (root, m') \<and> path_at m' root 0 [[97], [], [98]]"
  using pathparser_parse_parts [OF example_path(1,3)] example_path(2,5) by (fastforce simp: example_path(4))

text \<open>C22. Releasing a parsed path gives back exactly the blocks that the parser took and leaves the owned bytes as they
  were before.\<close>

theorem pathparser_parse_free:
  assumes "heap_rep h m A" and "cstr m path (d # 58 # 47 # t)" and "48 \<le> d" and "d \<le> 57" and "length t < 4294967292"
    and "\<forall>x\<in>set (path_parts t). length x < 108" and "1 + 2 * length (path_parts t) \<le> avail h m"
    and "\<forall>a. in_range path (length t + 4) a \<longrightarrow> kept_byte h A a"
  shows "\<exists>root m' m''. pathparser_parse h path m = Some (root, m') \<and> pathparser_free h root m' = Some m''
    \<and> heap_rep h m'' A \<and> avail h m'' = avail h m \<and> (\<forall>a. owned_byte (block_addr h) A a \<longrightarrow> m'' a = m a)"
proof -
  obtain r m' ns where r: "pathparser_parse h path m = Some (block_addr h r, m')"
    "nodes_at h m' (load32 m' (block_addr h r + 4)) ns" "fresh_blocks A (r # node_blocks ns)"
    "heap_rep h m' (own A (r # node_blocks ns))" "avail h m' + 1 + 2 * length ns = avail h m"
    "\<And>a. kept_byte h A a \<Longrightarrow> m' a = m a"
    using pathparser_parse_run [OF assms] by blast
  let ?A = "A(r \<mapsto> 1)"
  have fresh: "A r = None" "fresh_blocks ?A (node_blocks ns)" using r(3) by (auto simp: fresh_blocks_def)
  have rep: "heap_rep h m' (own ?A (node_blocks ns))" unfolding own_upd by (rule r(4))
  obtain m2 where m2: "pathparser_free_loop h (load32 m' (block_addr h r + 4)) m' = Some m2" "heap_rep h m2 ?A"
    "avail h m2 = avail h m' + 2 * length ns" "\<And>a. owned_byte (block_addr h) ?A a \<Longrightarrow> m2 a = m' a"
    using pathparser_free_loop_run [OF r(2) fresh(2) rep] by blast
  have Ar: "?A r = Some 1" by simp
  let ?m = "kfree h (block_addr h r) m2"
  have "?A(r := None) = A" using fresh(1) by (simp add: fun_upd_idem)
  then have "heap_rep h ?m A" using kz.release_rep [where A = ?A and b = r, OF m2(2) Ar] by (simp only:)
  moreover have "avail h ?m = avail h m" using kz.avail_release [where A = ?A and b = r, OF m2(2) Ar] m2(3) r(5) by simp
  moreover have "?m a = m a" if a: "owned_byte (block_addr h) A a" for a
  proof -
    have "owned_byte (block_addr h) ?A a" by (rule hp.owned_byte_upd [OF fresh(1) a])
    then show ?thesis using kz.release_frame [where A = ?A and b = r, OF m2(2) Ar] m2(4) r(6) a by (simp add: kept_byte_def)
  qed
  ultimately show ?thesis using r(1) m2(1) by (simp add: pathparser_free_def)
qed

theorem pathparser_parse_free_witness:
  "\<exists>root m' m''. pathparser_parse kernel_heap 0x500 example_path = Some (root, m')
    \<and> pathparser_free kernel_heap root m' = Some m'' \<and> avail kernel_heap m'' = 25600"
  using pathparser_parse_free [OF example_path(1,3)] example_path(2,5) by (fastforce simp: example_path(4))

end
