(* ===== verification/TaskCopy.thy ===== *)
theory TaskCopy
  imports ProcessMem PathProps
begin

text \<open>
  Strings of a program in the kernel: what \<^verbatim>\<open>copy_string_from_task\<close> of \<^verbatim>\<open>src/src/task/task.c\<close> brings from the address space
  of a task, through a page that is mapped into it for the time of the copy.
\<close>

section \<open>Writes beside the heap\<close>

text \<open>Neither the table of the heap nor the words of a page directory are kept bytes, so writes to kept bytes leave them alone.\<close>

lemma pgd_word_not_kept:
  assumes p: "pgd_at h m A ob db bs" and c: "c \<in> insert ob (insert db (set bs))" and j: "j < 1024"
    and a: "in_range (block_addr h c + of_nat (4 * j)) 4 a"
  shows "\<not> kept_byte h A a"
proof -
  note d = pgd_atD [OF p]
  let ?S = "insert ob (insert db (set bs))"
  have "insert c ?S = ?S" using c by auto
  then have "\<not> owned_byte (block_addr h) A a"
    using pgd_word_not_owned [of h m A c ?S a j] d(1,6-8) a j by auto
  moreover have "in_range (hp_saddr h) (4096 * hp_total h) a"
    using owned_in_heap [OF d(1) own_pages_simps(3) [OF c]] word_in_page [OF j a] by simp
  ultimately show ?thesis by (simp add: kept_byte_def)
qed

lemma table_not_kept: "heap_rep h m B \<Longrightarrow> \<forall>b. A b \<noteq> None \<longrightarrow> B b = A b \<Longrightarrow> in_range (hp_entries h) (hp_total h) a \<Longrightarrow> \<not> kept_byte h A a"
  unfolding kept_byte_def using owned_not_table [of h m B a] by (metis option.distinct(1) owned_byte_def)

lemma pgd_table_not_kept:
  assumes p: "pgd_at h m A ob db bs" and a: "in_range (hp_entries h) (hp_total h) a"
  shows "\<not> kept_byte h A a"
  by (rule table_not_kept [OF pgd_atD(1) [OF p] _ a]) (use pgd_atD(6-8) [OF p] in \<open>auto simp: own_pages_def\<close>)

lemma pgd_at_kept_write:
  assumes p: "pgd_at h m A ob db bs" and fr: "\<And>a. \<not> kept_byte h A a \<Longrightarrow> m' a = m a"
  shows "pgd_at h m' A ob db bs" and "avail h m' = avail h m"
    and "is_page_aligned v \<Longrightarrow> paging_get (block_addr h db) v m' = paging_get (block_addr h db) v m"
proof -
  note d = pgd_atD [OF p]
  let ?S = "insert ob (insert db (set bs))"
  have word: "load32 m' (block_addr h c + of_nat (4 * j)) = load32 m (block_addr h c + of_nat (4 * j))"
    if "c \<in> ?S" "j < 1024" for c j
    by (rule load32_cong) (rule fr [OF pgd_word_not_kept [OF p that]])
  have tab: "m' a = m a" if "in_range (hp_entries h) (hp_total h) a" for a by (rule fr [OF pgd_table_not_kept [OF p that]])
  show "avail h m' = avail h m" by (rule avail_cong [OF heap_repD(1) [OF d(1)] tab])
  show p': "pgd_at h m' A ob db bs"
    using p heap_rep_cong [OF d(1) tab] word [of ob 0] word [of db] by (simp add: pgd_at_def table_of_def del: of_nat_mult)
  show "paging_get (block_addr h db) v m' = paging_get (block_addr h db) v m" if "is_page_aligned v"
    using word [of "bs ! pde_index v" "pte_index v"] d(12) [OF pde_index_lt] pte_index_lt d(11) [OF pde_index_lt]
      pgd_atD(11) [OF p' pde_index_lt]
    by (simp add: paging_get_eq [OF that] pte_addr_def del: of_nat_mult)
qed

text \<open>What the heap and the page directory do leaves kept bytes alone.\<close>

lemma paging_set_kept:
  assumes p: "pgd_at h m A ob db bs" and a: "kept_byte h A a"
  shows "snd (paging_set (block_addr h db) v x m) a = m a"
proof (cases "is_page_aligned v")
  case True
  have "\<not> in_range (block_addr h (bs ! pde_index v) + of_nat (4 * pte_index v)) 4 a"
    using pgd_word_not_kept [OF p _ pte_index_lt, of "bs ! pde_index v" v a] pgd_atD(12) [OF p pde_index_lt] a by blast
  then show ?thesis
    using True pgd_atD(11) [OF p pde_index_lt] by (simp add: paging_set_eq pte_addr_def store32_other)
qed (simp add: paging_set_def)

lemma kfree_kept:
  assumes p: "pgd_at h m A ob db bs" and A: "A b = Some k" and a: "kept_byte h A a"
  shows "kfree h (block_addr h b) m a = m a"
proof -
  have "own_pages A (insert ob (insert db (set bs))) b = Some k" using pgd_atD(6-8) [OF p] A by (auto simp: own_pages_def)
  moreover have "\<not> in_range (hp_entries h) (hp_total h) a" using pgd_table_not_kept [OF p] a by blast
  ultimately show ?thesis unfolding kfree_def by (rule heap_free_frame [OF pgd_atD(1) [OF p]])
qed

lemma pgd_at_kzalloc_page:
  assumes p: "pgd_at h m A ob db bs" and f: "heap_fits h m n" and n: "unat n \<le> 4096"
  obtains b where "fst (kzalloc h n m) = block_addr h b" "A b = None" "block_addr h b \<noteq> 0"
    "pgd_at h (snd (kzalloc h n m)) (A(b \<mapsto> 1)) ob db bs" "Suc (avail h (snd (kzalloc h n m))) = avail h m"
    "\<And>a. kept_byte h A a \<Longrightarrow> snd (kzalloc h n m) a = m a"
    "\<And>a. kept_byte h A a \<Longrightarrow> \<not> in_range (block_addr h b) 4096 a"
    "\<And>v. is_page_aligned v \<Longrightarrow> paging_get (block_addr h db) v (snd (kzalloc h n m)) = paging_get (block_addr h db) v m"
proof -
  let ?m = "snd (kzalloc h n m)"
  have n0: "0 < unat n" using f by (simp add: heap_fits_def)
  have k: "blocks_for n = 1" by (rule blocks_for_page [OF n0 n])
  obtain b where b: "fst (kzalloc h n m) = block_addr h b" "A b = None" "block_addr h b \<noteq> 0"
      "pgd_at h ?m (A(b \<mapsto> 1)) ob db bs" "avail h ?m + 1 = avail h m"
      "\<And>a. owned_byte (block_addr h) A a \<Longrightarrow> ?m a = m a"
      "\<And>v. is_page_aligned v \<Longrightarrow> paging_get (block_addr h db) v ?m = paging_get (block_addr h db) v m"
    using pgd_at_kzalloc [OF p f] unfolding k by metis
  have heap: "in_range (hp_saddr h) (4096 * hp_total h) a" if "in_range (block_addr h b) 4096 a" for a
  proof (rule owned_in_heap [OF pgd_atD(1) [OF b(4)]])
    show "own_pages (A(b \<mapsto> 1)) (insert ob (insert db (set bs))) b = Some 1" by (simp add: own_pages_def)
  qed (use that in simp)
  have out: "\<not> in_range (block_addr h b) 4096 a" if "kept_byte h A a" for a
    using that heap pgd_fresh_not_owned [OF b(4,2), of a] by (auto simp: kept_byte_def)
  have "?m a = m a" if a: "kept_byte h A a" for a
  proof -
    note rep = pgd_atD(1) [OF p]
    have "snd (heap_malloc h n m) a = m a"
      using malloc_fresh_run [OF rep f] pgd_table_not_kept [OF p] a by metis
    moreover have "\<not> in_range (block_addr h b) (unat n) a" using out [OF a] in_range_mono [OF _ n] by blast
    ultimately show ?thesis using kzalloc_eq [OF rep f] b(1) by simp
  qed
  then show thesis using that b out by simp
qed

section \<open>The copy\<close>

text \<open>What \<^verbatim>\<open>strncpy\<close> takes from a place that holds the bytes \<open>m'\<close>: at most \<open>n\<close> characters, up to the first zero.\<close>

definition text_at :: "mem \<Rightarrow> ptr \<Rightarrow> nat \<Rightarrow> u8 list" where
  "text_at m p n = takeWhile (\<lambda>c. c \<noteq> 0) (map (\<lambda>i. m (p + of_nat i)) [0..<n])"

lemma text_at_length: "length (text_at m p n) \<le> n"
  using length_takeWhile_le [of "\<lambda>c. c \<noteq> 0" "map (\<lambda>i. m (p + of_nat i)) [0..<n]"] by (simp add: text_at_def)

lemma text_at_nth:
  assumes "i < length (text_at m p n)"
  shows "text_at m p n ! i = m (p + of_nat i)" and "text_at m p n ! i \<noteq> 0" and "i < n"
proof -
  show i: "i < n" using assms text_at_length [of m p n] by linarith
  show "text_at m p n ! i = m (p + of_nat i)"
    using assms i unfolding text_at_def by (subst takeWhile_nth) simp_all
  show "text_at m p n ! i \<noteq> 0" using assms nth_mem unfolding text_at_def by (metis (mono_tags) set_takeWhileD)
qed

lemma text_at_end: "length (text_at m p n) < n \<Longrightarrow> m (p + of_nat (length (text_at m p n))) = 0"
  using nth_length_takeWhile [of "\<lambda>c. c \<noteq> 0" "map (\<lambda>i. m (p + of_nat i)) [0..<n]"] by (simp add: text_at_def)

lemma text_at_cong: "(\<And>i. i < n \<Longrightarrow> m' (q + of_nat i) = m (p + of_nat i)) \<Longrightarrow> text_at m' q n = text_at m p n"
  unfolding text_at_def by (rule arg_cong [where f = "takeWhile _"]) simp

text \<open>Only the bytes up to the first zero matter.\<close>

lemma text_at_cong_prefix:
  assumes e: "\<And>i. i \<le> length (text_at m p n) \<Longrightarrow> i < n \<Longrightarrow> m' (q + of_nat i) = m (p + of_nat i)"
  shows "text_at m' q n = text_at m p n"
proof -
  let ?t = "text_at m p n" and ?xs = "map (\<lambda>i. m' (q + of_nat i)) [0..<n]"
  have l: "length ?t \<le> n" by (rule text_at_length)
  have "takeWhile (\<lambda>c. c \<noteq> 0) ?xs = take (length ?t) ?xs"
    by (rule takeWhile_eq_take_P_nth) (use e text_at_nth text_at_end l in auto)
  also have "\<dots> = ?t"
    by (rule nth_equalityI) (use e text_at_nth(1) l in auto)
  finally show ?thesis by (simp add: text_at_def)
qed

lemma text_at_cstr:
  assumes "cstr m p s" and "length s \<le> n"
  shows "text_at m p n = s"
proof -
  let ?xs = "map (\<lambda>i. m (p + of_nat i)) [0..<n]"
  have "takeWhile (\<lambda>c. c \<noteq> 0) ?xs = take (length s) ?xs"
    by (rule takeWhile_eq_take_P_nth) (use cstr_nth [OF assms(1)] cstr_end [OF assms(1)] in auto)
  also have "\<dots> = s" using cstr_nth [OF assms(1)] assms(2) by (intro nth_equalityI) simp_all
  finally show ?thesis by (simp add: text_at_def)
qed

lemma copied_terminated:
  assumes "\<And>c. c \<in> set t \<Longrightarrow> c \<noteq> 0" and "length t < 4294967296"
  shows "cstr ((copied m d t (length t))(d + of_nat (length t) := 0)) d t"
    and "length t < n \<Longrightarrow> n \<le> 4294967296 \<Longrightarrow> \<not> in_range d n a \<Longrightarrow> ((copied m d t (length t))(d + of_nat (length t) := 0)) a = m a"
proof -
  have u: "unat (of_nat i :: u32) = i" if "i \<le> length t" for i using that assms(2) by (intro unat_of_nat_u32) simp
  show "cstr ((copied m d t (length t))(d + of_nat (length t) := 0)) d t"
  proof (rule cstrI)
    fix i assume i: "i < length t"
    have "of_nat i \<noteq> (of_nat (length t) :: u32)" using u [of i] u [of "length t"] i by auto
    then show "((copied m d t (length t))(d + of_nat (length t) := 0)) (d + of_nat i) = t ! i \<and> t ! i \<noteq> 0"
      using u [of i] i assms(1) by (simp add: copied_def)
  qed simp
  assume n: "length t < n" "n \<le> 4294967296" "\<not> in_range d n a"
  moreover have "in_range d n (d + of_nat (length t))" using n by (intro in_range_of_nat)
  ultimately show "((copied m d t (length t))(d + of_nat (length t) := 0)) a = m a"
    by (auto simp: copied_def in_range_def)
qed

lemma strncpy_via_loop_copied:
  fixes m :: mem and tr :: "ptr \<Rightarrow> ptr" and src :: ptr and count :: int
  defines "t \<equiv> text_at (\<lambda>v. m (tr v)) src (nat (count - 1))"
  assumes d: "\<And>i. i < nat count \<Longrightarrow> tr (dest + of_nat i) = dest + of_nat i"
    and s: "\<And>i. i \<le> length t \<Longrightarrow> i < nat (count - 1) \<Longrightarrow> \<not> in_range dest (nat count) (tr (src + of_nat i))"
    and c: "1 \<le> count" "count < 2147483648" and i: "i \<le> length t"
  shows "strncpy_via_loop tr (copied m dest t i) dest src count (int i) = (int (length t), copied m dest t (length t))"
  using i
proof (induction "length t - i" arbitrary: i)
  have src: "copied m dest t i (tr (src + of_nat j)) = m (tr (src + of_nat j))" if "i \<le> length t" "j \<le> length t" "j < nat (count - 1)" for i j
    using s [OF that(2,3)] that(1) text_at_length [of "\<lambda>v. m (tr v)" src "nat (count - 1)"] c
    by (auto simp: copied_def in_range_def t_def)
  case 0
  then have i: "i = length t" by simp
  show ?case
  proof (cases "length t < nat (count - 1)")
    case True
    then have "m (tr (src + of_nat (length t))) = 0" using text_at_end [of "\<lambda>v. m (tr v)" src "nat (count - 1)"] by (simp add: t_def)
    then show ?thesis using i True src [of i i] by (subst strncpy_via_loop.simps) simp
  next
    case False
    then have "\<not> int (length t) < count - 1" by linarith
    then show ?thesis using i by (subst strncpy_via_loop.simps) simp
  qed
next
  case (Suc x)
  then have i: "i < length t" by simp
  note n = text_at_nth [of i "\<lambda>v. m (tr v)" src "nat (count - 1)", folded t_def, OF i]
  have "\<not> in_range dest (nat count) (tr (src + of_nat i))" using s [of i] i n(3) by simp
  then have b: "copied m dest t i (tr (src + of_nat i)) = t ! i"
    using n(1,3) by (auto simp: copied_def in_range_def)
  have "strncpy_via_loop tr (copied m dest t (Suc i)) dest src count (int (Suc i)) = (int (length t), copied m dest t (length t))"
    by (rule Suc(1)) (use Suc(2) i in simp_all)
  moreover have "(copied m dest t i)(dest + of_nat i := t ! i) = copied m dest t (Suc i)"
    using n(3) c by (intro copied_Suc) simp
  moreover have "int i < count - 1" "i < nat count" using n(3) c by auto
  ultimately show ?case
    using b n(2) d [of i] by (subst strncpy_via_loop.simps) (simp add: add.commute)
qed

lemma strncpy_via_copies:
  fixes m :: mem and tr :: "ptr \<Rightarrow> ptr" and src :: ptr and count :: int
  defines "t \<equiv> text_at (\<lambda>v. m (tr v)) src (nat (count - 1))"
  assumes d: "\<And>i. i < nat count \<Longrightarrow> tr (dest + of_nat i) = dest + of_nat i"
    and s: "\<And>i. i \<le> length t \<Longrightarrow> i < nat (count - 1) \<Longrightarrow> \<not> in_range dest (nat count) (tr (src + of_nat i))"
    and c: "1 \<le> count" "count < 2147483648"
  shows "cstr (strncpy_via tr m dest src count) dest t"
    and "\<not> in_range dest (nat count) a \<Longrightarrow> strncpy_via tr m dest src count a = m a"
proof -
  have l: "length t < nat count" using text_at_length [of "\<lambda>v. m (tr v)" src "nat (count - 1)"] c by (simp add: t_def)
  have "copied m dest t 0 = m" by (simp add: copied_def)
  then have eq: "strncpy_via tr m dest src count = (copied m dest t (length t))(dest + of_nat (length t) := 0)"
    using strncpy_via_loop_copied [of count tr dest m src 0, folded t_def, OF d s c] d [OF l] by (simp add: strncpy_via_def)
  have z: "c \<noteq> 0" if "c \<in> set t" for c using that unfolding t_def text_at_def by (auto dest: set_takeWhileD)
  have n: "nat count \<le> 4294967296" using c(2) by simp
  have b: "length t < 4294967296" using l n by simp
  show "cstr (strncpy_via tr m dest src count) dest t" unfolding eq by (rule copied_terminated(1) [OF z b])
  show "strncpy_via tr m dest src count a = m a" if "\<not> in_range dest (nat count) a"
    unfolding eq by (rule copied_terminated(2) [OF z b l n that])
qed

text \<open>Addresses of pages that are mapped alike have the same place in memory.\<close>

lemma physical_cong:
  "paging_get dir (paging_align_to_lower_page v) m' = paging_get dir (paging_align_to_lower_page v) m \<Longrightarrow>
    paging_get_physical_address dir v m' = paging_get_physical_address dir v m"
  by (simp add: paging_get_physical_address_def)

lemma lower_page_in: "in_range (paging_align_to_lower_page a) 4096 a"
  by (simp add: in_range_def lower_page_diff)

text \<open>The page \<open>b\<close> of a task is mapped at its own address, written, and mapped as before again.\<close>

lemma physical_own_page:
  assumes "is_page_aligned p" and "paging_get dir p m = p OR 7" and "i < 4096"
  shows "paging_get_physical_address dir (p + of_nat i) m = p + of_nat i"
proof -
  have l: "paging_align_to_lower_page (p + of_nat i) = p" using lower_page_in_range [OF assms(1), of i 1] assms(3) by simp
  show ?thesis using physical_of_entry [OF assms(1), of 7 dir "p + of_nat i" m] assms(2) l by simp
qed

lemma task_page_copy:
  fixes m :: mem and virt :: ptr and mx :: int
  assumes p: "pgd_at h m (A(b \<mapsto> 1)) ob db bs" and b: "A b = None" and mx: "1 \<le> mx" "mx < 4096"
    and out': "\<forall>a. kept_byte h A a \<longrightarrow> \<not> in_range (block_addr h b) 4096 a"
    and t: "t = text_at (seen (block_addr h db) m) virt (nat (mx - 1))"
    and src': "\<forall>i\<le>length t. i < nat (mx - 1) \<longrightarrow> kept_byte h A (virt + of_nat i)
      \<and> kept_byte h A (paging_get_physical_address (block_addr h db) (virt + of_nat i) m)"
  defines "m2 \<equiv> snd (paging_set (block_addr h db) (block_addr h b) (block_addr h b OR 7) m)"
  defines "m3 \<equiv> strncpy_via (\<lambda>v. paging_get_physical_address (block_addr h db) v m2) m2 (block_addr h b) virt mx"
  defines "r \<equiv> paging_set (block_addr h db) (block_addr h b) (paging_get (block_addr h db) (block_addr h b) m) m3"
  shows "fst r = 0" and "pgd_at h (snd r) (A(b \<mapsto> 1)) ob db bs" and "avail h (snd r) = avail h m" and "cstr (snd r) (block_addr h b) t"
    and "kept_byte h A a \<Longrightarrow> snd r a = m a"
    and "is_page_aligned v \<Longrightarrow> paging_get (block_addr h db) v (snd r) = paging_get (block_addr h db) v m"
proof -
  note out = out' [rule_format] and src = src' [rule_format]
  let ?B = "A(b \<mapsto> 1)" and ?dir = "block_addr h db" and ?p = "block_addr h b"
  let ?tr = "\<lambda>v. paging_get_physical_address ?dir v m2"
  have al: "is_page_aligned ?p" by (rule block_addr_aligned [OF heap_repD(1) [OF pgd_atD(1) [OF p]]])
  note up = kept_byte_upd [where A = A and b = b and k = 1, OF b]
  note wf = wf_pgd_pgd_at [OF p]
  have p2: "pgd_at h m2 ?B ob db bs" "avail h m2 = avail h m" using pgd_at_paging_set [OF p] by (simp_all add: m2_def)
  have k2: "m2 a = m a" if "kept_byte h ?B a" for a unfolding m2_def by (rule paging_set_kept [OF p that])
  have g2: "paging_get ?dir v m2 = (if v = ?p then ?p OR 7 else paging_get ?dir v m)" if "is_page_aligned v" for v
    using pt.get_put_same [OF wf al] pt.get_put_other [OF wf al that] by (simp add: m2_def)
  have own: "?tr (?p + of_nat i) = ?p + of_nat i" if "i < nat mx" for i
    by (rule physical_own_page [OF al]) (use g2 [OF al] that mx in auto)
  have oth: "?tr v = paging_get_physical_address ?dir v m" if "kept_byte h A v" for v
    by (rule physical_cong) (use g2 [OF lower_page_aligned, of v] out [OF that] lower_page_in [of v] in auto)
  have seen: "m2 (?tr (virt + of_nat i)) = seen ?dir m (virt + of_nat i)" if "i \<le> length t" "i < nat (mx - 1)" for i
    using src [OF that] oth k2 up by (simp add: seen_def)
  have t2: "text_at (\<lambda>v. m2 (?tr v)) virt (nat (mx - 1)) = t"
    unfolding t by (rule text_at_cong_prefix) (use seen t in simp)
  have bl: "in_range ?p 4096 a" if "in_range ?p (nat mx) a" for a using in_range_mono [OF that, of 4096] mx by simp
  have far: "\<not> in_range ?p (nat mx) (?tr (virt + of_nat i))" if "i \<le> length t" "i < nat (mx - 1)" for i
    using src [OF that] oth out bl by metis
  have lim: "mx < 2147483648" using mx(2) by simp
  note cp = strncpy_via_copies [of mx ?tr ?p m2 virt, unfolded t2, OF own far mx(1) lim, folded m3_def]
  have o3: "owned_byte (block_addr h) ?B a" if "in_range ?p (nat mx) a" for a
    using owned_byteI [of ?B b 1] bl [OF that] by simp
  have w: "m3 a = m2 a" if "\<not> kept_byte h ?B a" for a using cp(2) o3 that by (auto simp: kept_byte_def)
  have p3: "pgd_at h m3 ?B ob db bs" "avail h m3 = avail h m2"
      "is_page_aligned v \<Longrightarrow> paging_get ?dir v m3 = paging_get ?dir v m2" for v
    by (rule pgd_at_kept_write [OF p2(1)]; (rule w; assumption | assumption))+
  note wf3 = wf_pgd_pgd_at [OF p3(1)]
  have k4: "snd r a = m3 a" if "kept_byte h ?B a" for a unfolding r_def by (rule paging_set_kept [OF p3(1) that])
  show "fst r = 0" using al by (simp add: r_def paging_set_eq)
  show "pgd_at h (snd r) ?B ob db bs" "avail h (snd r) = avail h m"
    using pgd_at_paging_set [OF p3(1)] p3(2) p2(2) by (simp_all add: r_def)
  show "snd r a = m a" if a: "kept_byte h A a"
    using k4 [OF up [OF a]] cp(2) [of a] out [OF a] bl k2 [OF up [OF a]] by auto
  show "paging_get ?dir v (snd r) = paging_get ?dir v m" if v: "is_page_aligned v"
    using pt.get_put_same [OF wf3 al] pt.get_put_other [OF wf3 al v] p3(3) [OF v] g2 [OF v] by (auto simp: r_def)
  have keep: "snd r (?p + of_nat i) = m3 (?p + of_nat i)" if "i \<le> length t" for i
  proof -
    have "i < nat mx" using that text_at_length [of "seen ?dir m" virt "nat (mx - 1)"] mx by (simp add: t)
    then have "in_range ?p (nat mx) (?p + of_nat i)" by (rule in_range_of_nat) (use mx in linarith)
    then show ?thesis using k4 o3 by (simp add: kept_byte_def)
  qed
  show "cstr (snd r) ?p t" by (rule cstr_outside [OF cp(1) keep])
qed

text \<open>Bytes that are neither in the blocks nor in the table of the heap.\<close>

definition off_heap :: "heap \<Rightarrow> ptr \<Rightarrow> bool" where
  "off_heap h a \<longleftrightarrow> \<not> in_range (hp_entries h) (hp_total h) a \<and> \<not> in_range (hp_saddr h) (4096 * hp_total h) a"

lemma off_heap_kept: "off_heap h a \<Longrightarrow> kept_byte h A a"
  by (simp add: off_heap_def kept_byte_def)

lemma c_uint_small: "0 \<le> n \<Longrightarrow> n < 4096 \<Longrightarrow> unat (c_uint n) = nat n"
  by (simp add: unat_eq_nat_uint uint_word_of_int_eq take_bit_int_eq_self)

text \<open>The last part of the copy: out of the page of block \<open>b\<close> into a buffer beside the heap, and the release of the page.\<close>

lemma copy_out:
  fixes h m b physical mx
  defines "m5 \<equiv> snd (strncpy m physical (block_addr h b) mx)"
  defines "m6 \<equiv> kfree h (block_addr h b) m5"
  assumes p: "pgd_at h m (A(b \<mapsto> 1)) ob db bs" and b: "A b = None" "\<forall>a. kept_byte h A a \<longrightarrow> \<not> in_range (block_addr h b) 4096 a"
    and str: "cstr m (block_addr h b) t" "length t \<le> nat (mx - 1)" and mx: "1 \<le> mx" "mx < 4096"
    and buf: "\<forall>a. in_range physical (nat mx) a \<longrightarrow> off_heap h a"
  shows "pgd_at h m6 A ob db bs" and "avail h m6 = Suc (avail h m)" and "cstr m6 physical t"
    and "kept_byte h A a \<Longrightarrow> \<not> in_range physical (nat mx) a \<Longrightarrow> m6 a = m a"
    and "is_page_aligned v \<Longrightarrow> paging_get (block_addr h db) v m6 = paging_get (block_addr h db) v m"
proof -
  let ?p = "block_addr h b" and ?B = "A(b \<mapsto> 1)"
  have lim: "mx < 2147483648" "length t < 4294967295" "Suc (length t) \<le> 4096" using mx str(2) by simp_all
  have off: "kept_byte h C a" if "in_range physical (nat mx) a" for C a using off_heap_kept buf that by blast
  have dj: "disj_range physical (nat mx) ?p (Suc (length t))"
  proof (rule disj_rangeI)
    fix a assume "in_range physical (nat mx) a" and "in_range ?p (Suc (length t)) a"
    then show False using b(2) off in_range_mono [OF _ lim(3)] by blast
  qed
  note st = strncpy_copies [OF str(1) dj mx(1) lim(1,2), folded m5_def]
  have w5: "m5 a = m a" if "\<not> kept_byte h ?B a" for a using st(3) off that by blast
  have p5: "pgd_at h m5 ?B ob db bs" "avail h m5 = avail h m"
      "is_page_aligned v \<Longrightarrow> paging_get (block_addr h db) v m5 = paging_get (block_addr h db) v m" for v
    by (rule pgd_at_kept_write [OF p]; (rule w5; assumption | assumption))+
  have B: "?B(b := None) = A" using b(1) by auto
  note fr = pgd_at_kfree [OF p5(1) fun_upd_same, folded m6_def, unfolded B]
  have k6: "m6 a = m5 a" if "kept_byte h A a" for a
    unfolding m6_def by (rule kfree_kept [OF p5(1) fun_upd_same kept_byte_upd [where A = A and b = b and k = 1, OF b(1) that]])
  show "pgd_at h m6 A ob db bs" by (rule fr(1))
  show "avail h m6 = Suc (avail h m)" using fr(2) p5(2) by simp
  show "m6 a = m a" if "kept_byte h A a" "\<not> in_range physical (nat mx) a" using k6 [OF that(1)] st(3) [OF that(2)] by simp
  show "paging_get (block_addr h db) v m6 = paging_get (block_addr h db) v m" if v: "is_page_aligned v"
    using fr(4) [OF v] p5(3) [OF v] by simp
  show "cstr m6 physical t"
  proof (rule cstr_outside)
    show "cstr m5 physical t" using st(2) str(2) by simp
    show "m6 (physical + of_nat i) = m5 (physical + of_nat i)" if "i \<le> length t" for i
      by (rule k6 [OF off], rule in_range_of_nat) (use that str(2) mx in linarith)+
  qed
qed

lemma copy_string_from_taskE:
  fixes s :: "'a kernel_scheme"
  assumes p: "pgd_at (kheap s) (km s) A ob db bs" and f: "heap_fits (kheap s) (km s) (c_uint mx)" and mx: "1 \<le> mx" "mx < 4096"
    and task: "load32 (km s) task = block_addr (kheap s) ob" "\<And>a. in_range task 4 a \<Longrightarrow> owned_byte (block_addr (kheap s)) A a"
    and t: "t = text_at (seen (block_addr (kheap s) db) (km s)) virt (nat (mx - 1))"
    and src: "\<And>i. i \<le> length t \<Longrightarrow> i < nat (mx - 1) \<Longrightarrow> kept_byte (kheap s) A (virt + of_nat i)
      \<and> kept_byte (kheap s) A (paging_get_physical_address (block_addr (kheap s) db) (virt + of_nat i) (km s))"
    and buf: "\<And>a. in_range physical (nat mx) a \<Longrightarrow> off_heap (kheap s) a"
  obtains m c where "copy_string_from_task task virt physical mx s = (0, s\<lparr>data_selector := 0x10, cpu := c, km := m\<rparr>)"
    "pgd_at (kheap s) m A ob db bs" "avail (kheap s) m = avail (kheap s) (km s)" "cstr m physical t"
    "\<And>a. kept_byte (kheap s) A a \<Longrightarrow> \<not> in_range physical (nat mx) a \<Longrightarrow> m a = km s a"
    "\<And>v. is_page_aligned v \<Longrightarrow> paging_get (block_addr (kheap s) db) v m = paging_get (block_addr (kheap s) db) v (km s)"
proof -
  let ?h = "kheap s" and ?dir = "block_addr (kheap s) db" and ?m1 = "snd (kzalloc (kheap s) (c_uint mx) (km s))"
  have n: "unat (c_uint mx) \<le> 4096" using c_uint_small [of mx] mx by simp
  obtain b where b: "fst (kzalloc ?h (c_uint mx) (km s)) = block_addr ?h b" "A b = None" "block_addr ?h b \<noteq> 0"
      "pgd_at ?h ?m1 (A(b \<mapsto> 1)) ob db bs" "Suc (avail ?h ?m1) = avail ?h (km s)"
      "\<And>a. kept_byte ?h A a \<Longrightarrow> ?m1 a = km s a" "\<And>a. kept_byte ?h A a \<Longrightarrow> \<not> in_range (block_addr ?h b) 4096 a"
      "\<And>v. is_page_aligned v \<Longrightarrow> paging_get ?dir v ?m1 = paging_get ?dir v (km s)"
    using pgd_at_kzalloc_page [OF p f n] by metis
  let ?p = "block_addr ?h b" and ?B = "A(b \<mapsto> 1)"
  have al: "is_page_aligned ?p" by (rule block_addr_aligned [OF heap_repD(1) [OF pgd_atD(1) [OF p]]])
  have ph: "paging_get_physical_address ?dir v ?m1 = paging_get_physical_address ?dir v (km s)" for v
    by (rule physical_cong) (rule b(8) [OF lower_page_aligned])
  have t1: "t = text_at (seen ?dir ?m1) virt (nat (mx - 1))"
    unfolding t by (rule text_at_cong_prefix [symmetric]) (use src ph b(6) t in \<open>simp add: seen_def\<close>)
  define r where "r = paging_set ?dir ?p (paging_get ?dir ?p ?m1) (strncpy_via (\<lambda>v. paging_get_physical_address ?dir v
      (snd (paging_set ?dir ?p (?p OR 7) ?m1))) (snd (paging_set ?dir ?p (?p OR 7) ?m1)) ?p virt mx)"
  have "\<forall>a. kept_byte ?h A a \<longrightarrow> \<not> in_range ?p 4096 a" "\<forall>i\<le>length t. i < nat (mx - 1) \<longrightarrow> kept_byte ?h A (virt + of_nat i)
      \<and> kept_byte ?h A (paging_get_physical_address ?dir (virt + of_nat i) ?m1)" using b(7) src ph by simp_all
  note cp = task_page_copy [OF b(4,2) mx this(1) t1 this(2), folded r_def]
  have len: "length t \<le> nat (mx - 1)" unfolding t by (rule text_at_length)
  have far: "\<forall>a. kept_byte ?h A a \<longrightarrow> \<not> in_range ?p 4096 a" "\<forall>a. in_range physical (nat mx) a \<longrightarrow> off_heap ?h a" using b(7) buf by blast+
  define m6 where "m6 = kfree ?h ?p (snd (strncpy (snd r) physical ?p mx))"
  note co = copy_out [where A = A and b = b and h = ?h, OF cp(2) b(2) far(1) cp(4) len mx far(2), folded m6_def]
  have dir: "get_page_directory_entry (tk_page_directory (task_at ?m1 task)) ?m1 = ?dir"
  proof -
    have "load32 ?m1 task = load32 (km s) task" by (rule load32_cong) (use b(6) task(2) in \<open>simp add: kept_byte_def\<close>)
    then show ?thesis using task(1) pgd_atD(10) [OF b(4)] by (simp add: get_page_directory_entry_def)
  qed
  have "\<exists>c. copy_string_from_task task virt physical mx s = (0, s\<lparr>data_selector := 0x10, cpu := c, km := m6\<rparr>)"
    using b(1,3) dir cp(1) mx
    by (simp add: copy_string_from_task_def split_beta Let_def paging_map_aligned [OF al al] kernel_page_def kernel_registers_def
      r_def [symmetric] m6_def [symmetric]) blast
  then obtain c where c: "copy_string_from_task task virt physical mx s = (0, s\<lparr>data_selector := 0x10, cpu := c, km := m6\<rparr>)" ..
  show thesis
  proof (rule that [OF c co(1) _ co(3)])
    show "avail ?h m6 = avail ?h (km s)" using co(2) cp(3) b(5) by simp
    show "m6 a = km s a" if "kept_byte ?h A a" "\<not> in_range physical (nat mx) a" for a
      using co(4) [OF that] cp(5) [OF that(1)] b(6) [OF that(1)] by simp
    show "paging_get ?dir v m6 = paging_get ?dir v (km s)" if v: "is_page_aligned v" for v
      using co(5) [OF v] cp(6) [OF v] b(8) [OF v] by simp
  qed
qed

end
