(* ===== verification/Userlib.thy ===== *)
theory Userlib
  imports CString "HOL-Library.Monad_Syntax"
begin

text \<open>
  The user library \<^verbatim>\<open>src/programs/stdlib/src/\<close> and the programs \<^verbatim>\<open>shell\<close>, \<^verbatim>\<open>echo\<close> and \<^verbatim>\<open>blank\<close>, on the memory of their
  process. The kernel is seen as a process sees it: the answers of the system calls that give a value come from a
  list, the calls that have an effect outside are recorded. \<open>None\<close> is a program that never gets on: it waits for
  an answer or loops. \<^verbatim>\<open>string.c\<close> and \<^verbatim>\<open>memory.c\<close> of the library are copies of the kernel's, see \<open>CString\<close> and
  \<open>Memory\<close>; only \<^verbatim>\<open>strtok\<close> is new.
\<close>

section \<open>State and system calls\<close>

datatype user_call = Call_print "u8 list" | Call_putchar u8 | Call_malloc u32 | Call_free ptr
  | Call_process_load_start ptr | Call_system ptr | Call_exit

text \<open>\<open>itoa_text\<close> is the address of the static array of \<^verbatim>\<open>itoa\<close>; the other variables are those of \<^verbatim>\<open>strtok\<close>.\<close>

record user =
  um :: mem
  answers :: "u32 list"
  calls :: "user_call list"
  itoa_text :: ptr
  sp :: ptr
  single_quote_started :: bool
  double_quote_started :: bool

text \<open>The kernel copies at most 1023 characters of a string that a program prints.\<close>

definition printed :: "mem \<Rightarrow> ptr \<Rightarrow> u8 list" where
  "printed m p = takeWhile (\<lambda>c. c \<noteq> 0) (map (\<lambda>i. m (p + of_nat i)) [0..<1023])"

definition user_print :: "ptr \<Rightarrow> user \<Rightarrow> user" where
  "user_print string_to_print u = u\<lparr>calls := calls u @ [Call_print (printed (um u) string_to_print)]\<rparr>"

definition liebeos_putchar :: "u8 \<Rightarrow> user \<Rightarrow> user" where
  "liebeos_putchar c u = u\<lparr>calls := calls u @ [Call_putchar c]\<rparr>"

definition next_answer :: "user \<Rightarrow> (u32 \<times> user) option" where
  "next_answer u = (case answers u of [] \<Rightarrow> None | a # as \<Rightarrow> Some (a, u\<lparr>answers := as\<rparr>))"

definition liebeos_getkey :: "user \<Rightarrow> (u32 \<times> user) option" where
  "liebeos_getkey u = next_answer u"

text \<open>Memory that the kernel gives is zeroed.\<close>

definition liebeos_malloc :: "u32 \<Rightarrow> user \<Rightarrow> (ptr \<times> user) option" where
  "liebeos_malloc sz u =
     do {
       (p, u) \<leftarrow> next_answer u;
       let u = u\<lparr>calls := calls u @ [Call_malloc sz]\<rparr>;
       Some (p, if p = 0 then u else u\<lparr>um := \<lambda>a. if in_range p (unat sz) a then 0 else um u a\<rparr>)
     }"

definition liebeos_free :: "ptr \<Rightarrow> user \<Rightarrow> user" where
  "liebeos_free p u = u\<lparr>calls := calls u @ [Call_free p]\<rparr>"

definition liebeos_system :: "ptr \<Rightarrow> user \<Rightarrow> (u32 \<times> user) option" where
  "liebeos_system arguments u = next_answer (u\<lparr>calls := calls u @ [Call_system arguments]\<rparr>)"

definition liebeos_process_load_start :: "ptr \<Rightarrow> user \<Rightarrow> user" where
  "liebeos_process_load_start filename u = u\<lparr>calls := calls u @ [Call_process_load_start filename]\<rparr>"

definition liebeos_process_get_arguments :: "ptr \<Rightarrow> user \<Rightarrow> user option" where
  "liebeos_process_get_arguments arguments u =
     do {
       (argc, u) \<leftarrow> next_answer u;
       (argv, u) \<leftarrow> next_answer u;
       Some (u\<lparr>um := store32 (store32 (um u) arguments argc) (arguments + 4) argv\<rparr>)
     }"

definition liebeos_exit :: "user \<Rightarrow> user" where
  "liebeos_exit u = u\<lparr>calls := calls u @ [Call_exit]\<rparr>"

section \<open>stdlib.c\<close>

definition malloc :: "u32 \<Rightarrow> user \<Rightarrow> (ptr \<times> user) option" where
  "malloc sz u = liebeos_malloc sz u"

definition free :: "ptr \<Rightarrow> user \<Rightarrow> user" where
  "free p u = liebeos_free p u"

text \<open>The loop of \<^verbatim>\<open>itoa\<close> runs on non-positive numbers, so that the smallest \<^verbatim>\<open>int\<close> is no special case.\<close>

function itoa_loop :: "ptr \<Rightarrow> int \<Rightarrow> int \<Rightarrow> mem \<Rightarrow> int \<times> mem" where
  "itoa_loop text i loc m =
     (if i \<noteq> 0
      then itoa_loop text (i sdiv 10) (loc - 1) (m(text + c_uint (loc - 1) := word_of_int (48 - i smod 10)))
      else (loc, m))"
  by pat_completeness auto
termination by (relation "measure (\<lambda>(t, i, l, m). nat \<bar>i\<bar>)") (auto simp: signed_divide_int_def sgn_if)

declare itoa_loop.simps [simp del]

definition itoa :: "int \<Rightarrow> user \<Rightarrow> ptr \<times> user" where
  "itoa i u =
     (let text = itoa_text u;
          m = (um u)(text + 11 := 0);
          neg = \<not> 0 \<le> i;
          (loc, m) = itoa_loop text (if 0 \<le> i then - i else i) 11 m;
          (loc, m) = (if loc = 11 then (loc - 1, m(text + c_uint (loc - 1) := 48)) else (loc, m));
          (loc, m) = (if neg then (loc - 1, m(text + c_uint (loc - 1) := 45)) else (loc, m))
      in (text + c_uint loc, u\<lparr>um := m\<rparr>))"

section \<open>stdio.c\<close>

definition putchar :: "int \<Rightarrow> user \<Rightarrow> int \<times> user" where
  "putchar c u = (0, liebeos_putchar (word_of_int c) u)"

text \<open>\<open>ap\<close> is the address of the next variable argument. The character behind a percent sign is skipped even if it is
  the terminator.\<close>

partial_function (option) printf_loop :: "ptr \<Rightarrow> ptr \<Rightarrow> user \<Rightarrow> user option" where
  "printf_loop p ap u =
     (if um u p = 0 then Some u
      else if um u p \<noteq> 37 then printf_loop (p + 1) ap (snd (putchar (sint (um u p)) u))
      else if um u (p + 1) = 100 then
        let (s, u) = itoa (c_int (load32 (um u) ap)) u
        in printf_loop (p + 1 + 1) (ap + 4) (user_print s u)
      else if um u (p + 1) = 115 then printf_loop (p + 1 + 1) (ap + 4) (user_print (load32 (um u) ap) u)
      else printf_loop (p + 1 + 1) ap (snd (putchar (sint (um u (p + 1))) u)))"

definition printf :: "ptr \<Rightarrow> ptr \<Rightarrow> user \<Rightarrow> (int \<times> user) option" where
  "printf fmt ap u = map_option (Pair 0) (printf_loop fmt ap u)"

section \<open>strtok\<close>

text \<open>The inner loops look for a character among the delimiters from number \<open>i\<close> on.\<close>

function delimiter_index :: "mem \<Rightarrow> u8 \<Rightarrow> ptr \<Rightarrow> int \<Rightarrow> int \<Rightarrow> int" where
  "delimiter_index m c delimiters len i =
     (if i < len then if c = m (delimiters + c_uint i) then i else delimiter_index m c delimiters len (i + 1) else i)"
  by pat_completeness auto
termination by (relation "measure (\<lambda>(m, c, d, len, i). nat (len - i))") auto

declare delimiter_index.simps [simp del]

partial_function (option) strtok_skip :: "mem \<Rightarrow> ptr \<Rightarrow> int \<Rightarrow> ptr \<Rightarrow> ptr option" where
  "strtok_skip m delimiters len p_start =
     (let i = delimiter_index m (m p_start) delimiters len 0;
          p_start = (if i < len then p_start + 1 else p_start)
      in if i = len then Some p_start else strtok_skip m delimiters len p_start)"

text \<open>The variable \<open>i\<close> keeps its value where no delimiter is looked for.\<close>

partial_function (option) strtok_loop :: "ptr \<Rightarrow> int \<Rightarrow> int \<Rightarrow> user \<Rightarrow> user option" where
  "strtok_loop delimiters len i u =
     (if um u (sp u) = 0 then Some u
      else
        let u = (if um u (sp u) = 39 then u\<lparr>single_quote_started := \<not> single_quote_started u\<rparr> else u);
            u = (if um u (sp u) = 34 then u\<lparr>double_quote_started := \<not> double_quote_started u\<rparr> else u);
            (i, u) = (if single_quote_started u \<or> double_quote_started u then
                        let i = delimiter_index (um u) (um u (sp u)) delimiters len 0
                        in (i, if i < len then u\<lparr>um := (um u)(sp u := 0)\<rparr> else u)
                      else (i, u));
            u = u\<lparr>sp := sp u + 1\<rparr>
        in if i < len then Some u else strtok_loop delimiters len i u)"

definition strtok :: "ptr \<Rightarrow> ptr \<Rightarrow> user \<Rightarrow> (ptr \<times> user) option" where
  "strtok str delimiters u =
     do {
       len \<leftarrow> strlen (um u) delimiters;
       let len = c_int len;
       if str = 0 \<and> sp u = 0 then Some (0, u)
       else do {
         let u = (if str \<noteq> 0 \<and> sp u = 0 then u\<lparr>sp := str\<rparr> else u);
         p_start \<leftarrow> strtok_skip (um u) delimiters len (sp u);
         let u = u\<lparr>sp := p_start\<rparr>;
         if um u (sp u) = 0 then Some (0, u\<lparr>sp := 0\<rparr>)
         else do {
           u \<leftarrow> strtok_loop delimiters len len u;
           Some (p_start, u)
         }
       }
     }"

section \<open>liebeos.c\<close>

partial_function (option) liebeos_getkey_block :: "user \<Rightarrow> (u32 \<times> user) option" where
  "liebeos_getkey_block u =
     do {
       (val, u) \<leftarrow> liebeos_getkey u;
       if val = 0 then liebeos_getkey_block u else Some (val, u)
     }"

partial_function (option) readline_loop :: "ptr \<Rightarrow> int \<Rightarrow> bool \<Rightarrow> int \<Rightarrow> user \<Rightarrow> (int \<times> user) option" where
  "readline_loop out mx output_while_typing i u =
     (if i < mx - 1 then
        do {
          (val, u) \<leftarrow> liebeos_getkey_block u;
          let key = (ucast val :: u8);
          if key = 13 then Some (i, u)
          else
            let u = (if output_while_typing then liebeos_putchar key u else u)
            in if key = 8 \<and> 1 \<le> i
               then readline_loop out mx output_while_typing (i - 2 + 1) (u\<lparr>um := (um u)(out + c_uint (i - 1) := 0)\<rparr>)
               else readline_loop out mx output_while_typing (i + 1) (u\<lparr>um := (um u)(out + c_uint i := key)\<rparr>)
        }
      else Some (i, u))"

definition liebeos_terminal_readline :: "ptr \<Rightarrow> int \<Rightarrow> bool \<Rightarrow> user \<Rightarrow> user option" where
  "liebeos_terminal_readline out mx output_while_typing u =
     do {
       (i, u) \<leftarrow> readline_loop out mx output_while_typing 0 u;
       Some (u\<lparr>um := (um u)(out + c_uint i := 0)\<rparr>)
     }"

text \<open>\<open>blank\<close> is the address of the delimiter string. An argument has 512 characters and the pointer to the next.\<close>

partial_function (option) parse_command_loop :: "ptr \<Rightarrow> ptr \<Rightarrow> ptr \<Rightarrow> user \<Rightarrow> user option" where
  "parse_command_loop blank current token u =
     (if token \<noteq> 0 then
        do {
          (new_command, u) \<leftarrow> liebeos_malloc 516 u;
          if new_command = 0 then Some u
          else do {
            let m = snd (strncpy (um u) new_command token 512);
            let m = store32 m (new_command + 512) 0;
            let m = store32 m (current + 512) new_command;
            (token, u) \<leftarrow> strtok 0 blank (u\<lparr>um := m\<rparr>);
            parse_command_loop blank new_command token u
          }
        }
      else Some u)"

text \<open>\<open>scommand\<close> is the address of the local array.\<close>

definition liebeos_parse_command :: "ptr \<Rightarrow> ptr \<Rightarrow> ptr \<Rightarrow> int \<Rightarrow> user \<Rightarrow> (ptr \<times> user) option" where
  "liebeos_parse_command scommand blank command mx u =
     (if 1025 \<le> mx then Some (0, u)
      else do {
        let u = u\<lparr>um := snd (strncpy (um u) scommand command 1025)\<rparr>;
        (token, u) \<leftarrow> strtok scommand blank u;
        if token = 0 then Some (0, u)
        else do {
          (root_command, u) \<leftarrow> liebeos_malloc 516 u;
          if root_command = 0 then Some (0, u)
          else do {
            let m = snd (strncpy (um u) root_command token 512);
            let m = store32 m (root_command + 512) 0;
            (token, u) \<leftarrow> strtok 0 blank (u\<lparr>um := m\<rparr>);
            u \<leftarrow> parse_command_loop blank root_command token u;
            Some (root_command, u)
          }
        }
      })"

definition liebeos_system_run :: "ptr \<Rightarrow> ptr \<Rightarrow> ptr \<Rightarrow> ptr \<Rightarrow> user \<Rightarrow> (u32 \<times> user) option" where
  "liebeos_system_run buf scommand blank command u =
     do {
       let u = u\<lparr>um := snd (strncpy (um u) buf command 1024)\<rparr>;
       (root, u) \<leftarrow> liebeos_parse_command scommand blank buf 1024 u;
       if root = 0 then Some (c_uint (- 1), u) else liebeos_system root u
     }"

section \<open>Programs\<close>

definition main_wrapper :: "(int \<Rightarrow> ptr \<Rightarrow> user \<Rightarrow> (int \<times> user) option) \<Rightarrow> ptr \<Rightarrow> user \<Rightarrow> user option" where
  "main_wrapper main arguments u =
     do {
       u \<leftarrow> liebeos_process_get_arguments arguments u;
       (_, u) \<leftarrow> main (c_int (load32 (um u) arguments)) (load32 (um u) (arguments + 4)) u;
       Some u
     }"

definition user_start :: "(int \<Rightarrow> ptr \<Rightarrow> user \<Rightarrow> (int \<times> user) option) \<Rightarrow> ptr \<Rightarrow> user \<Rightarrow> user option" where
  "user_start main arguments u = map_option liebeos_exit (main_wrapper main arguments u)"

text \<open>One turn of the shell; \<^verbatim>\<open>shell\<close> repeats it for ever.\<close>

definition shell_turn :: "ptr \<Rightarrow> ptr \<Rightarrow> ptr \<Rightarrow> ptr \<Rightarrow> ptr \<Rightarrow> ptr \<Rightarrow> user \<Rightarrow> user option" where
  "shell_turn prompt newline blank buf run_buf scommand u =
     do {
       u \<leftarrow> liebeos_terminal_readline buf 1024 True (user_print prompt u);
       (_, u) \<leftarrow> liebeos_system_run run_buf scommand blank buf (user_print newline u);
       Some u
     }"

function echo_loop :: "ptr \<Rightarrow> int \<Rightarrow> ptr \<Rightarrow> int \<Rightarrow> user \<Rightarrow> user" where
  "echo_loop blank argc argv i u =
     (if i < argc then
        let u = user_print (load32 (um u) (argv + 4 * c_uint i)) u;
            u = (if i + 1 < argc then user_print blank u else u)
        in echo_loop blank argc argv (i + 1) u
      else u)"
  by pat_completeness auto
termination by (relation "measure (\<lambda>(b, argc, argv, i, u). nat (argc - i))") auto

definition echo_main :: "ptr \<Rightarrow> ptr \<Rightarrow> int \<Rightarrow> ptr \<Rightarrow> user \<Rightarrow> int \<times> user" where
  "echo_main newline blank argc argv u =
     (if argc = 1 then (0, u)
      else (0, user_print newline (echo_loop blank argc argv 1 (user_print newline u))))"

definition blank_main :: "ptr \<Rightarrow> ptr \<Rightarrow> ptr \<Rightarrow> user \<Rightarrow> (int \<times> user) option" where
  "blank_main loaded ap name u = do { (_, u) \<leftarrow> printf loaded ap u; Some (0, user_print name u) }"

end
