(* ===== verification/SyscallPrint.thy ===== *)
theory SyscallPrint
  imports SyscallMem TaskCopy Userlib
begin

text \<open>
  The system call that prints, from end to end: the pointer on the stack of the program, its text read through its page
  directory into a buffer of the kernel, and the screen.
\<close>

lemma printed_text: "printed m p = text_at m p 1023"
  by (simp add: printed_def text_at_def)

text \<open>What stays of a process when only bytes beside the heap are written.\<close>

lemma owned_not_off:
  assumes p: "pgd_at h m A ob db bs" and a: "owned_byte (block_addr h) A a"
  shows "\<not> off_heap h a"
proof -
  obtain b k where b: "A b = Some k" "in_range (block_addr h b) (4096 * k) a" using a by (auto simp: owned_byte_def)
  then have "own_pages A (insert ob (insert db (set bs))) b = Some k" using pgd_atD(6-8) [OF p] by (auto simp: own_pages_def)
  then show ?thesis using owned_in_heap [OF pgd_atD(1) [OF p]] b(2) by (simp add: off_heap_def)
qed

lemma process_mem_off_heap:
  assumes p: "process_mem h m A process ob db bs" and w: "\<And>a. \<not> off_heap h a \<Longrightarrow> m' a = m a"
  shows "process_mem h m' A process ob db bs" and "avail h m' = avail h m"
    and "is_page_aligned v \<Longrightarrow> paging_get (block_addr h db) v m' = paging_get (block_addr h db) v m"
proof -
  have k: "m' a = m a" if "\<not> kept_byte h A a" for a using w off_heap_kept that by blast
  note d = process_memD(1) [OF p]
  show "avail h m' = avail h m" by (rule pgd_at_kept_write(2) [OF d]) (rule k)
  show "is_page_aligned v \<Longrightarrow> paging_get (block_addr h db) v m' = paging_get (block_addr h db) v m"
    by (rule pgd_at_kept_write(3) [OF d]) (rule k)
  have o: "m' a = m a" if "owned_byte (block_addr h) A a" for a by (rule w [OF owned_not_off [OF d that]])
  show "process_mem h m' A process ob db bs"
    by (rule process_mem_map [OF p pgd_at_kept_write(1) [OF d k] o])
qed

section \<open>The screen\<close>

lemma screen_at_cong:
  assumes "video_mem s' = video_mem s" "terminal_row s' = terminal_row s" "terminal_col s' = terminal_col s" and L: "2 * L \<le> 4294967296"
    and w: "\<And>a. in_range (video_mem s) (2 * L) a \<Longrightarrow> km s' a = km s a"
  shows "screen_at L s' = screen_at L s"
proof -
  have "load16 (km s') (video_mem s + of_nat (2 * k)) = load16 (km s) (video_mem s + of_nat (2 * k))" if "k < L" for k
  proof -
    have "in_range (video_mem s) (2 * L) (video_mem s + of_nat (2 * k))" "in_range (video_mem s) (2 * L) (video_mem s + of_nat (2 * k + 1))"
      using that L by (auto intro!: in_range_of_nat simp del: of_nat_add of_nat_mult of_nat_Suc)
    then show ?thesis using w by (simp add: load16_def ac_simps)
  qed
  then show ?thesis using assms(1-3) by (simp add: screen_at_def)
qed

lemma kernel_page_console [simp]:
  "video_mem (kernel_page s) = video_mem s" "terminal_row (kernel_page s) = terminal_row s" "terminal_col (kernel_page s) = terminal_col s"
  by (simp_all add: kernel_page_def kernel_registers_def Let_def)

lemma syscall_state_console [simp]:
  "video_mem (syscall_state frame s) = video_mem s" "terminal_row (syscall_state frame s) = terminal_row s"
  "terminal_col (syscall_state frame s) = terminal_col s"
  by (simp_all add: syscall_state_def)

lemma task_page_screen [simp]: "screen_at L (snd (task_page s)) = screen_at L s"
  by (simp add: screen_at_def task_page_def task_switch_def user_registers_def Let_def)

lemma terminal_frame_task:
  assumes "terminal_frame L s s'"
  shows "current_task s' = current_task s"
proof -
  have "s' = s\<lparr>km := km s', terminal_row := terminal_row s', terminal_col := terminal_col s'\<rparr>" using assms by (simp add: terminal_frame_def)
  then have "current_task s' = current_task (s\<lparr>km := km s', terminal_row := terminal_row s', terminal_col := terminal_col s'\<rparr>)" by simp
  then show ?thesis by simp
qed

section \<open>The system call\<close>

text \<open>The text a program may print: neither its addresses nor the places they are mapped to are in a free block, in the
  table of the heap or in the tables of the page directory.\<close>

definition readable :: "heap \<Rightarrow> (nat \<rightharpoonup> nat) \<Rightarrow> ptr \<Rightarrow> mem \<Rightarrow> ptr \<Rightarrow> nat \<Rightarrow> bool" where
  "readable h A dir m p n \<longleftrightarrow> (\<forall>i<n. kept_byte h A (p + of_nat i) \<and> kept_byte h A (paging_get_physical_address dir (p + of_nat i) m))"

lemma isr80h_command1_printE:
  fixes s :: "'a system_scheme"
  assumes mem: "process_mem (kheap s) m A process ob db bs" and s1: "kheap s1 = kheap s" "km s1 = m" "current_task s1 = ps_task (process_at m process)"
    and t: "t = printed (seen (block_addr (kheap s) db) m) msg" and rd: "readable (kheap s) A (block_addr (kheap s) db) m msg (Suc (length t))"
    and av: "0 < avail (kheap s) m" and buf: "\<forall>a. in_range buffer 1024 a \<longrightarrow> off_heap (kheap s) a"
  obtains m2 c where "copy_string_from_task (current_task s1) msg buffer 1024 s1 = (0, s1\<lparr>data_selector := 0x10, cpu := c, km := m2\<rparr>)"
    "process_mem (kheap s) m2 A process ob db bs" "avail (kheap s) m2 = avail (kheap s) m" "cstr m2 buffer t"
    "\<And>a. kept_byte (kheap s) A a \<Longrightarrow> \<not> in_range buffer 1024 a \<Longrightarrow> m2 a = m a"
    "\<And>v. is_page_aligned v \<Longrightarrow> paging_get (block_addr (kheap s) db) v m2 = paging_get (block_addr (kheap s) db) v m"
proof -
  let ?h = "kheap s" and ?t = "ps_task (process_at m process)"
  note d = process_memD(1) [OF mem]
  have f: "heap_fits ?h m 1024" by (rule kz.avail_fits [OF pgd_atD(1) [OF d] av]) simp_all
  have own: "owned_byte (block_addr ?h) A a" if "in_range ?t 4 a" for a
    using mem in_range_mono [OF that, of 64] by (simp add: process_mem_def)
  have task: "load32 m ?t = block_addr ?h ob" using mem by (simp add: process_mem_def task_at_def)
  show thesis
  proof (rule copy_string_from_taskE [of s1 A ob db bs 1024 ?t t msg buffer, unfolded s1])
    fix m2 c assume c: "copy_string_from_task ?t msg buffer 1024 s1 = (0, s1\<lparr>data_selector := 0x10, cpu := c, km := m2\<rparr>)"
      "pgd_at ?h m2 A ob db bs" "avail ?h m2 = avail ?h m" "cstr m2 buffer t"
      "\<And>a. kept_byte ?h A a \<Longrightarrow> \<not> in_range buffer (nat 1024) a \<Longrightarrow> m2 a = m a"
      "\<And>v. is_page_aligned v \<Longrightarrow> paging_get (block_addr ?h db) v m2 = paging_get (block_addr ?h db) v m"
    have "m2 a = m a" if "owned_byte (block_addr ?h) A a" for a
      using c(5) buf owned_not_off [OF d that] that by (auto simp: kept_byte_def)
    then have "process_mem ?h m2 A process ob db bs" by (rule process_mem_map [OF mem c(2)])
    then show thesis using that c s1(3) by simp
  qed (use d f own task t rd buf in \<open>auto simp: printed_text readable_def simp del: process_at_simps\<close>)
qed

text \<open>C5. A process that makes the system call 1 with a pointer on its stack has its text on the screen: the characters that
  it sees behind the pointer through its own page directory, up to the first zero and at most 1023, as the library
  counts them (\<open>printed\<close>). After the call no block is taken, every page of the process is mapped as before, its
  memory is in order and its registers are kept. The heap has a free block, the buffer and the screen are beside the
  heap, and there is room on the screen.\<close>

theorem syscall_print:
  assumes "process_mem (kheap s) (km s) A process ob db bs"
    and "current_task s = ps_task (process_at (km s) process)" and "current_task s \<noteq> 0"
    and "isr80h_commnads s ! 1 = Some Command1_print" and "0 < avail (kheap s) (km s)"
    and "m = task_save_state (current_task s) frame (km s)" and "msg = load32 (seen (block_addr (kheap s) db) m) (if_esp frame)"
    and "t = printed (seen (block_addr (kheap s) db) m) msg"
    and "readable (kheap s) A (block_addr (kheap s) db) m msg (Suc (length t))"
    and "\<forall>a. in_range (print_buffer env) 1024 a \<or> in_range (video_mem s) (2 * L) a \<longrightarrow> off_heap (kheap s) a"
    and "disj_range (video_mem s) (2 * L) (print_buffer env) 1024"
    and "unat (terminal_col s) < VGA_WIDTH" and "cursor (screen_at L s) + VGA_WIDTH * length t < L" and "L \<le> 5242800"
  shows "\<exists>s'. isr80h_handler env 1 frame s = Some (Returned 0 s') \<and> screen_at L s' = fold screen_put t (screen_at L s)
    \<and> process_mem (kheap s) (km s') A process ob db bs \<and> avail (kheap s) (km s') = avail (kheap s) (km s)
    \<and> (\<forall>v. is_page_aligned v \<longrightarrow> paging_get (cr3 (cpu s')) v (km s') = paging_get (block_addr (kheap s) db) v (km s))
    \<and> cr3 (cpu s') = block_addr (kheap s) db \<and> data_selector s' = 0x23
    \<and> task_return (current_task s' + 4) esp flags (km s') = task_return (current_task s + 4) esp flags m"
proof -
  let ?h = "kheap s" and ?t = "current_task s" and ?s = "syscall_state frame s" and ?buf = "print_buffer env"
  note arg = syscall_argument [OF assms(1,2,6)]
  note item = arg(8) [folded assms(7)]
  note d = process_memD [OF arg(1)]
  define s1 where "s1 = kernel_page ?s"
  have s1: "kheap s1 = ?h" "km s1 = m" "current_task s1 = ps_task (process_at m process)" using arg(6) assms(6) by (simp_all add: s1_def)
  have buf: "\<forall>a. in_range ?buf 1024 a \<longrightarrow> off_heap ?h a" using assms(10) by blast
  have av: "0 < avail ?h m" using arg(2) assms(5) by simp
  obtain m2 c where c: "copy_string_from_task (current_task s1) msg ?buf 1024 s1 = (0, s1\<lparr>data_selector := 0x10, cpu := c, km := m2\<rparr>)"
      "process_mem ?h m2 A process ob db bs" "avail ?h m2 = avail ?h m" "cstr m2 ?buf t"
      "\<And>a. kept_byte ?h A a \<Longrightarrow> \<not> in_range ?buf 1024 a \<Longrightarrow> m2 a = m a"
      "\<And>v. is_page_aligned v \<Longrightarrow> paging_get (block_addr ?h db) v m2 = paging_get (block_addr ?h db) v m"
    by (rule isr80h_command1_printE [OF arg(1) s1 assms(8,9) av buf]) (rule that; assumption)
  define s2 where "s2 = s1\<lparr>data_selector := 0x10, cpu := c, km := m2\<rparr>"
  have vid: "video_mem s2 = video_mem s" "terminal_row s2 = terminal_row s" "terminal_col s2 = terminal_col s" "km s2 = m2"
      "current_task s2 = ?t" by (simp_all add: s2_def s1_def)
  have task: "owned_byte (block_addr ?h) A a" if "in_range ?t 64 a" for a
    using assms(1,2) that by (simp add: process_mem_def del: process_at_simps)
  have same: "km s2 a = km s a" if a: "in_range (video_mem s) (2 * L) a" for a
  proof -
    have o: "off_heap ?h a" using assms(10) a by blast
    then have "\<not> in_range ?t 64 a" using owned_not_off [OF process_memD(1) [OF assms(1)] task] by blast
    then have "m a = km s a" unfolding assms(6) by (rule task_save_state_other)
    then show ?thesis using c(5) [OF off_heap_kept [OF o]] disj_rangeD [OF assms(11) a] vid(4) by simp
  qed
  have sc: "screen_at L s2 = screen_at L s" by (rule screen_at_cong [OF vid(1-3)]) (use assms(14) same in simp_all)
  have len: "length t \<le> 1024" using text_at_length [of "seen (block_addr ?h db) m" msg 1023] by (simp add: assms(8) printed_text)
  obtain s3 where s3: "print ?buf s2 = Some s3" "screen_at L s3 = fold screen_put t (screen_at L s)" "terminal_frame L s2 s3"
    using print_cstr [of s2 ?buf t L] c(4) vid assms(12-14) sc disj_range_mono [OF assms(11) order_refl len] by auto
  have fr: "km s3 a = m2 a" if "\<not> off_heap ?h a" for a
    using s3(3) vid(1,4) assms(10) that by (auto simp: terminal_frame_def)
  have keep: "process_mem ?h (km s3) A process ob db bs" "avail ?h (km s3) = avail ?h m2"
      "is_page_aligned v \<Longrightarrow> paging_get (block_addr ?h db) v (km s3) = paging_get (block_addr ?h db) v m2" for v
    by (rule process_mem_off_heap [OF c(2)]; (rule fr; assumption | assumption))+
  have ct: "current_task s3 = ?t" using terminal_frame_task [OF s3(3)] vid(5) by simp
  have own: "km s3 a = m a" if "owned_byte (block_addr ?h) A a" for a
    using fr c(5) buf owned_not_off [OF d(1) that] that by (auto simp: kept_byte_def)
  have dir: "get_page_directory_entry (tk_page_directory (task_at (km s3) ?t)) (km s3) = block_addr ?h db"
    using process_memD(3) [OF keep(1)] process_fields_cong(1) [of process "km s3" m] own d(5) arg(6)
    by (simp add: process_directory_def del: process_at_simps)
  have "isr80h_handle_command env 1 ?s = Some (Returned 0 s3)"
    using assms(4) item c(1) s3(1) s1(3) arg(6)
    by (simp add: isr80h_handle_command_def isr80h_run_def isr80h_command1_print_def task_current_def s1_def s2_def del: process_at_simps)
  note run = isr80h_handler_run [OF assms(3) this]
  have "registers_at (km s3) (?t + 4) = registers_at m (?t + 4)" by (rule registers_at_cong) (use own task in blast)
  then show ?thesis
    using run s3(2) keep dir c(3,6) arg(2,5) by (intro exI [of _ "snd (task_page s3)"]) (simp add: ct task_return_def)
qed

text \<open>The process of the other examples prints \<^verbatim>\<open>Hi\<close>; its frame has the pointer where its task keeps \<^verbatim>\<open>eax\<close>.\<close>

definition print_memory :: mem where
  "print_memory = (km started_kernel)(0x5000 := 72, 0x5001 := 105, 0x5002 := 0)"

definition print_system :: system where
  "print_system = malloc_system\<lparr>km := print_memory, video_mem := 0xB8000, terminal_row := 0, terminal_col := 0,
     isr80h_commnads := replicate 1024 (Some Command1_print)\<rparr>"

definition print_frame :: interrupt_frame where
  "print_frame = example_frame\<lparr>if_eax := 0x5000, if_esp := current_task print_system + 28\<rparr>"

lemma print_system_mem:
  obtains A ob db bs where "process_mem kernel_heap print_memory A (fst lone_process) ob db bs" "0 < avail kernel_heap print_memory"
    "\<And>v. is_page_aligned v \<Longrightarrow> paging_get (block_addr kernel_heap db) v print_memory = v OR 5"
    "current_task print_system = ps_task (process_at print_memory (fst lone_process))"
    "current_task print_system \<noteq> 0"
proof (rule started_kernel_mem)
  fix A ob db bs
  let ?s = started_kernel and ?p = "fst lone_process"
  assume a: "process_mem (kheap ?s) (km ?s) A ?p ob db bs" "0 < avail (kheap ?s) (km ?s)" "kheap ?s = kernel_heap"
    "table_words kernel_heap 5 (km ?s) bs" "ps_task (process_at (km ?s) ?p) \<noteq> 0"
  note d = process_memD(1) [OF a(1) [unfolded a(3)]]
  have w: "print_memory a = km ?s a" if "\<not> off_heap kernel_heap a" for a
    using that by (auto simp: print_memory_def off_heap_def in_range_def)
  have mem: "process_mem kernel_heap print_memory A ?p ob db bs" "avail kernel_heap print_memory = avail kernel_heap (km ?s)"
    by (rule process_mem_off_heap [OF a(1) [unfolded a(3)]]; rule w; assumption)+
  have get: "paging_get (block_addr kernel_heap db) v print_memory = v OR 5" if v: "is_page_aligned v" for v
    using process_mem_off_heap(3) [OF a(1) [unfolded a(3)] w v] table_words_get [OF d a(4) v] by simp
  have t: "ps_task (process_at print_memory ?p) = ps_task (process_at (km ?s) ?p)"
    by (rule process_fields_cong(1), rule w, rule owned_not_off [OF d]) (use process_memD(5) [OF a(1)] a(3) in simp)
  show thesis
    by (rule that [OF mem(1) _ get]) (use mem(2) a(2,3,5) t in \<open>simp_all add: print_system_def malloc_system_def del: process_at_simps\<close>)
qed

theorem syscall_print_witness:
  "\<forall>env. \<exists>s'. isr80h_handler (env\<lparr>print_buffer := 0x500000\<rparr>) 1 print_frame print_system = Some (Returned 0 s')
     \<and> cells (screen_at 2000 s') ! 0 = 0x0F48 \<and> cells (screen_at 2000 s') ! 1 = 0x0F69 \<and> cursor (screen_at 2000 s') = 2"
proof (rule allI, rule print_system_mem)
  fix env :: "system environment" and A ob db bs
  let ?s = print_system and ?p = "fst lone_process" and ?h = kernel_heap and ?env = "env\<lparr>print_buffer := 0x500000\<rparr>"
  let ?t = "current_task print_system" and ?dir = "block_addr kernel_heap db"
  let ?m = "task_save_state ?t print_frame print_memory"
  assume a: "process_mem ?h print_memory A ?p ob db bs" "0 < avail ?h print_memory"
    "\<And>v. is_page_aligned v \<Longrightarrow> paging_get ?dir v print_memory = v OR 5"
    "?t = ps_task (process_at print_memory ?p)" "?t \<noteq> 0"
  have s: "kheap ?s = ?h" "km ?s = print_memory" "video_mem ?s = 0xB8000" "terminal_row ?s = 0" "terminal_col ?s = 0"
      "isr80h_commnads ?s ! 1 = Some Command1_print" by (simp_all add: print_system_def malloc_system_def)
  note arg = syscall_argument [of ?s A ?p ob db bs ?m print_frame, unfolded s, OF a(1,4) refl]
  have get: "paging_get ?dir v ?m = v OR 5" if "is_page_aligned v" for v using arg(5) a(3) that by simp
  have id: "seen ?dir ?m = ?m" by (rule seen_identity) (rule get)
  have ph: "paging_get_physical_address ?dir v ?m = v" for v by (rule physical_identity) (rule get)
  have off: "off_heap ?h (0x5000 + of_nat i)" if "i < 3" for i
    using that by (auto simp: off_heap_def in_range_def less_Suc_eq numeral_3_eq_3)
  have out: "\<not> in_range ?t 64 (0x5000 + of_nat i)" if "i < 3" for i
  proof -
    have "owned_byte (block_addr ?h) A b" if "in_range ?t 64 b" for b
      using a(1,4) that by (simp add: process_mem_def del: process_at_simps)
    then show ?thesis using owned_not_off [OF process_memD(1) [OF a(1)]] off [OF that] by blast
  qed
  from out [of 0] out [of 1] out [of 2] have str: "?m 0x5000 = 72" "?m 0x5001 = 105" "?m 0x5002 = 0"
    by (simp_all add: task_save_state_other print_memory_def)
  have t: "[72, 105] = printed (seen ?dir ?m) 0x5000"
    using text_at_cstr [of ?m "0x5000" "[72, 105]" 1023] str by (simp add: printed_text id)
  have msg: "0x5000 = load32 (seen ?dir ?m) (if_esp print_frame)"
    unfolding id by (simp add: task_save_state_def print_frame_def Let_def mem_simps)
  have rd: "readable ?h A ?dir ?m 0x5000 (Suc (length [72, 105 :: u8]))"
    using off_heap_kept [OF off] by (simp add: readable_def ph)
  have "disj_range 0x500000 1024 0x7E00 25600" "disj_range 0x500000 1024 0x1000000 104857600" "disj_range 0xB8000 4000 0x7E00 25600"
      "disj_range 0xB8000 4000 0x1000000 104857600" by (simp_all add: disj_range_def)
  then have far: "\<forall>a. in_range (print_buffer ?env) 1024 a \<or> in_range (video_mem ?s) (2 * 2000) a \<longrightarrow> off_heap ?h a"
    using disj_rangeD by (auto simp: s off_heap_def)
  have sc: "cursor (screen_at 2000 ?s) = 0" "length (cells (screen_at 2000 ?s)) = 2000"
    by (simp_all add: screen_at_def s)
  show "\<exists>s'. isr80h_handler ?env 1 print_frame ?s = Some (Returned 0 s')
     \<and> cells (screen_at 2000 s') ! 0 = 0x0F48 \<and> cells (screen_at 2000 s') ! 1 = 0x0F69 \<and> cursor (screen_at 2000 s') = 2"
    using syscall_print [where s = ?s and A = A and process = ?p and ob = ob and db = db and bs = bs and m = ?m and frame = print_frame
        and msg = "0x5000" and t = "[72, 105]" and env = ?env and L = 2000 and esp = 0 and flags = 0, unfolded s(1,2),
        OF a(1,4,5) s(6) a(2) refl msg t rd far] sc
    by (auto simp: s disj_range_def screen_put_def terminal_make_char_def)
qed

end
