(* ===== verification/KeyEvents.thy ===== *)
theory KeyEvents
  imports SyscallMem
begin

text \<open>
  The keyboard as a program knows it: scan codes that arrive as interrupts and keys that it asks for with system call 2,
  in any order, against a machine of two values, the state of caps lock and the characters that wait.
\<close>

section \<open>The reference\<close>

text \<open>A key pressed or released, or a program that asks for a key; the frame is what the processor saved.\<close>

datatype key_event = Scan interrupt_frame u8 | Getkey interrupt_frame

text \<open>The character of a key: the table has capital letters, which are small while caps lock is off.\<close>

definition key_char :: "u8 \<Rightarrow> bool \<Rightarrow> u8 \<Rightarrow> u8" where
  "key_char behind caps code =
     (if length keyboard_scan_set_one < unat code then 0
      else let c = (keyboard_scan_set_one @ [behind]) ! unat code in if \<not> caps \<and> 65 \<le> sint c \<and> sint c \<le> 90 then c + 32 else c)"

text \<open>A scan code: releases are ignored, caps lock switches, another key is a character that waits behind the others. \<open>None\<close>
  is a key for which there is no room.\<close>

definition scan_step :: "u8 \<Rightarrow> u8 \<Rightarrow> bool \<times> u8 list \<Rightarrow> (bool \<times> u8 list) option" where
  "scan_step behind code = (\<lambda>(caps, q).
     if bit code 7 then Some (caps, q)
     else if code = CLASSIC_KEYBOARD_CAPSLOCK then Some (\<not> caps, q)
     else if key_char behind caps code = 0 then Some (caps, q)
     else if 1024 \<le> length q then None
     else Some (caps, q @ [key_char behind caps code]))"

fun typed_run :: "u8 \<Rightarrow> key_event list \<Rightarrow> bool \<Rightarrow> u8 list \<Rightarrow> (u8 list \<times> bool \<times> u8 list) option" where
  "typed_run behind [] caps q = Some ([], caps, q)"
| "typed_run behind (Scan frame code # evs) caps q =
     (case scan_step behind code (caps, q) of None \<Rightarrow> None | Some (caps, q) \<Rightarrow> typed_run behind evs caps q)"
| "typed_run behind (Getkey frame # evs) caps q =
     (case q of [] \<Rightarrow> map_option (apfst (Cons 0)) (typed_run behind evs caps [])
      | c # q \<Rightarrow> map_option (apfst (Cons c)) (typed_run behind evs caps q))"

text \<open>The same events in the kernel: the answers of the system call, and \<open>None\<close> as soon as one of the handlers does not come
  back to the program.\<close>

fun kernel_run :: "'a system_scheme environment \<Rightarrow> u8 \<Rightarrow> key_event list \<Rightarrow> 'a system_scheme \<Rightarrow> (u32 list \<times> 'a system_scheme) option" where
  "kernel_run env behind [] s = Some ([], s)"
| "kernel_run env behind (Scan frame code # evs) s =
     (case interrupt_handler behind code ISR_KEYBOARD_INTERRUPT frame s of
        Returned _ s \<Rightarrow> kernel_run env behind evs s
      | _ \<Rightarrow> None)"
| "kernel_run env behind (Getkey frame # evs) s =
     (case isr80h_handler env 2 frame s of
        Some (Returned res s) \<Rightarrow> map_option (apfst (Cons res)) (kernel_run env behind evs s)
      | _ \<Rightarrow> None)"

section \<open>The relation\<close>

text \<open>The queue of the current process, the field of the keyboard structure, which is neither in the process nor in the
  task, and the two handlers in place.\<close>

definition keys_hold :: "'a system_scheme \<Rightarrow> bool \<Rightarrow> u8 list \<Rightarrow> bool" where
  "keys_hold s caps q \<longleftrightarrow> keyboard_holds s q \<and> load32 (km s) (classic_keyboard s + 28) = (if caps then 1 else 0)
     \<and> disj_range (current_process s) 9364 (classic_keyboard s + 28) 4 \<and> disj_range (current_task s) 64 (classic_keyboard s + 28) 4
     \<and> interrupt_callbacks s ! 0x21 = Some Classic_keyboard_handle_interrupt \<and> isr80h_commnads s ! 2 = Some Command2_getkey"

definition keys_same :: "'a system_scheme \<Rightarrow> 'a system_scheme \<Rightarrow> bool" where
  "keys_same s s' \<longleftrightarrow> current_task s' = current_task s \<and> current_process s' = current_process s \<and> classic_keyboard s' = classic_keyboard s
     \<and> interrupt_callbacks s' = interrupt_callbacks s \<and> isr80h_commnads s' = isr80h_commnads s"

lemma keys_same_simps [simp]:
  "keys_same s (kernel_page s)" "keys_same s (snd (task_page s))" "keys_same s (outb port val s)" "keys_same s (s\<lparr>km := m\<rparr>)"
  by (simp_all add: keys_same_def kernel_page_def kernel_registers_def task_page_def task_switch_def user_registers_def outb_def Let_def)

lemma keys_hold_same: "keys_hold s caps q \<Longrightarrow> keys_same s s' \<Longrightarrow> km s' = km s \<Longrightarrow> keys_hold s' caps q"
  by (simp add: keys_hold_def keys_same_def keyboard_holds_def)

lemma outb_km [simp]: "km (outb port val s) = km s"
  by (simp add: outb_def)

text \<open>What a step may write: the process, the registers in the task or the state of caps lock.\<close>

lemma keys_hold_process:
  assumes k: "keys_hold s caps q" and h: "keyboard_holds (s\<lparr>km := m\<rparr>) q'"
    and fr: "\<And>a. \<not> in_range (current_process s) 9364 a \<Longrightarrow> m a = km s a"
  shows "keys_hold (s\<lparr>km := m\<rparr>) caps q'"
proof -
  have "disj_range (current_process s) 9364 (classic_keyboard s + 28) 4" using k by (simp add: keys_hold_def)
  then have "load32 m (classic_keyboard s + 28) = load32 (km s) (classic_keyboard s + 28)"
    by (intro load32_cong fr) (rule disj_rangeD2)
  then show ?thesis using k h by (simp add: keys_hold_def)
qed

lemma keyboard_queue_cong:
  assumes "\<And>a. in_range p 9364 a \<Longrightarrow> m' a = m a"
  shows "keyboard_queue m' p q = keyboard_queue m p q"
proof -
  have w: "load32 m' (p + of_nat k) = load32 m (p + of_nat k)" if "k + 4 \<le> 9364" for k
    by (rule load32_cong) (use assms in_range_suffix(1) [of k 4 9364 p] that in simp)
  have b: "m' (p + of_nat (8324 + k mod 1024)) = m (p + of_nat (8324 + k mod 1024))" for k
  proof (rule assms, rule in_range_of_nat)
    show "8324 + k mod 1024 < 9364" using mod_less_divisor [of 1024 k] by linarith
  qed simp
  show ?thesis using w [of 9348] w [of 9352] b by (simp add: keyboard_queue_def del: of_nat_add)
qed

lemma keys_hold_save:
  assumes k: "keys_hold s caps q"
  shows "keys_hold (s\<lparr>km := task_save_state (current_task s) frame (km s)\<rparr>) caps q"
proof -
  let ?m = "task_save_state (current_task s) frame (km s)"
  have d: "disj_range (current_task s) 64 (current_process s) 9364" "disj_range (current_task s) 64 (classic_keyboard s + 28) 4"
    using k by (simp_all add: keys_hold_def keyboard_holds_def)
  have "keyboard_queue ?m (current_process s) q = keyboard_queue (km s) (current_process s) q"
    by (rule keyboard_queue_cong) (rule task_save_state_other [OF disj_rangeD2 [OF d(1)]])
  moreover have "load32 ?m (classic_keyboard s + 28) = load32 (km s) (classic_keyboard s + 28)"
    by (rule load32_cong) (rule task_save_state_other [OF disj_rangeD2 [OF d(2)]])
  ultimately show ?thesis
    using k task_save_state_fields(2) [of "current_task s" frame "km s"] by (simp add: keys_hold_def keyboard_holds_def task_at_def)
qed

lemma keys_hold_caps:
  assumes k: "keys_hold s caps q"
  shows "keys_hold (keyboard_set_capslock (classic_keyboard s) (if caps' then 1 else 0) s) caps' q"
proof -
  let ?m = "store32 (km s) (classic_keyboard s + 28) (if caps' then 1 else 0)"
  have d: "disj_range (current_process s) 9364 (classic_keyboard s + 28) 4" "disj_range (current_task s) 64 (classic_keyboard s + 28) 4"
    using k by (simp_all add: keys_hold_def)
  have "keyboard_queue ?m (current_process s) q = keyboard_queue (km s) (current_process s) q"
    by (rule keyboard_queue_cong) (rule store32_other [OF disj_rangeD [OF d(1)]])
  moreover have "load32 ?m (current_task s + 52) = load32 (km s) (current_task s + 52)"
  proof (rule load32_cong)
    fix a assume a: "in_range (current_task s + 52) 4 a"
    have "in_range (current_task s) 64 a" by (rule in_range_offset [OF _ _ a]) (simp_all add: in_range_def)
    then show "?m a = km s a" by (rule store32_other [OF disj_rangeD [OF d(2)]])
  qed
  moreover have "load32 ?m (classic_keyboard s + 28) = (if caps' then 1 else 0)" by (rule load32_store32)
  moreover have "keyboard_set_capslock (classic_keyboard s) (if caps' then 1 else 0) s = s\<lparr>km := ?m\<rparr>"
    by (simp add: keyboard_set_capslock_def)
  ultimately show ?thesis using k by (simp add: keys_hold_def keyboard_holds_def task_at_def)
qed

section \<open>Every event\<close>

lemma released_bit: "code AND CLASSIC_KEYBOARD_KEY_RELEASED \<noteq> 0 \<longleftrightarrow> bit code 7" for code :: u8
  using bit_iff_and_push_bit_not_eq_0 [of code 7] by simp

lemma scancode_char:
  "keys_hold s caps q \<Longrightarrow> classic_keyboard_scancode_to_char behind code s = key_char behind caps code"
  by (auto simp: classic_keyboard_scancode_to_char_def key_char_def keyboard_get_capslock_def keyboard_at_def keys_hold_def Let_def)

lemma classic_interrupt_hold:
  assumes k: "keys_hold s caps q" and st: "scan_step behind code (caps, q) = Some (caps', q')"
  shows "keys_hold (classic_keyboard_handle_interrupt behind code s) caps' q'"
proof -
  let ?s = "kernel_page s" and ?c = "key_char behind caps code"
  have k1: "keys_hold ?s caps q" by (rule keys_hold_same [OF k]) simp_all
  have c: "classic_keyboard_scancode_to_char behind code ?s = ?c" by (rule scancode_char [OF k1])
  have caps: "keyboard_get_capslock (classic_keyboard ?s) ?s = (if caps then 1 else 0)"
    using k1 by (simp add: keyboard_get_capslock_def keyboard_at_def keys_hold_def)
  have push: "keys_hold (keyboard_push ?c ?s) caps (q @ [?c])" if "?c \<noteq> 0" "length q < 1024"
  proof (rule keyboard_pushE [OF _ that])
    show "keyboard_holds ?s q" using k1 by (simp add: keys_hold_def)
    fix m assume m: "keyboard_push ?c ?s = ?s\<lparr>km := m\<rparr>" "keyboard_holds (?s\<lparr>km := m\<rparr>) (q @ [?c])"
      "\<And>a. \<not> in_range (current_process ?s) 9364 a \<Longrightarrow> m a = km ?s a"
    show ?thesis unfolding m(1) by (rule keys_hold_process [OF k1 m(2,3)])
  qed
  have page: "keys_hold (snd (task_page s')) x y" if "keys_hold s' x y" for s' :: "'a system_scheme" and x y
    by (rule keys_hold_same [OF that]) simp_all
  have "keys_hold (keyboard_set_capslock (classic_keyboard ?s) (if caps then 0 else 1) ?s) (\<not> caps) q"
    using keys_hold_caps [OF k1, of "\<not> caps"] by (simp split: if_splits)
  then show ?thesis
    using st k1 push page caps unfolding classic_keyboard_handle_interrupt_def scan_step_def Let_def released_bit c
    by (auto split: if_splits)
qed

lemma keyboard_interrupt_hold:
  assumes k: "keys_hold s caps q" and st: "scan_step behind code (caps, q) = Some (caps', q')"
  obtains s' where "interrupt_handler behind code ISR_KEYBOARD_INTERRUPT frame s = Returned () s'" "keys_hold s' caps' q'"
proof -
  let ?s = "kernel_page s" let ?s1 = "?s\<lparr>km := task_save_state (current_task ?s) frame (km ?s)\<rparr>"
  let ?s2 = "classic_keyboard_handle_interrupt behind code ?s1"
  have "keys_hold ?s caps q" by (rule keys_hold_same [OF k]) simp_all
  then have k2: "keys_hold ?s2 caps' q'" by (intro classic_interrupt_hold [OF _ st] keys_hold_save)
  have e: "interrupt_handler behind code ISR_KEYBOARD_INTERRUPT frame s = Returned () (outb 0x20 0x20 (snd (task_page ?s2)))"
    using k by (simp add: interrupt_handler_def Let_def task_current_save_state_def task_current_def callback_run_def
      keys_hold_def keyboard_holds_def)
  have "keys_hold (snd (task_page ?s2)) caps' q'" by (rule keys_hold_same [OF k2]) simp_all
  then have "keys_hold (outb 0x20 0x20 (snd (task_page ?s2))) caps' q'" by (rule keys_hold_same) simp_all
  then show thesis by (rule that [OF e])
qed

lemma getkey_hold:
  assumes k: "keys_hold s caps q"
  obtains s' where "isr80h_handler env 2 frame s = Some (Returned (if q = [] then 0 else scast (hd q)) s')" "keys_hold s' caps (tl q)"
proof -
  let ?s = "syscall_state frame s"
  have "keys_hold (kernel_page s) caps q" by (rule keys_hold_same [OF k]) simp_all
  from keys_hold_save [OF this, of frame] have k1: "keys_hold ?s caps q" by (simp add: syscall_state_def)
  obtain s2 where s2: "keyboard_pop ?s = (if q = [] then 0 else hd q, s2)" "keys_hold s2 caps (tl q)"
  proof (rule keyboard_pop_queue)
    show "keyboard_holds ?s q" using k1 by (simp add: keys_hold_def)
    fix m assume m: "keyboard_pop ?s = (if q = [] then (0, ?s) else (hd q, ?s\<lparr>km := m\<rparr>))"
      "q \<noteq> [] \<Longrightarrow> keyboard_holds (?s\<lparr>km := m\<rparr>) (tl q)"
      "\<And>a. q \<noteq> [] \<Longrightarrow> \<not> in_range (current_process ?s) 9364 a \<Longrightarrow> m a = km ?s a"
    show thesis
    proof (cases "q = []")
      case True
      then show thesis using that [of ?s] m(1) k1 by simp
    next
      case False
      then show thesis using that [of "?s\<lparr>km := m\<rparr>"] m keys_hold_process [OF k1 m(2) m(3)] by simp
    qed
  qed
  have "isr80h_handle_command env 2 ?s = Some (Returned (if q = [] then 0 else scast (hd q)) s2)"
    using k s2(1) by (simp add: isr80h_handle_command_def isr80h_run_def isr80h_command2_getkey_def keys_hold_def)
  then have "isr80h_handler env 2 frame s = Some (Returned (if q = [] then 0 else scast (hd q)) (snd (task_page s2)))"
    by (rule isr80h_handler_run [rotated]) (use k in \<open>simp add: keys_hold_def keyboard_holds_def\<close>)
  moreover have "keys_hold (snd (task_page s2)) caps (tl q)" by (rule keys_hold_same [OF s2(2)]) simp_all
  ultimately show thesis by (rule that)
qed

text \<open>C6. Whatever is typed, and whenever the program asks: the system call for a key answers as the reference does, with the
  characters of the pressed keys in their order and each once, small or capital as caps lock was when the key came, and
  with zero when none is waiting. Every interrupt and every call comes back to the program.\<close>

theorem keys_typed:
  assumes "keys_hold s caps q" and "typed_run behind evs caps q = Some (outs, caps', q')"
  shows "\<exists>s'. kernel_run env behind evs s = Some (map scast outs, s') \<and> keys_hold s' caps' q'"
  using assms
proof (induction evs arbitrary: s caps q outs)
  case Nil
  then show ?case by simp
next
  case (Cons e evs)
  show ?case
  proof (cases e)
    case (Scan frame code)
    obtain caps1 q1 where st: "scan_step behind code (caps, q) = Some (caps1, q1)" "typed_run behind evs caps1 q1 = Some (outs, caps', q')"
      using Cons.prems(2) Scan by (auto split: option.splits)
    obtain s1 where "interrupt_handler behind code ISR_KEYBOARD_INTERRUPT frame s = Returned () s1" "keys_hold s1 caps1 q1"
      by (rule keyboard_interrupt_hold [OF Cons.prems(1) st(1)])
    then show ?thesis using Cons.IH [OF _ st(2)] Scan by simp
  next
    case (Getkey frame)
    obtain os where os: "typed_run behind evs caps (tl q) = Some (os, caps', q')" "outs = (if q = [] then 0 else hd q) # os"
      using Cons.prems(2) Getkey by (cases q) auto
    obtain s1 where "isr80h_handler env 2 frame s = Some (Returned (if q = [] then 0 else scast (hd q)) s1)" "keys_hold s1 caps (tl q)"
      by (rule getkey_hold [OF Cons.prems(1)])
    then show ?thesis using Cons.IH [OF _ os(1)] os(2) Getkey by auto
  qed
qed

definition keys_system :: system where
  "keys_system = keyboard_system\<lparr>interrupt_callbacks := (replicate 512 None)[0x21 := Some Classic_keyboard_handle_interrupt],
     isr80h_commnads := replicate 1024 (Some Command2_getkey)\<rparr>"

text \<open>The keys \<^verbatim>\<open>h\<close>, caps lock, \<^verbatim>\<open>i\<close>, with their releases.\<close>

theorem keys_typed_witness:
  "\<forall>env. \<exists>s'. kernel_run env 0 [Getkey example_frame, Scan example_frame 0x23, Scan example_frame 0xA3, Scan example_frame 0x3A,
     Scan example_frame 0x17, Getkey example_frame, Getkey example_frame, Getkey example_frame] keys_system = Some ([0, 0x68, 0x49, 0], s')"
proof
  fix env :: "system environment"
  have "km keys_system a = 0" if "in_range 0xC01C 4 a" for a
  proof -
    have "\<not> in_range b 4 a" if "disj_range 0xC01C 4 b 4" for b using that \<open>in_range 0xC01C 4 a\<close> by (rule disj_rangeD)
    then show ?thesis by (simp add: keys_system_def keyboard_system_def example_kernel_def store32_other disj_range_def)
  qed
  then have "load32 (km keys_system) 0xC01C = 0" by (rule load32_zero)
  moreover have "keyboard_holds keys_system []" using keyboard_system_holds by (simp add: keys_system_def keyboard_holds_def)
  moreover have "classic_keyboard keys_system = 0xC000" "current_process keys_system = 0x20000" "current_task keys_system = 0x2000"
    by (simp_all add: keys_system_def keyboard_system_def example_system_def example_console_def console.defs system.defs kernel.defs example_kernel_def)
  ultimately have k: "keys_hold keys_system False []" by (simp add: keys_hold_def disj_range_def) (simp add: keys_system_def)
  have run: "typed_run 0 [Getkey example_frame, Scan example_frame 0x23, Scan example_frame 0xA3, Scan example_frame 0x3A,
     Scan example_frame 0x17, Getkey example_frame, Getkey example_frame, Getkey example_frame] False [] = Some ([0, 0x68, 0x49, 0], True, [])"
    by (simp add: scan_step_def key_char_def keyboard_scan_set_one_def Let_def)
  show "\<exists>s'. kernel_run env 0 [Getkey example_frame, Scan example_frame 0x23, Scan example_frame 0xA3, Scan example_frame 0x3A,
     Scan example_frame 0x17, Getkey example_frame, Getkey example_frame, Getkey example_frame] keys_system = Some ([0, 0x68, 0x49, 0], s')"
    using keys_typed [OF k run, of env] by auto
qed

end
