(* ===== verification/VfsTable.thy ===== *)
theory VfsTable
  imports Vfs PathProps
begin

text \<open>
  The table of open files as a typed table: what a slot may hold, that opening and closing keep it so, and that the
  number \<^verbatim>\<open>fopen\<close> returns leads every later call to the file that the file system opened.
\<close>

section \<open>The type of the table\<close>

text \<open>A slot is null or an owned block whose index field is the slot plus one.\<close>

definition fd_slot :: "heap \<Rightarrow> mem \<Rightarrow> (nat \<rightharpoonup> nat) \<Rightarrow> nat \<Rightarrow> ptr \<Rightarrow> bool" where
  "fd_slot h m A i p \<longleftrightarrow> p = 0 \<or>
     (\<exists>b. A b = Some 1 \<and> p = block_addr h b \<and> p \<noteq> 0 \<and> fdesc_index (file_descriptor_at m p) = int i + 1)"

definition fd_table :: "(nat \<rightharpoonup> nat) \<Rightarrow> 'a vfs_state_scheme \<Rightarrow> bool" where
  "fd_table A s \<longleftrightarrow> heap_rep (kheap s) (km s) A \<and> length (file_descriptors s) = 512
     \<and> (\<forall>i<512. fd_slot (kheap s) (km s) A i (file_descriptors s ! i))"

lemma fdesc_index_cong: "(\<And>a. in_range p 4 a \<Longrightarrow> m' a = m a) \<Longrightarrow>
    fdesc_index (file_descriptor_at m' p) = fdesc_index (file_descriptor_at m p)"
  using load32_cong [of p m' m] by (simp add: file_descriptor_at_def)

lemma fd_slot_keep:
  assumes "fd_slot h m A i p" and "\<And>b. A b = Some 1 \<Longrightarrow> p = block_addr h b \<Longrightarrow> A' b = Some 1"
    and "\<And>a. owned_byte (block_addr h) A' a \<Longrightarrow> m' a = m a"
  shows "fd_slot h m' A' i p"
proof (cases "p = 0")
  case False
  then obtain b where b: "A b = Some 1" "p = block_addr h b" "fdesc_index (file_descriptor_at m p) = int i + 1"
    using assms(1) by (auto simp: fd_slot_def)
  have b': "A' b = Some 1" by (rule assms(2) [OF b(1,2)])
  have "fdesc_index (file_descriptor_at m' p) = fdesc_index (file_descriptor_at m p)"
  proof (rule fdesc_index_cong, rule assms(3))
    fix a assume "in_range p 4 a"
    then have "in_range p (4096 * 1) a" by (rule in_range_mono) simp
    then show "owned_byte (block_addr h) A' a" using owned_byteI [of A' b 1, OF b'] b(2) by simp
  qed
  then show ?thesis using b b' False by (auto simp: fd_slot_def)
qed (simp add: fd_slot_def)

text \<open>A new descriptor: its block is beside the owned ones, and they keep their bytes.\<close>

lemma file_new_decriptor_typed:
  assumes t: "fd_table A s" and av: "0 < avail (kheap s) (km s)" and i: "free_slot (file_descriptors s) 0 = Some i"
  obtains b m where "file_new_decriptor s = (0, block_addr (kheap s) b,
      s\<lparr>km := m, file_descriptors := (file_descriptors s)[i := block_addr (kheap s) b]\<rparr>)"
    "A b = None" "block_addr (kheap s) b \<noteq> 0" "i < 512"
    "fd_table (A(b \<mapsto> 1)) (s\<lparr>km := m, file_descriptors := (file_descriptors s)[i := block_addr (kheap s) b]\<rparr>)"
    "Suc (avail (kheap s) m) = avail (kheap s) (km s)" "\<And>a. owned_byte (block_addr (kheap s)) A a \<Longrightarrow> m a = km s a"
proof -
  let ?h = "kheap s" and ?fds = "file_descriptors s"
  note rep = t [unfolded fd_table_def, THEN conjunct1]
  have len: "length ?fds = 512" and slots: "\<And>j. j < 512 \<Longrightarrow> fd_slot ?h (km s) A j (?fds ! j)" using t by (auto simp: fd_table_def)
  have i5: "i < 512" using i len by (simp add: free_slot_Some)
  have n: "0 < unat (16 :: u32)" "unat (16 :: u32) \<le> 4096" by simp_all
  obtain b where b: "fst (kzalloc ?h 16 (km s)) = block_addr ?h b" "A b = None" "block_addr ?h b \<noteq> 0"
    "\<And>b' k'. A b' = Some k' \<Longrightarrow> disj_range (block_addr ?h b) 4096 (block_addr ?h b') (4096 * k')"
    "heap_rep ?h (snd (kzalloc ?h 16 (km s))) (A(b \<mapsto> 1))" "Suc (avail ?h (snd (kzalloc ?h 16 (km s)))) = avail ?h (km s)"
    "\<And>a. owned_byte (block_addr ?h) A a \<Longrightarrow> snd (kzalloc ?h 16 (km s)) a = km s a"
    by (rule kz.alloc_page [OF rep av n]) (rule that; assumption)
  let ?p = "block_addr ?h b" and ?m1 = "snd (kzalloc ?h 16 (km s))" and ?B = "A(b \<mapsto> 1)"
  let ?m = "store32 ?m1 ?p (of_nat (i + 1))"
  have w: "?m a = ?m1 a" if "\<not> in_range ?p 4 a" for a using that by (rule store32_other)
  have out: "\<not> in_range ?p 4 a" if "owned_byte (block_addr ?h) A a" for a
    using that disj_rangeD2 [OF b(4)] in_range_mono [of ?p 4 a 4096] by (fastforce simp: owned_byte_def)
  have fresh: "owned_byte (block_addr ?h) ?B a" if "in_range ?p 4 a" for a
    using owned_byteI [of ?B b 1] in_range_mono [OF that, of "4096 * 1"] by simp
  have wB: "?m a = ?m1 a" if "\<not> owned_byte (block_addr ?h) ?B a" for a using w fresh that by blast
  have own: "?m a = km s a" if "owned_byte (block_addr ?h) A a" for a using w out b(7) that by simp
  have "fd_slot ?h ?m ?B j (?fds[i := ?p] ! j)" if j: "j < 512" for j
  proof (cases "j = i")
    case True
    have "fdesc_index (file_descriptor_at ?m ?p) = int i + 1"
      using c_int_of_nat [of "i + 1"] i5 by (simp add: file_descriptor_at_def load32_store32)
    then show ?thesis using True b(3) len j by (auto simp: fd_slot_def)
  next
    case False
    have "fd_slot ?h ?m A j (?fds ! j)" by (rule fd_slot_keep [OF slots [OF j]]) (use own in auto)
    then show ?thesis using False b(2) len j by (auto simp: fd_slot_def)
  qed
  moreover have "heap_rep ?h ?m ?B" by (rule heap_rep_write [OF b(5)]) (rule wB)
  ultimately have "fd_table ?B (s\<lparr>km := ?m, file_descriptors := ?fds[i := ?p]\<rparr>)" using len by (simp add: fd_table_def)
  moreover have "avail ?h ?m = avail ?h ?m1" by (rule kz.avail_write [OF b(5)]) (rule wB)
  moreover have "file_new_decriptor s = (0, ?p, s\<lparr>km := ?m, file_descriptors := ?fds[i := ?p]\<rparr>)"
    using i b(1) by (simp add: file_new_decriptor_def split_beta)
  ultimately show thesis using that [of b ?m] b(2,3,6) i5 own by simp
qed

text \<open>Releasing a descriptor: the slot is found by its index field, and the other slots have other blocks.\<close>

lemma file_free_descriptor_typed:
  assumes t: "fd_table A s" and i: "i < 512" "file_descriptors s ! i \<noteq> 0"
  obtains b s' where "file_descriptors s ! i = block_addr (kheap s) b" "A b = Some 1"
    "file_free_descriptor (file_descriptors s ! i) s = (0, s')" "fd_table (A(b := None)) s'"
    "file_descriptors s' = (file_descriptors s)[i := 0]" "avail (kheap s') (km s') = avail (kheap s) (km s) + 1" "kheap s' = kheap s"
proof -
  let ?h = "kheap s" and ?fds = "file_descriptors s"
  have rep: "heap_rep ?h (km s) A" and len: "length ?fds = 512"
    and slots: "\<And>j. j < 512 \<Longrightarrow> fd_slot ?h (km s) A j (?fds ! j)" using t by (auto simp: fd_table_def)
  obtain b where b: "A b = Some 1" "?fds ! i = block_addr ?h b" "fdesc_index (file_descriptor_at (km s) (?fds ! i)) = int i + 1"
    using slots [OF i(1)] i(2) by (auto simp: fd_slot_def)
  let ?m = "kfree ?h (?fds ! i) (km s)" and ?A = "A(b := None)"
  let ?s = "s\<lparr>file_descriptors := ?fds[i := 0], km := ?m\<rparr>"
  have frame: "?m a = km s a" if "owned_byte (block_addr ?h) A a" for a
    using kz.release_frame [OF rep b(1) that] by (simp add: b(2))
  have "fd_slot ?h ?m ?A j (?fds[i := 0] ! j)" if j: "j < 512" for j
  proof (cases "j = i")
    case False
    show ?thesis
    proof (simp add: False nth_list_update_neq [OF False [symmetric]], rule fd_slot_keep [OF slots [OF j]])
      fix c assume c: "A c = Some 1" "?fds ! j = block_addr ?h c"
      have "c \<noteq> b"
      proof
        assume "c = b"
        then have "?fds ! j = ?fds ! i" using c(2) b(2) by simp
        then have "fdesc_index (file_descriptor_at (km s) (?fds ! j)) = int i + 1" "?fds ! j \<noteq> 0" using b(3) i(2) by simp_all
        then show False using slots [OF j] False by (auto simp: fd_slot_def)
      qed
      then show "?A c = Some 1" using c(1) by simp
    next
      fix a assume "owned_byte (block_addr ?h) ?A a"
      then show "?m a = km s a" using frame kz.owned_byte_release(1) [OF rep b(1)] by blast
    qed
  qed (use j len in \<open>simp add: fd_slot_def\<close>)
  moreover have "heap_rep ?h ?m ?A" using kz.release_rep [OF rep b(1)] by (simp add: b(2))
  ultimately have "fd_table ?A ?s" using len by (simp add: fd_table_def)
  moreover have "avail ?h ?m = avail ?h (km s) + 1" using kz.avail_release [OF rep b(1)] by (simp add: b(2))
  moreover have "file_free_descriptor (?fds ! i) s = (0, ?s)" using b(3) by (simp add: file_free_descriptor_def)
  ultimately show thesis using that [of b ?s] b(1,2) by simp
qed

text \<open>A block that two representations own is named by one number.\<close>

lemma owned_addr_inj:
  assumes "heap_rep h m A" and "A b = Some k" and "heap_rep h m' B" and "B c = Some n" and "block_addr h b = block_addr h c"
  shows "b = c"
proof (rule ccontr)
  assume ne: "b \<noteq> c"
  have "0 < k" "0 < n" "b + k \<le> hp_total h" "c + n \<le> hp_total h"
    using heap_repD(2,3) [OF assms(1,2)] heap_repD(2,3) [OF assms(3,4)] by simp_all
  then have "disj_range (block_addr h b) (4096 * 1) (block_addr h c) (4096 * 1)"
    using ne by (intro run_disj [OF heap_repD(1) [OF assms(1)]]) auto
  then show False unfolding assms(5) by (simp add: disj_range_def)
qed

text \<open>Writing the other three fields of an open descriptor.\<close>

lemma fd_table_fields:
  fixes x y z :: u32
  assumes t: "fd_table A s" and i: "i < 512" and p: "p = file_descriptors s ! i" "p \<noteq> 0"
  defines "m' \<equiv> store32 (store32 (store32 (km s) (p + 4) x) (p + 8) y) (p + 12) z"
  shows "fd_table A (s\<lparr>km := m'\<rparr>)"
    and "file_descriptor_at m' p = \<lparr>fdesc_index = int i + 1, fdesc_filesystem = x, fdesc_pvt = y, fdesc_disk = z\<rparr>"
proof -
  let ?h = "kheap s" and ?fds = "file_descriptors s"
  have rep: "heap_rep ?h (km s) A" and slots: "\<And>j. j < 512 \<Longrightarrow> fd_slot ?h (km s) A j (?fds ! j)" using t by (auto simp: fd_table_def)
  obtain b where b: "A b = Some 1" "p = block_addr ?h b" "fdesc_index (file_descriptor_at (km s) p) = int i + 1"
    using slots [OF i] p by (auto simp: fd_slot_def)
  have fld: "in_range p 4096 a" if "in_range (p + of_nat k) 4 a" "k \<le> 12" for a k
    by (rule in_range_offset [OF in_range_of_nat _ that(1)]) (use that(2) unat_of_nat_u32 [of k] in simp_all)
  have w: "m' a = km s a" if "\<not> in_range p 4096 a" for a
  proof -
    have "\<not> in_range (p + 4) 4 a" "\<not> in_range (p + 8) 4 a" "\<not> in_range (p + 12) 4 a"
      using that fld [of 4 a] fld [of 8 a] fld [of 12 a] by auto
    then show ?thesis by (simp add: m'_def store32_other)
  qed
  show "file_descriptor_at m' p = \<lparr>fdesc_index = int i + 1, fdesc_filesystem = x, fdesc_pvt = y, fdesc_disk = z\<rparr>"
    using b(3) by (simp add: file_descriptor_at_def m'_def mem_simps)
  then have own: "fd_slot ?h m' A i (?fds ! i)" using b p by (auto simp: fd_slot_def)
  have "fd_slot ?h m' A j (?fds ! j)" if j: "j < 512" for j
  proof (cases "j = i \<or> ?fds ! j = 0")
    case True
    then show ?thesis using own by (auto simp: fd_slot_def)
  next
    case False
    then obtain c where c: "A c = Some 1" "?fds ! j = block_addr ?h c" "fdesc_index (file_descriptor_at (km s) (?fds ! j)) = int j + 1"
      using slots [OF j] by (auto simp: fd_slot_def)
    have "c \<noteq> b" using c(2,3) b(2,3) False by auto
    then have dj: "disj_range (block_addr ?h c) (4096 * 1) (block_addr ?h b) (4096 * 1)" by (rule heap_rep_disj [OF rep c(1) b(1)])
    have "fdesc_index (file_descriptor_at m' (?fds ! j)) = fdesc_index (file_descriptor_at (km s) (?fds ! j))"
    proof (rule fdesc_index_cong, rule w)
      fix a assume "in_range (?fds ! j) 4 a"
      then have "in_range (block_addr ?h c) (4096 * 1) a" unfolding c(2) by (rule in_range_mono) simp
      then show "\<not> in_range p 4096 a" using disj_rangeD [OF dj] b(2) by auto
    qed
    then show ?thesis using c False by (auto simp: fd_slot_def)
  qed
  moreover have "heap_rep ?h m' A"
    by (rule heap_rep_write [OF rep]) (use w owned_byteI [of A b 1, OF b(1)] b(2) in auto)
  ultimately show "fd_table A (s\<lparr>km := m'\<rparr>)" using t by (simp add: fd_table_def)
qed

section \<open>Properties\<close>

text \<open>C35. The table of open files keeps its type: every slot is null or an owned block whose index is the slot plus one,
  after a descriptor was made, beside the old ones or refused with a full table, and after any open one was released,
  whose number then names no file.\<close>

theorem descriptors_typed:
  assumes "fd_table A s"
  shows "(0 < avail (kheap s) (km s) \<longrightarrow> (case file_new_decriptor s of (res, desc, s') \<Rightarrow>
        if 0 \<in> set (file_descriptors s) then res = 0 \<and> (\<exists>b. A b = None \<and> desc = block_addr (kheap s) b \<and> fd_table (A(b \<mapsto> 1)) s')
        else res = - ENOMEM \<and> s' = s))
    \<and> (\<forall>fd. file_get_descriptor fd s \<noteq> 0 \<longrightarrow> (\<exists>b s'. A b = Some 1 \<and> file_get_descriptor fd s = block_addr (kheap s) b
        \<and> file_free_descriptor (file_get_descriptor fd s) s = (0, s') \<and> fd_table (A(b := None)) s' \<and> file_get_descriptor fd s' = 0))"
proof (intro conjI allI impI)
  assume av: "0 < avail (kheap s) (km s)"
  show "case file_new_decriptor s of (res, desc, s') \<Rightarrow>
      if 0 \<in> set (file_descriptors s) then res = 0 \<and> (\<exists>b. A b = None \<and> desc = block_addr (kheap s) b \<and> fd_table (A(b \<mapsto> 1)) s')
      else res = - ENOMEM \<and> s' = s"
  proof (cases "free_slot (file_descriptors s) 0")
    case None
    then have "0 \<notin> set (file_descriptors s)" by (auto simp: free_slot_None)
    then show ?thesis using None by (simp add: file_new_decriptor_def)
  next
    case (Some i)
    then have z: "0 \<in> set (file_descriptors s)" unfolding free_slot_Some using nth_mem [of i "file_descriptors s"] by auto
    obtain b m where n: "file_new_decriptor s = (0, block_addr (kheap s) b,
        s\<lparr>km := m, file_descriptors := (file_descriptors s)[i := block_addr (kheap s) b]\<rparr>)" "A b = None"
      "fd_table (A(b \<mapsto> 1)) (s\<lparr>km := m, file_descriptors := (file_descriptors s)[i := block_addr (kheap s) b]\<rparr>)"
      by (rule file_new_decriptor_typed [OF assms av Some]) (rule that; assumption)
    have "\<exists>c. A c = None \<and> block_addr (kheap s) b = block_addr (kheap s) c
      \<and> fd_table (A(c \<mapsto> 1)) (s\<lparr>km := m, file_descriptors := (file_descriptors s)[i := block_addr (kheap s) b]\<rparr>)"
      using n(2,3) by blast
    then show ?thesis using z unfolding n(1) by (simp only: prod.case if_True)
  qed
next
  fix fd assume d: "file_get_descriptor fd s \<noteq> 0"
  then have fd: "1 \<le> fd" "fd < 512" "file_get_descriptor fd s = file_descriptors s ! nat (fd - 1)"
    by (auto simp: file_get_descriptor_def split: if_splits)
  have i: "nat (fd - 1) < 512" "file_descriptors s ! nat (fd - 1) \<noteq> 0" using fd d by auto
  have len: "length (file_descriptors s) = 512" using assms by (simp add: fd_table_def)
  show "\<exists>b s'. A b = Some 1 \<and> file_get_descriptor fd s = block_addr (kheap s) b
      \<and> file_free_descriptor (file_get_descriptor fd s) s = (0, s') \<and> fd_table (A(b := None)) s' \<and> file_get_descriptor fd s' = 0"
  proof (rule file_free_descriptor_typed [OF assms i])
    fix b s' assume "file_descriptors s ! nat (fd - 1) = block_addr (kheap s) b" "A b = Some 1"
      "file_free_descriptor (file_descriptors s ! nat (fd - 1)) s = (0, s')" "fd_table (A(b := None)) s'"
      "file_descriptors s' = (file_descriptors s)[nat (fd - 1) := 0]"
    then show ?thesis using fd len i(1) by (intro exI [of _ b] exI [of _ s']) (simp add: file_get_descriptor_def)
  qed
qed

text \<open>C34. When \<^verbatim>\<open>fopen\<close> succeeds, the file system has opened the parsed path and the number that is returned leads every
  other call to the file system of the disk with the private data it gave on opening: \<^verbatim>\<open>fread\<close>, \<^verbatim>\<open>fseek\<close> and \<^verbatim>\<open>fstat\<close> are
  its calls, and so is \<^verbatim>\<open>fclose\<close>. A close that the file system refuses is reported and changes nothing more; after
  one that it accepts, leaving the table of open files in order, the number is no longer open, the block of the
  descriptor is free again and the table is in order.\<close>

theorem fopen_reaches_file:
  assumes "pathparser_parse (kheap s) filename (km s) = Some (root, m)" and "root \<noteq> 0" and "load32 m (root + 4) \<noteq> 0"
    and "disk_get (c_int (load32 m root)) s \<noteq> 0" and "filesystem (disk_obj s) = fs" and "fs \<noteq> 0"
    and "file_get_mode_by_string m mode_str \<noteq> FILE_MODE_INVALID"
    and "fs_open_fn (ops fs) (load32 m (root + 4)) (file_get_mode_by_string m mode_str) (s\<lparr>km := m\<rparr>) = Some (pvt, s2)"
    and "\<not> ISERR pvt" and "filesystem (disk_obj s2) = fs" and "fd_table A s2" and "0 < avail (kheap s2) (km s2)"
    and "i < 511" and "file_descriptors s2 ! i = 0" and "\<forall>j<i. file_descriptors s2 ! j \<noteq> 0"
  shows "\<exists>b s3. fopen ops filename mode_str s = Some (int i + 1, s3) \<and> A b = None \<and> fd_table (A(b \<mapsto> 1)) s3
    \<and> (\<forall>p sz n. sz \<noteq> 0 \<and> n \<noteq> 0 \<longrightarrow> fread ops p sz n (int i + 1) s3 = fs_read_fn (ops fs) pvt sz n p s3)
    \<and> (\<forall>off whence. fseek ops (int i + 1) off whence s3 = fs_seek_fn (ops fs) pvt (c_uint off) whence s3)
    \<and> (\<forall>st. fstat ops (int i + 1) st s3 = fs_stat_fn (ops fs) pvt st s3)
    \<and> (\<forall>res s4. fs_close_fn (ops fs) pvt s3 = (res, s4) \<and> res \<noteq> OK \<longrightarrow> fclose ops (int i + 1) s3 = (res, s4))
    \<and> (\<forall>s4 B. fs_close_fn (ops fs) pvt s3 = (OK, s4) \<and> fd_table B s4 \<and> kheap s4 = kheap s3 \<and> file_descriptors s4 = file_descriptors s3
         \<longrightarrow> (\<exists>s5. fclose ops (int i + 1) s3 = (OK, s5) \<and> fd_table (B(b := None)) s5
               \<and> file_descriptors s5 = (file_descriptors s3)[i := 0] \<and> file_get_descriptor (int i + 1) s5 = 0
               \<and> avail (kheap s5) (km s5) = avail (kheap s4) (km s4) + 1))"
proof -
  have slot: "free_slot (file_descriptors s2) 0 = Some i" using assms(11,13-15) by (simp add: free_slot_Some fd_table_def)
  obtain b m2 where n: "file_new_decriptor s2 = (0, block_addr (kheap s2) b,
      s2\<lparr>km := m2, file_descriptors := (file_descriptors s2)[i := block_addr (kheap s2) b]\<rparr>)"
    "A b = None" "block_addr (kheap s2) b \<noteq> 0"
    "fd_table (A(b \<mapsto> 1)) (s2\<lparr>km := m2, file_descriptors := (file_descriptors s2)[i := block_addr (kheap s2) b]\<rparr>)"
    by (rule file_new_decriptor_typed [OF assms(11,12) slot]) (rule that; assumption)
  let ?p = "block_addr (kheap s2) b" and ?fds = "(file_descriptors s2)[i := block_addr (kheap s2) b]"
  let ?m3 = "store32 (store32 (store32 m2 (?p + 4) fs) (?p + 8) pvt) (?p + 12) (disk_get (c_int (load32 m root)) s)"
  let ?s3 = "s2\<lparr>file_descriptors := ?fds, km := ?m3\<rparr>"
  let ?s2 = "s2\<lparr>km := m2, file_descriptors := ?fds\<rparr>"
  have len: "length (file_descriptors s2) = 512" using assms(11) by (simp add: fd_table_def)
  have pi: "?p = file_descriptors ?s2 ! i" "i < 512" using assms(13) len by simp_all
  note f = fd_table_fields [OF n(4) pi(2,1) n(3), where x = fs and y = pvt and z = "disk_get (c_int (load32 m root)) s"]
  have s3: "?s2\<lparr>km := store32 (store32 (store32 (km ?s2) (?p + 4) fs) (?p + 8) pvt) (?p + 12) (disk_get (c_int (load32 m root)) s)\<rparr> = ?s3"
    by simp
  have at: "file_descriptor_at (km ?s3) ?p = \<lparr>fdesc_index = int i + 1, fdesc_filesystem = fs, fdesc_pvt = pvt,
      fdesc_disk = disk_get (c_int (load32 m root)) s\<rparr>" using f(2) by simp
  have get: "file_get_descriptor (int i + 1) ?s3 = ?p" using assms(13) len by (simp add: file_get_descriptor_def)
  have dg: "disk_get x (s\<lparr>km := m\<rparr>) = disk_get x s" for x by (simp add: disk_get_def)
  have opened: "fopen ops filename mode_str s = Some (int i + 1, ?s3)"
    using assms(1-10) n(1) at dg by (simp add: fopen_def fopen_exit_def Let_def)
  have typed: "fd_table (A(b \<mapsto> 1)) ?s3" using f(1) unfolding s3 .
  have closed: "\<exists>s5. fclose ops (int i + 1) ?s3 = (OK, s5) \<and> fd_table (B(b := None)) s5
      \<and> file_descriptors s5 = (file_descriptors ?s3)[i := 0] \<and> file_get_descriptor (int i + 1) s5 = 0
      \<and> avail (kheap s5) (km s5) = avail (kheap s4) (km s4) + 1"
    if close: "fs_close_fn (ops fs) pvt ?s3 = (OK, s4)" and t4: "fd_table B s4"
      and k4: "kheap s4 = kheap ?s3" "file_descriptors s4 = file_descriptors ?s3" for s4 B
  proof -
    have p4: "file_descriptors s4 ! i = ?p" using k4(2) pi(1) by simp
    then have nz: "file_descriptors s4 ! i \<noteq> 0" using n(3) by simp
    obtain c s5 where c: "?p = block_addr (kheap s2) c" "B c = Some 1" "file_free_descriptor ?p s4 = (0, s5)"
      "fd_table (B(c := None)) s5" "file_descriptors s5 = ?fds[i := 0]"
      "avail (kheap s5) (km s5) = avail (kheap s4) (km s4) + 1"
    proof (rule file_free_descriptor_typed [OF t4 pi(2) nz], goal_cases)
      case (1 c s5)
      have "kheap s4 = kheap s2" "file_descriptors s4 = ?fds" using k4 by simp_all
      then show thesis using 1 p4 by (intro that [of c s5]) (simp_all only:)
    qed
    have rep: "heap_rep (kheap s2) (km ?s3) (A(b \<mapsto> 1))" "heap_rep (kheap s2) (km s4) B"
      using typed t4 k4(1) by (simp_all add: fd_table_def)
    have "b = c"
      by (rule owned_addr_inj [OF rep(1) _ rep(2) c(2) c(1)]) simp
    moreover have "fclose ops (int i + 1) ?s3 = (OK, s5)"
      using get at n(3) close c(3) by (simp add: fclose_def Let_def)
    moreover have "file_get_descriptor (int i + 1) s5 = 0"
      using c(5) assms(13) len by (simp add: file_get_descriptor_def)
    ultimately show ?thesis using c(4-6) by (intro exI [of _ s5]) simp
  qed
  have calls: "(\<forall>p sz n. sz \<noteq> 0 \<and> n \<noteq> 0 \<longrightarrow> fread ops p sz n (int i + 1) ?s3 = fs_read_fn (ops fs) pvt sz n p ?s3)
    \<and> (\<forall>off whence. fseek ops (int i + 1) off whence ?s3 = fs_seek_fn (ops fs) pvt (c_uint off) whence ?s3)
    \<and> (\<forall>st. fstat ops (int i + 1) st ?s3 = fs_stat_fn (ops fs) pvt st ?s3)
    \<and> (\<forall>res s4. fs_close_fn (ops fs) pvt ?s3 = (res, s4) \<and> res \<noteq> OK \<longrightarrow> fclose ops (int i + 1) ?s3 = (res, s4))"
    using n(3) get at by (simp add: fread_def fseek_def fstat_def fclose_def Let_def)
  show ?thesis
    using opened n(2) typed calls closed by (intro exI [of _ b] exI [of _ ?s3] conjI) blast+
qed

text \<open>An empty table, and opening \<^verbatim>\<open>0:/a//b/\<close> with a file system that opens everything.\<close>

definition vfs_example :: vfs_state where
  "vfs_example = \<lparr>km = example_path(0x600 := 114), kheap = kernel_heap,
     disk_obj = \<lparr>dk_type = 0, sector_size = 512, dk_id = 0, filesystem = 0x9000, fs_private = 0\<rparr>,
     disk_obj_at = 0x2000, filesystems = replicate 12 0, file_descriptors = replicate 512 0, fat16_name = []\<rparr>"

lemma vfs_example_kept:
  "heap_rep kernel_heap (example_path(0x600 := 114)) Map.empty" "avail kernel_heap (example_path(0x600 := 114)) = 25600"
proof -
  have "heap_rep kernel_heap (example_path(0x600 := 114)) Map.empty
      \<and> avail kernel_heap (example_path(0x600 := 114)) = hp_total kernel_heap"
    by (intro conjI heap_rep_empty) (auto simp: example_path_def in_range_def)
  then show "heap_rep kernel_heap (example_path(0x600 := 114)) Map.empty" "avail kernel_heap (example_path(0x600 := 114)) = 25600"
    by simp_all
qed

theorem descriptors_typed_witness:
  "\<exists>b. case file_new_decriptor vfs_example of (res, desc, s') \<Rightarrow> res = 0 \<and> desc = block_addr kernel_heap b \<and> fd_table [b \<mapsto> 1] s'"
proof -
  have t: "fd_table Map.empty vfs_example" using vfs_example_kept by (simp add: fd_table_def vfs_example_def fd_slot_def)
  have av: "0 < avail (kheap vfs_example) (km vfs_example)" using vfs_example_kept by (simp add: vfs_example_def)
  have z: "0 \<in> set (file_descriptors vfs_example)" and h: "kheap vfs_example = kernel_heap" by (simp_all add: vfs_example_def)
  obtain res desc s' where n: "file_new_decriptor vfs_example = (res, desc, s')" by (metis prod_cases3)
  show ?thesis using mp [OF conjunct1 [OF descriptors_typed [OF t]] av] z h n by auto
qed

theorem fopen_reaches_file_witness:
  "\<exists>s3 s5. fopen (\<lambda>_. null_fs) 0x500 0x600 vfs_example = Some (1, s3) \<and> fread (\<lambda>_. null_fs) 0x700 4 2 1 s3 = Some (0, s3)
     \<and> fclose (\<lambda>_. null_fs) 1 s3 = (0, s5) \<and> file_get_descriptor 1 s5 = 0"
proof -
  let ?m = "example_path(0x600 := 114)" and ?s = vfs_example and ?t = "[97, 47, 47, 98, 47] :: u8 list"
  have p: "cstr ?m 0x500 (48 # 58 # 47 # ?t)" by (simp add: example_path_def)
  have k: "\<forall>a. in_range 0x500 (length ?t + 4) a \<longrightarrow> kept_byte kernel_heap Map.empty a" using example_path(5) by auto
  have q: "(48 :: u8) \<le> 48" "(48 :: u8) \<le> 57" "length ?t < 4294967292" "\<forall>x\<in>set (path_parts ?t). length x < 108"
    "1 + 2 * length (path_parts ?t) \<le> avail kernel_heap ?m" using vfs_example_kept(2) by (simp_all add: example_path(4))
  obtain r m ns where n: "pathparser_parse kernel_heap 0x500 ?m = Some (block_addr kernel_heap r, m)" "block_addr kernel_heap r \<noteq> 0"
    "c_int (load32 m (block_addr kernel_heap r)) = int (unat (48 :: u8)) - 48" "nodes_at kernel_heap m (load32 m (block_addr kernel_heap r + 4)) ns"
    "map fst ns = path_parts ?t" "fresh_blocks Map.empty (r # node_blocks ns)" "heap_rep kernel_heap m (own Map.empty (r # node_blocks ns))"
    "avail kernel_heap m + 1 + 2 * length ns = avail kernel_heap ?m" "\<And>a. kept_byte kernel_heap Map.empty a \<Longrightarrow> m a = ?m a"
    using pathparser_parse_run [OF vfs_example_kept(1) p q k] by blast
  have len: "length ns = 3" using arg_cong [OF n(5), of length] by (simp add: example_path(4))
  then have first: "load32 m (block_addr kernel_heap r + 4) \<noteq> 0" using n(4) by (cases ns) auto
  have "\<not> in_range 0x7E00 25600 (0x600 :: ptr)" "\<not> in_range 0x1000000 104857600 (0x600 :: ptr)" by (simp_all add: in_range_def)
  then have "m 0x600 = 114" using n(9) [of "0x600"] by (simp add: kept_byte_def)
  then have mode: "file_get_mode_by_string m 0x600 \<noteq> FILE_MODE_INVALID" by (simp add: file_get_mode_by_string_def Let_def)
  let ?A = "own Map.empty (r # node_blocks ns)" and ?s2 = "vfs_example\<lparr>km := m\<rparr>"
  have s: "kheap ?s = kernel_heap" "km ?s = ?m" "filesystem (disk_obj ?s) = 0x9000" "file_descriptors ?s = replicate 512 0"
    "disk_get 0 ?s \<noteq> 0" by (simp_all add: vfs_example_def disk_get_def)
  have t: "fd_table ?A ?s2" using n(7) s by (simp add: fd_table_def fd_slot_def)
  have av: "0 < avail (kheap ?s2) (km ?s2)" using n(8) s vfs_example_kept(2) len by simp
  have "\<exists>b s3. fopen (\<lambda>_. null_fs) 0x500 0x600 ?s = Some (int 0 + 1, s3) \<and> ?A b = None \<and> fd_table (?A(b \<mapsto> 1)) s3
    \<and> (\<forall>p sz n. sz \<noteq> 0 \<and> n \<noteq> 0 \<longrightarrow> fread (\<lambda>_. null_fs) p sz n (int 0 + 1) s3 = fs_read_fn null_fs 0 sz n p s3)
    \<and> (\<forall>off whence. fseek (\<lambda>_. null_fs) (int 0 + 1) off whence s3 = fs_seek_fn null_fs 0 (c_uint off) whence s3)
    \<and> (\<forall>st. fstat (\<lambda>_. null_fs) (int 0 + 1) st s3 = fs_stat_fn null_fs 0 st s3)
    \<and> (\<forall>res s4. fs_close_fn null_fs 0 s3 = (res, s4) \<and> res \<noteq> OK \<longrightarrow> fclose (\<lambda>_. null_fs) (int 0 + 1) s3 = (res, s4))
    \<and> (\<forall>s4 B. fs_close_fn null_fs 0 s3 = (OK, s4) \<and> fd_table B s4 \<and> kheap s4 = kheap s3 \<and> file_descriptors s4 = file_descriptors s3
         \<longrightarrow> (\<exists>s5. fclose (\<lambda>_. null_fs) (int 0 + 1) s3 = (OK, s5) \<and> fd_table (B(b := None)) s5
               \<and> file_descriptors s5 = (file_descriptors s3)[0 := 0] \<and> file_get_descriptor (int 0 + 1) s5 = 0
               \<and> avail (kheap s5) (km s5) = avail (kheap s4) (km s4) + 1))"
    by (rule fopen_reaches_file [where fs = "0x9000" and root = "block_addr kernel_heap r" and m = m and ?s2.0 = ?s2])
      (use n(1-3) s first mode t av in \<open>simp_all add: null_fs_def ISERR_def\<close>)
  then obtain b s3 where f: "fopen (\<lambda>_. null_fs) 0x500 0x600 ?s = Some (1, s3)" "fd_table (?A(b \<mapsto> 1)) s3"
    "\<forall>p sz n. sz \<noteq> 0 \<and> n \<noteq> 0 \<longrightarrow> fread (\<lambda>_. null_fs) p sz n 1 s3 = fs_read_fn null_fs 0 sz n p s3"
    "\<forall>s4 B. fs_close_fn null_fs 0 s3 = (OK, s4) \<and> fd_table B s4 \<and> kheap s4 = kheap s3 \<and> file_descriptors s4 = file_descriptors s3
       \<longrightarrow> (\<exists>s5. fclose (\<lambda>_. null_fs) 1 s3 = (OK, s5) \<and> file_get_descriptor 1 s5 = 0)"
    by (elim exE conjE) (simp, blast)
  have n: "fs_close_fn null_fs 0 s3 = (OK, s3)" "fs_read_fn null_fs 0 4 2 0x700 s3 = Some (0, s3)" by (simp_all add: null_fs_def)
  obtain s5 where "fclose (\<lambda>_. null_fs) 1 s3 = (0, s5)" "file_get_descriptor 1 s5 = 0"
    using f(4) [rule_format, of s3] f(2) n(1) by auto
  then show ?thesis using f(1) f(3) [rule_format, of 4 2 "0x700"] n(2)
    by (intro exI [of _ s3] exI [of _ s5]) simp
qed

end
