(* ===== verification/Userprint.thy ===== *)
theory Userprint
  imports Userlib
begin

text \<open>
  Numbers and formatted output of the user library: \<^verbatim>\<open>itoa\<close> against decimal notation, \<^verbatim>\<open>printf\<close> against a formatting
  function on lists.
\<close>

section \<open>Decimal notation\<close>

fun decimal :: "nat \<Rightarrow> u8 list" where
  "decimal n = (if n < 10 then [of_nat (48 + n)] else decimal (n div 10) @ [of_nat (48 + n mod 10)])"

declare decimal.simps [simp del]

definition decimal_int :: "int \<Rightarrow> u8 list" where
  "decimal_int i = (if i < 0 then [45] else []) @ decimal (nat \<bar>i\<bar>)"

text \<open>What a reader makes of it.\<close>

definition read_digits :: "u8 list \<Rightarrow> int" where
  "read_digits cs = foldl (\<lambda>v c. 10 * v + (uint c - 48)) 0 cs"

definition read_decimal :: "u8 list \<Rightarrow> int" where
  "read_decimal cs = (case cs of [] \<Rightarrow> 0 | c # ds \<Rightarrow> if c = 45 then - read_digits ds else read_digits cs)"

definition digits :: "nat \<Rightarrow> u8 list" where
  "digits n = (if n = 0 then [] else decimal n)"

lemma digits_step: "0 < n \<Longrightarrow> digits n = digits (n div 10) @ [of_nat (48 + n mod 10)]"
  by (simp add: digits_def decimal.simps [of n] div_eq_0_iff)

lemma uint_digit: "d < 10 \<Longrightarrow> uint (of_nat (48 + d) :: u8) = 48 + int d"
proof -
  assume "d < 10"
  then have "unat (of_nat (48 + d) :: u8) = 48 + d" by (simp add: unat_of_nat del: of_nat_add)
  then show ?thesis by (metis of_nat_add of_nat_numeral uint_nat)
qed

lemma read_digits_decimal: "read_digits (decimal n) = int n"
proof (induction n rule: decimal.induct)
  case (1 n)
  show ?case
  proof (cases "n < 10")
    case True
    then show ?thesis using uint_digit [OF True] by (simp add: decimal.simps [of n] read_digits_def del: of_nat_add)
  next
    case False
    have "uint (of_nat (48 + n mod 10) :: u8) = 48 + int (n mod 10)" by (rule uint_digit) simp
    then have "read_digits (decimal n) = 10 * int (n div 10) + int (n mod 10)"
      using 1 False by (simp add: decimal.simps [of n] read_digits_def del: of_nat_add)
    then show ?thesis by presburger
  qed
qed

lemma decimal_nonzero: "0 \<notin> set (decimal n)" and decimal_head: "decimal n \<noteq> [] \<and> hd (decimal n) \<noteq> 45"
proof -
  have d: "(of_nat (48 + d) :: u8) \<noteq> 0 \<and> (of_nat (48 + d) :: u8) \<noteq> 45" if "d < 10" for d
    using uint_digit [OF that] by (auto simp del: of_nat_add)
  show "0 \<notin> set (decimal n)"
  proof (induction n rule: decimal.induct)
    case (1 n)
    then show ?case using d [of n] d [of "n mod 10"] by (subst decimal.simps) (auto simp del: of_nat_add)
  qed
  show "decimal n \<noteq> [] \<and> hd (decimal n) \<noteq> 45"
  proof (induction n rule: decimal.induct)
    case (1 n)
    then show ?case using d [of n] by (subst (1 2) decimal.simps) (auto simp del: of_nat_add)
  qed
qed

lemma length_decimal: "n < 10 ^ Suc k \<Longrightarrow> length (decimal n) \<le> Suc k"
proof (induction k arbitrary: n)
  case 0
  then show ?case by (subst decimal.simps) simp
next
  case (Suc k)
  show ?case
  proof (cases "n < 10")
    case False
    have "n div 10 < 10 ^ Suc k" using Suc.prems by (simp add: div_less_iff_less_mult)
    from Suc.IH [OF this] show ?thesis using False by (subst decimal.simps) simp
  qed (subst decimal.simps, simp)
qed

lemma read_decimal_int: "read_decimal (decimal_int i) = i"
proof -
  have "read_decimal (decimal n) = int n" for n
    using decimal_head [of n] read_digits_decimal [of n] by (cases "decimal n") (auto simp: read_decimal_def)
  then show ?thesis by (simp add: decimal_int_def) (simp add: read_decimal_def read_digits_decimal)
qed

section \<open>itoa\<close>

lemma copied_behind:
  assumes "k = length s" and "k < 4294967296"
  shows "copied (m(d + of_nat k := c)) d s k = copied m d (s @ [c]) (Suc k)"
proof
  fix a
  have "a = d + of_nat k \<longleftrightarrow> unat (a - d) = k"
    using assms(2) in_range_exE [of d "Suc k" a] by (auto simp: unat_of_nat_u32 in_range_def)
  then show "copied (m(d + of_nat k := c)) d s k a = copied m d (s @ [c]) (Suc k) a"
    using assms(1) by (auto simp: copied_def less_Suc_eq nth_append)
qed

lemma copied_Cons:
  assumes "k < 4294967295"
  shows "(copied m (d + 1) s k)(d := c) = copied m d (c # s) (Suc k)"
proof
  fix a
  show "((copied m (d + 1) s k)(d := c)) a = copied m d (c # s) (Suc k) a"
  proof (cases "a = d")
    case False
    then have "unat (a - (d + 1)) = unat (a - d) - 1" "0 < unat (a - d)" by (simp_all add: unat_diff_Suc unat_gt_0)
    then show ?thesis using False by (auto simp: copied_def nth_Cons')
  qed (simp add: copied_def)
qed

lemma itoa_loop_digits:
  assumes "length (digits n) \<le> loc" and "loc < 4294967296"
  shows "itoa_loop text (- int n) (int loc) m
    = (int (loc - length (digits n)), copied m (text + of_nat (loc - length (digits n))) (digits n) (length (digits n)))"
  using assms
proof (induction n arbitrary: loc m rule: less_induct)
  case (less n)
  show ?case
  proof (cases "n = 0")
    case True
    then show ?thesis by (simp add: itoa_loop.simps digits_def copied_def)
  next
    case False
    let ?d = "of_nat (48 + n mod 10) :: u8" and ?k = "length (digits (n div 10))"
    have s: "digits n = digits (n div 10) @ [?d]" using False by (simp add: digits_step)
    have k: "?k \<le> loc - 1" "0 < loc" using less.prems(1) unfolding s by simp_all
    have "int n sdiv 10 = int (n div 10)" "int n smod 10 = int (n mod 10)"
      using False by (simp_all add: signed_divide_int_eq_divide_int signed_modulo_int_eq_modulo_int zdiv_int zmod_int)
    then have q: "- int n sdiv 10 = - int (n div 10)" "- int n smod 10 = - int (n mod 10)"
      by (simp_all only: minus_sdiv_eq minus_smod_eq)
    have "48 - - int (n mod 10) = int (48 + n mod 10)" by simp
    then have "word_of_int (48 - - int (n mod 10)) = ?d" by (simp only: of_int_of_nat_eq)
    moreover have l: "int loc - 1 = int (loc - 1)" using k(2) by simp
    moreover have "of_nat (loc - 1) = (of_nat (loc - 1 - ?k) + of_nat ?k :: u32)"
      using k(1) by (simp only: of_nat_add [symmetric] le_add_diff_inverse2)
    then have t: "text + of_nat (loc - 1) = text + of_nat (loc - 1 - ?k) + of_nat ?k" by simp
    ultimately have "itoa_loop text (- int n) (int loc) m
        = itoa_loop text (- int (n div 10)) (int (loc - 1)) (m(text + of_nat (loc - 1 - ?k) + of_nat ?k := ?d))"
      using False by (subst itoa_loop.simps) (simp only: q l t of_int_of_nat_eq, simp)
    also have "\<dots> = (int (loc - 1 - ?k), copied (m(text + of_nat (loc - 1 - ?k) + of_nat ?k := ?d)) (text + of_nat (loc - 1 - ?k)) (digits (n div 10)) ?k)"
      by (rule less.IH) (use False k less.prems(2) in simp_all)
    also have "\<dots> = (int (loc - 1 - ?k), copied m (text + of_nat (loc - 1 - ?k)) (digits n) (Suc ?k))"
      using k less.prems(2) by (subst copied_behind) (simp_all add: s)
    finally show ?thesis by (simp add: s)
  qed
qed

text \<open>The text of a number that fits in 32 bits, with its sign, lies behind the place where \<^verbatim>\<open>itoa\<close> stops.\<close>

lemma itoa_text_copied:
  fixes i :: int and u :: user
  assumes "- 2147483648 \<le> i" and "i < 2147483648"
  defines "k \<equiv> length (decimal_int i)" and "text \<equiv> itoa_text u"
  shows "k \<le> 11" "itoa i u = (text + of_nat (11 - k),
     u\<lparr>um := copied ((um u)(text + 11 := 0)) (text + of_nat (11 - k)) (decimal_int i) k\<rparr>)"
proof -
  let ?n = "nat \<bar>i\<bar>" and ?m = "(um u)(text + 11 := 0)"
  have n10: "length (decimal ?n) \<le> 10" using assms(1,2) length_decimal [of ?n 9] by simp
  then have "length (decimal ?n) \<le> 11" by simp
  with n10 show k: "k \<le> 11" unfolding k_def decimal_int_def by (cases "i < 0") simp_all
  let ?l = "length (digits ?n)"
  have l: "?l \<le> 10" using n10 by (simp add: digits_def)
  have "(if 0 \<le> i then - i else i) = - int ?n" by simp
  then have loop: "itoa_loop text (if 0 \<le> i then - i else i) 11 ?m = (int (11 - ?l), copied ?m (text + of_nat (11 - ?l)) (digits ?n) ?l)"
    using itoa_loop_digits [of ?n 11 "text" ?m] l by simp
  define d where "d = length (decimal ?n)"
  have d: "1 \<le> d" "d \<le> 10" using n10 decimal_head [of ?n] by (auto simp: d_def Suc_le_eq)
  define m1 where "m1 = copied ?m (text + of_nat (11 - d)) (decimal ?n) d"
  have abs: "(if int (11 - ?l) = 11
      then (int (11 - ?l) - 1, (copied ?m (text + of_nat (11 - ?l)) (digits ?n) ?l)(text + c_uint (int (11 - ?l) - 1) := 48))
      else (int (11 - ?l), copied ?m (text + of_nat (11 - ?l)) (digits ?n) ?l)) = (int (11 - d), m1)"
  proof (cases "?n = 0")
    case True
    then have "decimal ?n = [48]" "digits ?n = []" by (simp_all add: decimal.simps digits_def)
    then show ?thesis using copied_Cons [of 0 ?m "text + 10" "[]" 48] by (simp add: m1_def d_def copied_def)
  next
    case False
    then have "digits ?n = decimal ?n" by (simp add: digits_def)
    then show ?thesis using d decimal_head [of ?n] by (simp add: m1_def d_def)
  qed
  show "itoa i u = (text + of_nat (11 - k), u\<lparr>um := copied ?m (text + of_nat (11 - k)) (decimal_int i) k\<rparr>)"
  proof (cases "0 \<le> i")
    case True
    then have "decimal_int i = decimal ?n" "k = d" by (simp_all add: k_def decimal_int_def d_def)
    then show ?thesis
      unfolding itoa_def Let_def text_def [symmetric] loop prod.case abs using True d by (simp add: m1_def)
  next
    case False
    then have dk: "decimal_int i = 45 # decimal ?n" "k = Suc d" by (simp_all add: k_def decimal_int_def d_def)
    have t1: "text + of_nat (11 - d) = text + of_nat (11 - k) + 1" and t2: "int (11 - d) - 1 = int (11 - k)"
      using d dk by (simp_all add: of_nat_diff)
    have t3: "text + c_uint (int (11 - k)) = text + of_nat (11 - k)" by simp
    have e: "m1(text + of_nat (11 - k) := 45) = copied ?m (text + of_nat (11 - k)) (decimal_int i) k"
      unfolding m1_def t1 dk(1) unfolding dk(2) by (rule copied_Cons) (use d in simp)
    have neg: "(\<not> 0 \<le> i) = True" using False by simp
    show ?thesis
      unfolding itoa_def Let_def text_def [symmetric] loop prod.case abs
      by (simp only: neg if_True prod.case t2 t3 e)
  qed
qed

lemma decimal_int_nonzero: "0 \<notin> set (decimal_int i)"
  using decimal_nonzero by (simp add: decimal_int_def)

lemma itoa_result:
  assumes "- 2147483648 \<le> i" and "i < 2147483648" and it: "itoa i u = (p, u')"
  shows "cstr (um u') p (decimal_int i)" "length (decimal_int i) \<le> 11" "\<not> in_range (itoa_text u) 12 a \<Longrightarrow> um u' a = um u a"
    "u' = u\<lparr>um := um u'\<rparr>" "in_range (itoa_text u) 12 p"
proof -
  let ?k = "length (decimal_int i)" and ?t = "itoa_text u"
  note c = itoa_text_copied(2) [OF assms(1,2), of u]
  show k: "?k \<le> 11" by (rule itoa_text_copied(1) [OF assms(1,2)])
  have p: "p = ?t + of_nat (11 - ?k)" and u': "u' = u\<lparr>um := copied ((um u)(?t + 11 := 0)) p (decimal_int i) ?k\<rparr>"
    using c it by simp_all
  have um: "um u' = copied ((um u)(?t + 11 := 0)) p (decimal_int i) ?k" by (simp add: u')
  have end_p: "p + of_nat ?k = ?t + 11" using k by (simp add: p of_nat_diff)
  show "cstr (um u') p (decimal_int i)"
  proof (rule cstrI)
    fix j assume j: "j < ?k"
    then have "unat (p + of_nat j - p) = j" using k by (simp add: unat_of_nat_u32)
    then show "um u' (p + of_nat j) = decimal_int i ! j \<and> decimal_int i ! j \<noteq> 0"
      using j decimal_int_nonzero [of i] nth_mem [OF j] by (simp add: um copied_def, metis)
  next
    have "unat (p + of_nat ?k - p) = ?k" using k by (simp add: unat_of_nat_u32)
    then show "um u' (p + of_nat ?k) = 0" by (simp add: um copied_def end_p [symmetric])
  qed
  show range_p: "in_range ?t 12 p" unfolding p by (rule in_range_of_nat) simp_all
  show "um u' a = um u a" if "\<not> in_range ?t 12 a"
  proof -
    have "a \<noteq> ?t + 11" using that in_range_of_nat [of 11 12 ?t] by auto
    moreover have "\<not> unat (a - p) < ?k"
    proof
      assume "unat (a - p) < ?k"
      then have a: "in_range p ?k a" by (simp add: in_range_def)
      have "unat (p - ?t) = 11 - ?k" unfolding p by (simp add: unat_of_nat_u32)
      then have "in_range ?t 12 a" by (intro in_range_offset [OF range_p _ a]) (use k in simp_all)
      then show False using that by simp
    qed
    ultimately show ?thesis by (simp add: um copied_def)
  qed
  show "u' = u\<lparr>um := um u'\<rparr>" by (simp add: u')
qed

text \<open>C31. For every 32-bit \<^verbatim>\<open>int\<close>, the smallest one included, \<^verbatim>\<open>itoa\<close> gives the decimal notation of the number, which
  reads back as the number, and writes nothing but its own twelve bytes.\<close>

theorem itoa_decimal:
  assumes "- 2147483648 \<le> i" and "i < 2147483648"
  shows "\<exists>p u'. itoa i u = (p, u') \<and> cstr (um u') p (decimal_int i) \<and> read_decimal (decimal_int i) = i
    \<and> (\<forall>a. \<not> in_range (itoa_text u) 12 a \<longrightarrow> um u' a = um u a) \<and> u' = u\<lparr>um := um u'\<rparr>"
proof -
  obtain p u' where it: "itoa i u = (p, u')" by force
  then show ?thesis using itoa_result(1,3,4) [OF assms it] read_decimal_int by blast
qed

definition example_user :: user where
  "example_user = \<lparr>um = \<lambda>_. 0, answers = [], calls = [], itoa_text = 0x500, sp = 0, single_quote_started = False,
     double_quote_started = False\<rparr>"

theorem itoa_decimal_witness:
  "\<exists>p u'. itoa (- 2147483648) example_user = (p, u') \<and> cstr (um u') p [45, 50, 49, 52, 55, 52, 56, 51, 54, 52, 56]"
proof -
  have "decimal_int (- 2147483648) = [45, 50, 49, 52, 55, 52, 56, 51, 54, 52, 56]" by (simp add: decimal_int_def decimal.simps)
  then show ?thesis using itoa_decimal [of "- 2147483648" example_user] by auto
qed

section \<open>printf\<close>

text \<open>The system calls for a format and its arguments: \<open>strs\<close> gives the strings at the addresses that hold one. There is
  no value for a percent sign at the end, for missing arguments and for an argument that is no string.\<close>

fun format_calls :: "(ptr \<Rightarrow> u8 list option) \<Rightarrow> u8 list \<Rightarrow> u32 list \<Rightarrow> user_call list option" where
  "format_calls strs [] args = Some []"
| "format_calls strs (c # cs) args =
     (if c \<noteq> 37 then map_option (Cons (Call_putchar c)) (format_calls strs cs args)
      else case cs of
        [] \<Rightarrow> None
      | d # ds \<Rightarrow>
          if d = 100 then
            (case args of [] \<Rightarrow> None
             | a # as \<Rightarrow> map_option (Cons (Call_print (decimal_int (c_int a)))) (format_calls strs ds as))
          else if d = 115 then
            (case args of [] \<Rightarrow> None
             | a # as \<Rightarrow> (case strs a of None \<Rightarrow> None | Some s \<Rightarrow> map_option (Cons (Call_print s)) (format_calls strs ds as)))
          else map_option (Cons (Call_putchar d)) (format_calls strs ds args))"

lemma printed_cstr:
  assumes "cstr m p s" and "length s \<le> 1023"
  shows "printed m p = s"
proof -
  let ?xs = "map (\<lambda>i. m (p + of_nat i)) [0..<1023]"
  have "takeWhile (\<lambda>c. c \<noteq> 0) ?xs = take (length s) ?xs"
    by (rule takeWhile_eq_take_P_nth) (use cstr_nth [OF assms(1)] cstr_end [OF assms(1)] in auto)
  also have "\<dots> = s" using cstr_nth [OF assms(1)] assms(2) by (intro nth_equalityI) simp_all
  finally show ?thesis by (simp add: printed_def)
qed

text \<open>What \<^verbatim>\<open>printf\<close> reads lies outside of the text that \<^verbatim>\<open>itoa\<close> overwrites; \<open>m\<close> is the memory at the start.\<close>

definition printf_reads :: "ptr \<Rightarrow> (ptr \<Rightarrow> u8 list option) \<Rightarrow> mem \<Rightarrow> bool" where
  "printf_reads t strs m \<longleftrightarrow> (\<forall>a s. strs a = Some s \<longrightarrow> cstr m a s \<and> length s \<le> 1023
     \<and> (\<forall>i\<le>length s. \<not> in_range t 12 (a + of_nat i)))"

definition printf_at :: "(ptr \<Rightarrow> u8 list option) \<Rightarrow> mem \<Rightarrow> u8 list \<Rightarrow> u32 list \<Rightarrow> ptr \<Rightarrow> ptr \<Rightarrow> user \<Rightarrow> bool" where
  "printf_at strs m fmt args p ap u \<longleftrightarrow> printf_reads (itoa_text u) strs m \<and> cstr m p fmt
     \<and> (\<forall>i\<le>length fmt. \<not> in_range (itoa_text u) 12 (p + of_nat i))
     \<and> (\<forall>k<length args. load32 m (ap + of_nat (4 * k)) = args ! k)
     \<and> (\<forall>k<length args. \<forall>a. in_range (ap + of_nat (4 * k)) 4 a \<longrightarrow> \<not> in_range (itoa_text u) 12 a)
     \<and> (\<forall>a. \<not> in_range (itoa_text u) 12 a \<longrightarrow> um u a = m a)"

lemma printf_atD:
  assumes "printf_at strs m fmt args p ap u"
  shows "printf_reads (itoa_text u) strs m" "cstr m p fmt" "i \<le> length fmt \<Longrightarrow> \<not> in_range (itoa_text u) 12 (p + of_nat i)"
    "k < length args \<Longrightarrow> load32 m (ap + of_nat (4 * k)) = args ! k"
    "k < length args \<Longrightarrow> in_range (ap + of_nat (4 * k)) 4 a \<Longrightarrow> \<not> in_range (itoa_text u) 12 a"
    "\<not> in_range (itoa_text u) 12 a \<Longrightarrow> um u a = m a"
  using assms by (simp_all add: printf_at_def)

lemma printf_at_end: "printf_at strs m [] args p ap u \<Longrightarrow> um u p = 0"
  using printf_atD(2) [of strs m "[]" args p ap u] printf_atD(3) [of strs m "[]" args p ap u 0]
    printf_atD(6) [of strs m "[]" args p ap u p] by simp

lemma printf_at_char:
  assumes at: "printf_at strs m (c # cs) args p ap u"
  shows "um u p = c" and "c \<noteq> 0" and "printf_at strs m cs args (p + 1) ap (u\<lparr>calls := os\<rparr>)"
proof -
  note d = printf_atD [OF at]
  show "um u p = c" "c \<noteq> 0" using d(6) [of p] d(3) [of 0] d(2) by simp_all
  have "\<not> in_range (itoa_text u) 12 (p + 1 + of_nat i)" if "i \<le> length cs" for i
    using d(3) [of "Suc i"] that by (simp add: add.assoc)
  then show "printf_at strs m cs args (p + 1) ap (u\<lparr>calls := os\<rparr>)" using at by (simp add: printf_at_def)
qed

lemma printf_at_arg:
  assumes at: "printf_at strs m fmt (a # as) p ap u"
  shows "load32 (um u) ap = a"
    and "itoa_text v = itoa_text u \<Longrightarrow> (\<And>b. \<not> in_range (itoa_text u) 12 b \<Longrightarrow> um v b = um u b) \<Longrightarrow>
      printf_at strs m fmt as p (ap + 4) (v\<lparr>calls := os\<rparr>)"
proof -
  note d = printf_atD [OF at]
  show "load32 (um u) ap = a" using load32_cong [of ap "um u" m] d(6) d(5) [of 0] d(4) [of 0] by auto
  have "load32 m (ap + 4 + of_nat (4 * k)) = as ! k" if "k < length as" for k
    using d(4) [of "Suc k"] that by (simp add: add.assoc)
  moreover have "\<not> in_range (itoa_text u) 12 b" if "k < length as" "in_range (ap + 4 + of_nat (4 * k)) 4 b" for k b
    using d(5) [of "Suc k" b] that by (simp add: add.assoc)
  ultimately show "printf_at strs m fmt as p (ap + 4) (v\<lparr>calls := os\<rparr>)"
    if "itoa_text v = itoa_text u" "\<And>b. \<not> in_range (itoa_text u) 12 b \<Longrightarrow> um v b = um u b"
    using at that by (simp add: printf_at_def)
qed

lemma printf_at_string:
  assumes at: "printf_at strs m fmt args p ap u" and t: "strs a = Some t"
  shows "printed (um u) a = t"
proof (rule printed_cstr, rule cstr_outside)
  note d = printf_atD [OF at]
  show "cstr m a t" "length t \<le> 1023" using d(1) t by (auto simp: printf_reads_def)
  show "um u (a + of_nat i) = m (a + of_nat i)" if "i \<le> length t" for i
    using d(1,6) t that by (auto simp: printf_reads_def)
qed

text \<open>One turn of the loop, by the kind of character.\<close>

lemma putchar_calls: "snd (putchar (sint x) v) = v\<lparr>calls := calls v @ [Call_putchar x]\<rparr>"
  by (simp add: putchar_def liebeos_putchar_def)

lemma printf_turn:
  "um u p = c \<Longrightarrow> c \<noteq> 0 \<Longrightarrow> c \<noteq> 37 \<Longrightarrow> printf_loop p ap u = printf_loop (p + 1) ap (u\<lparr>calls := calls u @ [Call_putchar c]\<rparr>)"
  "um u p = 37 \<Longrightarrow> um u (p + 1) = d \<Longrightarrow> d \<noteq> 100 \<Longrightarrow> d \<noteq> 115 \<Longrightarrow>
     printf_loop p ap u = printf_loop (p + 1 + 1) ap (u\<lparr>calls := calls u @ [Call_putchar d]\<rparr>)"
  "um u p = 37 \<Longrightarrow> um u (p + 1) = 100 \<Longrightarrow> itoa (c_int (load32 (um u) ap)) u = (q, v) \<Longrightarrow>
     printf_loop p ap u = printf_loop (p + 1 + 1) (ap + 4) (v\<lparr>calls := calls v @ [Call_print (printed (um v) q)]\<rparr>)"
  "um u p = 37 \<Longrightarrow> um u (p + 1) = 115 \<Longrightarrow> printf_loop p ap u =
     printf_loop (p + 1 + 1) (ap + 4) (u\<lparr>calls := calls u @ [Call_print (printed (um u) (load32 (um u) ap))]\<rparr>)"
  by (subst printf_loop.simps, simp add: putchar_calls user_print_def)+

lemma printf_turn_number:
  assumes at: "printf_at strs m (37 # 100 # ds) (a # as) p ap u"
  obtains v where "printf_loop p ap u = printf_loop (p + 1 + 1) (ap + 4) v" "calls v = calls u @ [Call_print (decimal_int (c_int a))]"
    "printf_at strs m ds as (p + 1 + 1) (ap + 4) v"
proof -
  obtain q v where it: "itoa (c_int a) u = (q, v)" by force
  have b: "- 2147483648 \<le> c_int a" "c_int a < 2147483648"
    using sint_greater_eq [of a] sint_less [of a] by simp_all
  note r = itoa_result [OF b it]
  let ?v = "v\<lparr>calls := calls v @ [Call_print (decimal_int (c_int a))]\<rparr>"
  have v: "itoa_text v = itoa_text u" "calls v = calls u" by (subst r(4), simp)+
  have pr: "printed (um v) q = decimal_int (c_int a)" using r(1,2) by (intro printed_cstr) simp_all
  have at1: "printf_at strs m (100 # ds) (a # as) (p + 1) ap u" using printf_at_char(3) [OF at, of "calls u"] by simp
  have at2: "printf_at strs m ds (a # as) (p + 1 + 1) ap u" using printf_at_char(3) [OF at1, of "calls u"] by simp
  show thesis
  proof (rule that [of ?v])
    show "printf_loop p ap u = printf_loop (p + 1 + 1) (ap + 4) ?v"
      using printf_turn(3) [OF printf_at_char(1) [OF at] printf_at_char(1) [OF at1], of ap q v] it printf_at_arg(1) [OF at] pr by simp
    show "printf_at strs m ds as (p + 1 + 1) (ap + 4) ?v" by (rule printf_at_arg(2) [OF at2 v(1) r(3)])
  qed (simp add: v(2))
qed

lemma printf_loop_calls:
  assumes "format_calls strs fmt args = Some outs" and "printf_at strs m fmt args p ap u"
  shows "\<exists>u'. printf_loop p ap u = Some u' \<and> calls u' = calls u @ outs"
  using assms
proof (induction strs fmt args arbitrary: u p ap outs rule: format_calls.induct)
  case (1 strs args)
  then show ?case using printf_at_end [OF 1(2)] by (subst printf_loop.simps) simp
next
  case (2 strs c cs args)
  note c = printf_at_char [OF 2(6)]
  show ?case
  proof (cases "c = 37")
    case False
    obtain os where os: "format_calls strs cs args = Some os" "outs = Call_putchar c # os" using 2(5) False by auto
    show ?thesis using 2(1) [OF False os(1) c(3) [of "calls u @ [Call_putchar c]"]] printf_turn(1) [OF c(1,2) False] os(2) by simp
  next
    case pc: True
    then obtain d ds where cs: "cs = d # ds" using 2(5) by (cases cs) simp_all
    have at: "printf_at strs m (d # ds) args (p + 1) ap u" using c(3) [of "calls u"] cs by simp
    note d = printf_at_char [OF at]
    consider (number) "d = 100" | (string) "d = 115" "d \<noteq> 100" | (other) "d \<noteq> 100" "d \<noteq> 115" by blast
    then show ?thesis
    proof cases
      case number
      then obtain a as os where as: "args = a # as" "format_calls strs ds as = Some os" "outs = Call_print (decimal_int (c_int a)) # os"
        using 2(5) pc cs by (cases args) auto
      show ?thesis
        using printf_turn_number [OF 2(6) [unfolded cs pc number as(1)]] 2(2) [OF _ cs number as(1,2)] pc as(3)
        by (metis append.assoc append_Cons append_Nil)
    next
      case string
      then obtain a as t os where as: "args = a # as" "strs a = Some t" "format_calls strs ds as = Some os" "outs = Call_print t # os"
        using 2(5) pc cs by (cases args) (auto split: option.splits)
      have "printf_at strs m ds as (p + 1 + 1) (ap + 4) (u\<lparr>calls := calls u @ [Call_print t]\<rparr>)"
        using printf_at_arg(2) [OF d(3) [of "calls u", unfolded as(1)], of u] by simp
      from 2(3) [OF _ cs string(2,1) as(1-3) this] show ?thesis
        using printf_turn(4) [of u p ap] c(1) d(1) pc string as printf_at_arg(1) [OF 2(6) [unfolded as(1)]] printf_at_string [OF at as(2)] by simp
    next
      case other
      then obtain os where os: "format_calls strs ds args = Some os" "outs = Call_putchar d # os" using 2(5) pc cs by auto
      from 2(4) [OF _ cs other os(1) d(3) [of "calls u @ [Call_putchar d]"]] show ?thesis
        using printf_turn(2) [OF _ d(1) other, of ap] c(1) pc os(2) by simp
    qed
  qed
qed

text \<open>C30. \<^verbatim>\<open>printf\<close> makes the system calls of its format: the plain characters and the characters behind other percent
  signs one by one, numbers in decimal notation and strings as a whole, the arguments in their order, as long
  as what it reads does not overlap the text of \<^verbatim>\<open>itoa\<close> and no percent sign ends the format.\<close>

theorem printf_format:
  assumes f: "cstr (um u) fmt f" and outs: "format_calls strs f args = Some outs"
    and args: "\<forall>k<length args. load32 (um u) (ap + of_nat (4 * k)) = args ! k"
    and reads: "printf_reads (itoa_text u) strs (um u)"
    and df: "disj_range (itoa_text u) 12 fmt (Suc (length f))" "Suc (length f) \<le> 4294967296"
    and da: "disj_range (itoa_text u) 12 ap (4 * length args)" "4 * length args \<le> 4294967296"
  shows "\<exists>u'. printf fmt ap u = Some (0, u') \<and> calls u' = calls u @ outs"
proof -
  have "\<not> in_range (itoa_text u) 12 (fmt + of_nat i)" if "i \<le> length f" for i
  proof -
    have "in_range fmt (Suc (length f)) (fmt + of_nat i)" using df(2) that by (intro in_range_of_nat) simp_all
    then show ?thesis by (rule disj_rangeD2 [OF df(1)])
  qed
  moreover have "\<not> in_range (itoa_text u) 12 a" if k: "k < length args" and a: "in_range (ap + of_nat (4 * k)) 4 a" for k a
  proof -
    have "unat (of_nat (4 * k) :: u32) = 4 * k" using k da(2) by (intro unat_of_nat_u32) simp
    then have "in_range ap (4 * length args) a"
      by (intro in_range_offset [OF _ _ a]) (use k da(2) in \<open>simp_all add: in_range_def del: of_nat_mult\<close>)
    then show ?thesis by (rule disj_rangeD2 [OF da(1)])
  qed
  ultimately have "printf_at strs (um u) f args fmt ap u" using f args reads by (simp add: printf_at_def)
  from printf_loop_calls [OF outs this] have "\<exists>u'. printf_loop fmt ap u = Some u' \<and> calls u' = calls u @ outs" .
  then show ?thesis by (auto simp: printf_def)
qed

text \<open>The format \<^verbatim>\<open>n=%d:%s!\<close> with the arguments -7 and a string.\<close>

theorem printf_format_witness:
  "\<exists>u'. printf 0x100 0x200 (example_user\<lparr>um := store32 (store32 ((\<lambda>_. 0)(0x100 := 110, 0x101 := 61, 0x102 := 37, 0x103 := 100,
      0x104 := 58, 0x105 := 37, 0x106 := 115, 0x107 := 33, 0x300 := 111, 0x301 := 107)) 0x200 0xFFFFFFF9) 0x204 0x300\<rparr>) = Some (0, u')
    \<and> calls u' = [Call_putchar 110, Call_putchar 61, Call_print [45, 55], Call_putchar 58, Call_print [111, 107], Call_putchar 33]"
proof -
  let ?m = "store32 (store32 ((\<lambda>_. 0)(0x100 := 110, 0x101 := 61, 0x102 := 37, 0x103 := 100, 0x104 := 58, 0x105 := 37,
      0x106 := 115, 0x107 := 33, 0x300 := 111, 0x301 := 107)) 0x200 0xFFFFFFF9) 0x204 0x300"
  let ?u = "example_user\<lparr>um := ?m\<rparr>" and ?f = "[110, 61, 37, 100, 58, 37, 115, 33] :: u8 list"
  let ?strs = "(\<lambda>_. None)(0x300 := Some [111, 107]) :: ptr \<Rightarrow> u8 list option"
  have f: "cstr (um ?u) 0x100 ?f" by (simp add: store32_def)
  have outs: "format_calls ?strs ?f [0xFFFFFFF9, 0x300] =
      Some [Call_putchar 110, Call_putchar 61, Call_print [45, 55], Call_putchar 58, Call_print [111, 107], Call_putchar 33]"
    by (simp add: decimal_int_def decimal.simps)
  have args: "\<forall>k<length [0xFFFFFFF9, 0x300 :: u32]. load32 (um ?u) (0x200 + of_nat (4 * k)) = [0xFFFFFFF9, 0x300] ! k"
    by (auto simp: less_Suc_eq load32_store32 load32_store32_disj disj_range_def)
  have reads: "printf_reads (itoa_text ?u) ?strs (um ?u)"
    by (auto simp: printf_reads_def store32_def le_Suc_eq in_range_def example_user_def)
  show ?thesis
    using printf_format [OF f outs args reads] by (simp add: disj_range_def example_user_def)
qed

end
