(* ===== verification/Userline.thy ===== *)
theory Userline
  imports Userprint
begin

text \<open>
  Command lines in the user library: \<^verbatim>\<open>liebeos_terminal_readline\<close> against a line editor on lists, and what
  \<^verbatim>\<open>strtok\<close> and \<^verbatim>\<open>liebeos_parse_command\<close> make of a line.
\<close>

section \<open>Reading a line\<close>

text \<open>The line that typed keys make, for at most \<open>cap\<close> characters, with the keys that were taken for characters and the
  keys left. Key 13 ends the line, key 8 removes a character and is one itself at the start of the line.\<close>

fun line_edit :: "nat \<Rightarrow> u8 list \<Rightarrow> u8 list \<Rightarrow> (u8 list \<times> u8 list \<times> u8 list) option" where
  "line_edit cap keys line =
     (if cap \<le> length line then Some (line, [], keys)
      else case keys of
        [] \<Rightarrow> None
      | k # ks \<Rightarrow>
          if k = 0 then line_edit cap ks line
          else if k = 13 then Some (line, [], ks)
          else map_option (\<lambda>(l, typed, r). (l, k # typed, r))
                 (line_edit cap ks (if k = 8 \<and> line \<noteq> [] then butlast line else line @ [k])))"

declare line_edit.simps [simp del]

lemma scast_char [simp]: "(scast (k :: u8) :: u32) = 0 \<longleftrightarrow> k = 0" "(ucast (scast (k :: u8) :: u32) :: u8) = k"
proof -
  show u: "(ucast (scast (k :: u8) :: u32) :: u8) = k" by (rule bit_word_eqI) (auto simp: bit_simps)
  show "(scast (k :: u8) :: u32) = 0 \<longleftrightarrow> k = 0"
  proof
    assume "(scast (k :: u8) :: u32) = 0"
    then show "k = 0" using u by simp
  qed simp
qed

lemma getkey_block_zero:
  "answers u = 0 # as \<Longrightarrow> liebeos_getkey_block u = liebeos_getkey_block (u\<lparr>answers := as\<rparr>)"
  by (subst liebeos_getkey_block.simps) (simp add: liebeos_getkey_def next_answer_def)

lemma getkey_block_key:
  "answers u = v # as \<Longrightarrow> v \<noteq> 0 \<Longrightarrow> liebeos_getkey_block u = Some (v, u\<lparr>answers := as\<rparr>)"
  by (subst liebeos_getkey_block.simps) (simp add: liebeos_getkey_def next_answer_def)

text \<open>The bytes of a line that is being read, and what the loop leaves alone.\<close>

definition line_at :: "mem \<Rightarrow> ptr \<Rightarrow> u8 list \<Rightarrow> bool" where
  "line_at m out line \<longleftrightarrow> 0 \<notin> set line \<and> (\<forall>i<length line. m (out + of_nat i) = line ! i)"

lemma line_at_append:
  assumes "line_at m out line" and "k \<noteq> 0" and "length line < 4294967295"
  shows "line_at (m(out + of_nat (length line) := k)) out (line @ [k])"
proof -
  have "out + of_nat i \<noteq> out + (of_nat (length line) :: u32)" if "i < length line" for i
    using that assms(3) unat_of_nat_u32 [of i] unat_of_nat_u32 [of "length line"] by force
  then show ?thesis using assms(1,2) by (auto simp: line_at_def nth_append less_Suc_eq)
qed

lemma line_at_butlast:
  assumes "line_at m out line" and "line \<noteq> []" and "length line < 4294967295"
  shows "line_at (m(out + of_nat (length line - 1) := k)) out (butlast line)"
proof -
  have "out + of_nat i \<noteq> out + (of_nat (length line - 1) :: u32)" if "i < length line - 1" for i
    using that assms(3) unat_of_nat_u32 [of i] unat_of_nat_u32 [of "length line - 1"] by force
  then show ?thesis using assms(1) by (auto simp: line_at_def nth_butlast dest: in_set_butlastD)
qed

lemma readline_key:
  assumes "i < mx - 1" and "liebeos_getkey_block u = Some (scast k, v)" and "k \<noteq> 13"
  shows "readline_loop out mx echo i u =
    (if k = 8 \<and> 1 \<le> i
     then readline_loop out mx echo (i - 2 + 1) (v\<lparr>calls := calls v @ (if echo then [Call_putchar k] else []), um := (um v)(out + c_uint (i - 1) := 0)\<rparr>)
     else readline_loop out mx echo (i + 1) (v\<lparr>calls := calls v @ (if echo then [Call_putchar k] else []), um := (um v)(out + c_uint i := k)\<rparr>))"
  using assms by (subst readline_loop.simps) (simp add: liebeos_putchar_def Let_def)

text \<open>A key other than enter.\<close>

lemma readline_turn:
  assumes at: "line_at (um u) out line" and nz: "k \<noteq> 0" and k: "k \<noteq> 13" and b: "int (length line) < mx - 1" and mx: "mx < 2147483648"
    and block: "liebeos_getkey_block u = Some (scast k, u\<lparr>answers := as\<rparr>)"
  obtains w where "readline_loop out mx echo (int (length line)) u =
      readline_loop out mx echo (int (length (if k = 8 \<and> line \<noteq> [] then butlast line else line @ [k]))) w"
    "line_at (um w) out (if k = 8 \<and> line \<noteq> [] then butlast line else line @ [k])" "answers w = as"
    "calls w = calls u @ (if echo then [Call_putchar k] else [])" "\<And>a. \<not> in_range out (nat mx) a \<Longrightarrow> um w a = um u a"
proof -
  let ?bsp = "k = 8 \<and> line \<noteq> []"
  let ?line = "if ?bsp then butlast line else line @ [k]"
  let ?w = "u\<lparr>answers := as, calls := calls u @ (if echo then [Call_putchar k] else []),
    um := (um u)(out + of_nat (if ?bsp then length line - 1 else length line) := if ?bsp then 0 else k)\<rparr>"
  have small: "length line < 4294967295" using b mx by simp
  have "in_range out (nat mx) (out + of_nat (if ?bsp then length line - 1 else length line))"
    by (rule in_range_of_nat) (use b mx in auto)
  then have frame: "um ?w a = um u a" if "\<not> in_range out (nat mx) a" for a using that by auto
  have at': "line_at (um ?w) out ?line"
    using line_at_append [OF at nz small] line_at_butlast [OF at _ small, of 0] by simp
  have "readline_loop out mx echo (int (length line)) u = readline_loop out mx echo (int (length ?line)) ?w"
  proof (cases ?bsp)
    case True
    then obtain n where n: "length line = Suc n" by (cases line) auto
    show ?thesis unfolding readline_key [OF b block k] using True by (simp add: n)
  next
    case nb: False
    then have c: "\<not> (k = 8 \<and> 1 \<le> int (length line))" by (cases line) auto
    show ?thesis unfolding readline_key [OF b block k] by (simp only: c nb if_False) (simp add: add.commute)
  qed
  then show thesis using that [of ?w] at' frame by simp
qed

lemma readline_loop_edit:
  assumes "line_edit (nat (mx - 1)) keys line = Some (l, typed, rest)" and "line_at (um u) out line"
    and "length line \<le> nat (mx - 1)" and "1 \<le> mx" and "mx < 2147483648" and "answers u = map scast keys @ as"
  shows "\<exists>u'. readline_loop out mx echo (int (length line)) u = Some (int (length l), u') \<and> line_at (um u') out l
    \<and> length l \<le> nat (mx - 1) \<and> answers u' = map scast rest @ as
    \<and> calls u' = calls u @ (if echo then map Call_putchar typed else [])
    \<and> (\<forall>a. \<not> in_range out (nat mx) a \<longrightarrow> um u' a = um u a)"
  using assms
proof (induction "nat (mx - 1)" keys line arbitrary: u typed rule: line_edit.induct)
  case (1 keys line)
  let ?cap = "nat (mx - 1)"
  note at = 1(4) and len = 1(5) and mx = 1(6,7) and ans = 1(8)
  have cond: "int (length line) < mx - 1 \<longleftrightarrow> \<not> ?cap \<le> length line" using mx by auto
  show ?case
  proof (cases "?cap \<le> length line")
    case True
    then have "l = line" "typed = []" "rest = keys" using 1(3) by (simp_all add: line_edit.simps [of ?cap keys line])
    then show ?thesis using True cond at len ans by (subst readline_loop.simps) simp
  next
    case False
    then obtain k ks where keys: "keys = k # ks" using 1(3) by (cases keys) (simp_all add: line_edit.simps [of ?cap "[]" line])
    let ?v = "u\<lparr>answers := map scast ks @ as\<rparr>"
    note edit = 1(3) [unfolded keys line_edit.simps [of ?cap "k # ks" line]]
    show ?thesis
    proof (cases "k = 0")
      case True
      have "\<exists>u'. readline_loop out mx echo (int (length line)) ?v = Some (int (length l), u') \<and> line_at (um u') out l
          \<and> length l \<le> ?cap \<and> answers u' = map scast rest @ as
          \<and> calls u' = calls ?v @ (if echo then map Call_putchar typed else [])
          \<and> (\<forall>a. \<not> in_range out (nat mx) a \<longrightarrow> um u' a = um ?v a)"
        by (rule 1(1) [OF False keys True])
          (use edit at len mx True False in simp_all)
      moreover have "readline_loop out mx echo (int (length line)) u = readline_loop out mx echo (int (length line)) ?v"
        using getkey_block_zero [of u "map scast ks @ as"] ans keys True False cond
        by (subst (1 2) readline_loop.simps) simp
      ultimately show ?thesis by simp
    next
      case False
      note nz = False
      have block: "liebeos_getkey_block u = Some (scast k, ?v)"
        using getkey_block_key [of u "scast k" "map scast ks @ as"] ans keys nz by simp
      show ?thesis
      proof (cases "k = 13")
        case True
        then have "l = line" "typed = []" "rest = ks" using edit nz \<open>\<not> ?cap \<le> length line\<close> by simp_all
        then show ?thesis using True cond \<open>\<not> ?cap \<le> length line\<close> at block len by (subst readline_loop.simps) simp
      next
        case False
        let ?line = "if k = 8 \<and> line \<noteq> [] then butlast line else line @ [k]"
        obtain t where t: "line_edit ?cap ks ?line = Some (l, t, rest)" "typed = k # t"
          using edit nz False \<open>\<not> ?cap \<le> length line\<close> by auto
        have b: "int (length line) < mx - 1" using cond \<open>\<not> ?cap \<le> length line\<close> by simp
        obtain w where w: "readline_loop out mx echo (int (length line)) u = readline_loop out mx echo (int (length ?line)) w"
            "line_at (um w) out ?line" "answers w = map scast ks @ as"
            "calls w = calls u @ (if echo then [Call_putchar k] else [])" "\<And>a. \<not> in_range out (nat mx) a \<Longrightarrow> um w a = um u a"
          using readline_turn [OF at nz False b mx(2) block] by metis
        have "\<exists>u'. readline_loop out mx echo (int (length ?line)) w = Some (int (length l), u') \<and> line_at (um u') out l
            \<and> length l \<le> ?cap \<and> answers u' = map scast rest @ as
            \<and> calls u' = calls w @ (if echo then map Call_putchar t else [])
            \<and> (\<forall>a. \<not> in_range out (nat mx) a \<longrightarrow> um u' a = um w a)"
          by (rule 1(2) [OF _ keys nz False t(1) w(2)]) (use len mx \<open>\<not> ?cap \<le> length line\<close> w(3) in auto)
        then show ?thesis using t(2) w(1,4,5) by auto
      qed
    qed
  qed
qed

text \<open>C29. \<^verbatim>\<open>liebeos_terminal_readline\<close> leaves at its destination, terminated, the line that the typed keys make in a line
  editor of one character less than the room, waits for as many keys as that takes, shows exactly the characters
  and backspaces, and writes nothing outside of the destination.\<close>

theorem readline_edit:
  assumes "line_edit (nat (mx - 1)) keys [] = Some (line, typed, rest)" and "1 \<le> mx" and "mx < 2147483648"
    and "answers u = map scast keys @ as"
  shows "\<exists>u'. liebeos_terminal_readline out mx echo u = Some u' \<and> cstr (um u') out line \<and> length line < nat mx
    \<and> answers u' = map scast rest @ as \<and> calls u' = calls u @ (if echo then map Call_putchar typed else [])
    \<and> (\<forall>a. \<not> in_range out (nat mx) a \<longrightarrow> um u' a = um u a)"
proof -
  have "line_at (um u) out []" by (simp add: line_at_def)
  then obtain v where v: "readline_loop out mx echo 0 u = Some (int (length line), v)" "line_at (um v) out line"
    "length line \<le> nat (mx - 1)" "answers v = map scast rest @ as"
    "calls v = calls u @ (if echo then map Call_putchar typed else [])"
    "\<And>a. \<not> in_range out (nat mx) a \<Longrightarrow> um v a = um u a"
    using readline_loop_edit [OF assms(1) _ _ assms(2,3,4), of out echo] by auto
  let ?m = "(um v)(out + of_nat (length line) := 0)"
  have l: "length line < nat mx" using v(3) assms(2) by linarith
  have r: "in_range out (nat mx) (out + of_nat (length line))" by (rule in_range_of_nat [OF l]) (use assms(3) in simp)
  have "cstr ?m out line"
  proof (rule cstrI)
    fix i assume i: "i < length line"
    then have "out + of_nat i \<noteq> out + (of_nat (length line) :: u32)"
      using l assms(3) unat_of_nat_u32 [of i] unat_of_nat_u32 [of "length line"] by force
    then show "?m (out + of_nat i) = line ! i \<and> line ! i \<noteq> 0"
      using v(2) i nth_mem [OF i] by (auto simp: line_at_def simp del: nth_mem)
  qed simp
  moreover have "?m a = um u a" if "\<not> in_range out (nat mx) a" for a using v(6) [OF that] r that by auto
  ultimately show ?thesis using v(1,4,5) l by (auto simp: liebeos_terminal_readline_def)
qed

text \<open>The keys h, i, x, backspace, return, with a wait in between.\<close>

theorem readline_edit_witness:
  "\<exists>u'. liebeos_terminal_readline 0x800 1024 True (example_user\<lparr>answers := [104, 0, 105, 120, 8, 13]\<rparr>) = Some u'
    \<and> cstr (um u') 0x800 [104, 105] \<and> answers u' = []
    \<and> calls u' = [Call_putchar 104, Call_putchar 105, Call_putchar 120, Call_putchar 8]"
proof -
  let ?k = "[104, 0, 105, 120, 8, 13] :: u8 list"
  have e: "line_edit (nat (1024 - 1)) ?k [] = Some ([104, 105], [104, 105, 120, 8], [])"
    by (simp add: line_edit.simps [of _ "_ # _"])
  have a: "answers (example_user\<lparr>answers := [104, 0, 105, 120, 8, 13]\<rparr>) = map scast ?k @ []" by simp
  show ?thesis using readline_edit [OF e _ _ a, of "0x800" True] by (auto simp: example_user_def)
qed

section \<open>Splitting a line\<close>

lemma blank_index: "m blank = 32 \<Longrightarrow> delimiter_index m c blank 1 0 = (if c = 32 then 0 else 1)"
  by (simp add: delimiter_index.simps)

lemma strtok_skip_blanks:
  assumes "m blank = 32" and "cstr m p (replicate k 32 @ t)" and "t = [] \<or> hd t \<noteq> 32"
  shows "strtok_skip m blank 1 p = Some (p + of_nat k)"
  using assms(2)
proof (induction k arbitrary: p)
  case 0
  then have "m p \<noteq> 32" using assms(3) by (cases t) auto
  then show ?case by (subst strtok_skip.simps) (simp add: blank_index [where m = m and blank = blank, OF assms(1)] Let_def)
next
  case (Suc k)
  then show ?case by (subst strtok_skip.simps) (simp add: blank_index [where m = m and blank = blank, OF assms(1)] Let_def add.assoc)
qed

text \<open>Outside of quotes no delimiter is looked for, so the token goes on to the end of the string.\<close>

lemma strtok_loop_unquoted:
  assumes "cstr (um u) (sp u) t" and "34 \<notin> set t" and "39 \<notin> set t"
    and "\<not> single_quote_started u" and "\<not> double_quote_started u"
  shows "strtok_loop blank 1 1 u = Some (u\<lparr>sp := sp u + of_nat (length t)\<rparr>)"
  using assms
proof (induction t arbitrary: u)
  case Nil
  then show ?case by (subst strtok_loop.simps) simp
next
  case (Cons c t)
  have "strtok_loop blank 1 1 (u\<lparr>sp := sp u + 1\<rparr>) = Some (u\<lparr>sp := sp u + of_nat (length (c # t))\<rparr>)"
    using Cons.IH [of "u\<lparr>sp := sp u + 1\<rparr>"] Cons.prems by (simp add: add.assoc)
  moreover have "strtok_loop blank 1 1 u = strtok_loop blank 1 1 (u\<lparr>sp := sp u + 1\<rparr>)"
    using Cons.prems by (subst strtok_loop.simps) (simp add: Let_def)
  ultimately show ?case by simp
qed

lemma strtok_first:
  assumes "cstr (um u) blank [32]" and "cstr (um u) str (replicate k 32 @ t)" and "t \<noteq> []" and "hd t \<noteq> 32"
    and "34 \<notin> set t" and "39 \<notin> set t" and "\<not> single_quote_started u" and "\<not> double_quote_started u"
    and "sp u = 0" and "str \<noteq> 0"
  shows "strtok str blank u = Some (str + of_nat k, u\<lparr>sp := str + of_nat k + of_nat (length t)\<rparr>)"
proof -
  have len: "strlen (um u) blank = Some 1" using strlen_loop_cstr [OF assms(1), of 0] by (simp add: strlen_def)
  have b: "um u blank = 32" using assms(1) by simp
  have t: "cstr (um u) (str + of_nat k) t" using assms(2)
    by (induction k arbitrary: str) (simp_all add: add.assoc [symmetric])
  then have nz: "um u (str + of_nat k) \<noteq> 0" using assms(3) by (cases t) auto
  show ?thesis
    using strtok_skip_blanks [where m = "um u" and blank = blank, OF b assms(2)] strtok_loop_unquoted [of "u\<lparr>sp := str + of_nat k\<rparr>" t blank] t nz assms(3-10) len
    by (simp add: strtok_def)
qed

lemma strtok_end:
  assumes "cstr (um u) blank [32]" and "sp u \<noteq> 0" and "um u (sp u) = 0"
  shows "strtok 0 blank u = Some (0, u\<lparr>sp := 0\<rparr>)"
proof -
  have "strlen (um u) blank = Some 1" using strlen_loop_cstr [OF assms(1), of 0] by (simp add: strlen_def)
  then show ?thesis
    using strtok_skip_blanks [of "um u" blank "sp u" 0 "[]"] assms by (simp add: strtok_def)
qed

text \<open>What a filled \<^verbatim>\<open>struct command_argument\<close> holds: the argument, cut to 511 characters, and the pointer.\<close>

lemma argument_filled:
  fixes v :: u32
  assumes "cstr m q t" and "length t < 4294967295" and "disj_range p 516 q (Suc (length t))"
  defines "m' \<equiv> store32 (snd (strncpy m p q 512)) (p + 512) v"
  shows "cstr m' p (take 511 t)" and "load32 m' (p + 512) = v" and "\<not> in_range p 516 a \<Longrightarrow> m' a = m a"
proof -
  have d: "disj_range p (nat 512) q (Suc (length t))" by (rule disj_range_mono [OF assms(3)]) simp_all
  note n = strncpy_copies [OF assms(1) d _ _ assms(2)]
  have p512: "disj_range p 512 (p + 512) 4" by (simp add: disj_range_def)
  show "cstr m' p (take 511 t)"
    by (rule cstr_disj [OF _ _ _ p512]) (use n(2) in \<open>simp_all add: m'_def store32_other\<close>)
  show "load32 m' (p + 512) = v" by (simp add: m'_def load32_store32)
  assume a: "\<not> in_range p 516 a"
  have "in_range p 516 a" if "in_range (p + 512) 4 a" by (rule in_range_offset [OF _ _ that]) (simp_all add: in_range_def)
  then have "m' a = snd (strncpy m p q 512) a" using a by (auto simp: m'_def intro!: store32_other)
  moreover have "\<not> in_range p (nat 512) a" using a in_range_mono [of p "nat 512" a 516] by auto
  ultimately show "m' a = m a" using n(3) by simp
qed

text \<open>C32. A command line without quotes becomes a single argument: the whole line but for its leading blanks (cut to
  the 511 characters of an argument), whatever blanks it holds. \<^verbatim>\<open>strtok\<close> looks for delimiters only inside of
  quotes.\<close>

theorem parse_command_unquoted:
  assumes blank: "cstr (um u) blank [32]" and cmd: "cstr (um u) command (replicate k 32 @ t)"
    and t: "t \<noteq> []" "hd t \<noteq> 32" "34 \<notin> set t" "39 \<notin> set t" and len: "k + length t \<le> 1024" and mx: "mx < 1025"
    and st: "sp u = 0" "\<not> single_quote_started u" "\<not> double_quote_started u"
    and ans: "answers u = p # as" "p \<noteq> 0" and sc: "scommand \<noteq> 0" "unat scommand + 1025 \<le> 4294967296"
    and dj: "disj_range scommand 1025 command 1025" "disj_range scommand 1025 blank 2"
      "disj_range p 516 scommand 1025" "disj_range p 516 blank 2"
  shows "\<exists>u'. liebeos_parse_command scommand blank command mx u = Some (p, u') \<and> cstr (um u') p (take 511 t)
    \<and> load32 (um u') (p + 512) = 0 \<and> calls u' = calls u @ [Call_malloc 516]"
proof -
  let ?s = "replicate k 32 @ t" and ?m1 = "snd (strncpy (um u) scommand command 1025)"
  have dc: "disj_range scommand (nat 1025) command (Suc (length ?s))"
    using disj_range_mono [OF dj(1), of 1025 "Suc (length ?s)"] len by simp
  note n1 = strncpy_copies [OF cmd dc] 
  have s1: "cstr ?m1 scommand ?s" using n1(2) len by simp
  have f1: "?m1 a = um u a" if "\<not> in_range scommand 1025 a" for a using n1(3) [of a] that len by simp
  have b1: "cstr ?m1 blank [32]"
    by (rule cstr_disj [OF blank _ _ disj_range_sym [THEN iffD1, OF dj(2)] f1]) simp_all
  let ?u1 = "u\<lparr>um := ?m1\<rparr>" and ?tok = "scommand + of_nat k" and ?q = "scommand + of_nat (length ?s)"
  have q: "?q = ?tok + of_nat (length t)" by simp
  have first: "strtok scommand blank ?u1 = Some (?tok, ?u1\<lparr>sp := ?q\<rparr>)"
    unfolding q by (rule strtok_first) (use b1 s1 t st sc in simp_all)
  have nz: "scommand + of_nat n \<noteq> 0" if "n \<le> 1024" for n
  proof -
    have "unat (scommand + of_nat n) = unat scommand + n"
      using sc(2) that by (simp add: unat_word_ariths unat_of_nat)
    moreover have "0 < unat scommand" using sc(1) by (simp add: unat_gt_0)
    ultimately show ?thesis by (metis add_is_0 less_numeral_extra(3) unat_0)
  qed
  let ?m2 = "\<lambda>a. if in_range p 516 a then 0 else ?m1 a"
  have s2: "cstr ?m2 scommand ?s"
    by (rule cstr_disj [OF s1 _ _ disj_range_sym [THEN iffD1, OF dj(3)]]) (use len in simp_all)
  have t2: "cstr ?m2 ?tok t" using cstr_suffix [OF s2] by simp
  have tok_in: "in_range scommand 1025 a" if "in_range ?tok (Suc (length t)) a" for a
    by (rule in_range_offset [OF _ _ that]) (use len in \<open>simp_all add: in_range_def unat_of_nat_u32\<close>)
  have dt: "disj_range p 516 ?tok (Suc (length t))" using disj_rangeD [OF dj(3)] tok_in by (blast intro: disj_rangeI)
  let ?m4 = "store32 (snd (strncpy ?m2 p ?tok 512)) (p + 512) 0"
  note arg = argument_filled [OF t2 _ dt, where v = 0]
  have f4: "?m4 a = ?m1 a" if "\<not> in_range p 516 a" for a using arg(3) [OF _ that] len that by simp
  have b4: "cstr ?m4 blank [32]" by (rule cstr_disj [OF b1 _ _ disj_range_sym [THEN iffD1, OF dj(4)] f4]) simp_all
  have s4: "cstr ?m4 scommand ?s" by (rule cstr_disj [OF s1 _ _ disj_range_sym [THEN iffD1, OF dj(3)] f4]) (use len in simp_all)
  let ?u2 = "u\<lparr>sp := ?q, answers := as, calls := calls u @ [Call_malloc 516], um := ?m4\<rparr>"
  have last: "strtok 0 blank ?u2 = Some (0, ?u2\<lparr>sp := 0\<rparr>)"
    by (rule strtok_end) (use b4 cstr_end [OF s4] nz [of "length ?s"] len in simp_all)
  have malloc: "liebeos_malloc 516 (?u1\<lparr>sp := ?q\<rparr>)
      = Some (p, u\<lparr>um := ?m2, sp := ?q, answers := as, calls := calls u @ [Call_malloc 516]\<rparr>)"
    using ans by (simp add: liebeos_malloc_def next_answer_def cong: if_cong)
  have "liebeos_parse_command scommand blank command mx u = Some (p, ?u2\<lparr>sp := 0\<rparr>)"
    using mx first malloc ans(2) nz [of k] len last
    by (simp add: liebeos_parse_command_def parse_command_loop.simps [of blank p 0] Let_def)
  then show ?thesis using arg(1,2) len by simp
qed

text \<open>The line \<^verbatim>\<open>ab c\<close> behind a blank: one argument, with the blank in it.\<close>

theorem parse_command_unquoted_witness:
  "\<exists>u'. liebeos_parse_command 0x1000 0x80 0x2000 1024 (example_user\<lparr>um := (\<lambda>_. 0)(0x80 := 32, 0x2000 := 32, 0x2001 := 97,
      0x2002 := 98, 0x2003 := 32, 0x2004 := 99), answers := [0x4000]\<rparr>) = Some (0x4000, u')
    \<and> cstr (um u') 0x4000 [97, 98, 32, 99] \<and> load32 (um u') 0x4200 = 0"
proof -
  let ?u = "example_user\<lparr>um := (\<lambda>_. 0)(0x80 := 32, 0x2000 := 32, 0x2001 := 97, 0x2002 := 98, 0x2003 := 32, 0x2004 := 99),
    answers := [0x4000]\<rparr>"
  have b: "cstr (um ?u) 0x80 [32]" and c: "cstr (um ?u) 0x2000 (replicate 1 32 @ [97, 98, 32, 99])" by simp_all
  show ?thesis
    using parse_command_unquoted [OF b c, of 1024 "0x4000" "[]" "0x1000"] by (auto simp: example_user_def disj_range_def)
qed

end
