(* ===== verification/Spec2Isabelle.thy ===== *)
theory Spec2Isabelle
  imports ProcessImage ProcessSteps ProcessArgs SyscallPrint KeyEvents VfsTable Userline
begin

text \<open>
  A verification of liebe\_os, a small i386 kernel in C (\<^verbatim>\<open>src/src/\<close>), its user library and programs
  (\<^verbatim>\<open>src/programs/\<close>).

  \<^bold>\<open>The machine.\<close> The kernel runs in one flat address space without bounds checks. Memory is a total function
  from 32-bit addresses to bytes (\<^verbatim>\<open>mem\<close>), loads and stores are little-endian and address arithmetic wraps, so an
  access out of the range of an array is a value of the model. A structure of the code is a record, and
  \<^verbatim>\<open>xxx_at m p\<close> reads it at its offsets; pointers between structures are words in memory. A C \<^verbatim>\<open>int\<close> is an \<open>int\<close> or the
  word it is stored in, unsigned types are words, \<^verbatim>\<open>char\<close> is a signed byte. Static variables are fields of a
  state record, which grows with the components: \<^verbatim>\<open>kstate\<close> (memory, heap, disk), \<^verbatim>\<open>vfs_state\<close> (file systems and
  descriptors), \<^verbatim>\<open>kernel\<close> (tasks, processes, page directories), \<^verbatim>\<open>console\<close> (terminal) and \<^verbatim>\<open>system\<close> (interrupts,
  commands, keyboards). Operations take the state and give the new one. \<open>None\<close> is a call that does not return;
  \<open>outcome\<close> tells a return from a panic and from the entry of a task.

  \<^bold>\<open>Theories, in the order they build on each other.\<close>
  \<^item> \<^verbatim>\<open>Prelude\<close>: types, address ranges, loads and stores, error codes and configuration constants, and the
    lemmas on them. \<^verbatim>\<open>Memory\<close> (\<^verbatim>\<open>memory/memory.c\<close>), \<^verbatim>\<open>CString\<close> (\<^verbatim>\<open>string/string.c\<close>).
  \<^item> \<^verbatim>\<open>Heap\<close>, \<^verbatim>\<open>Allocator\<close>, \<^verbatim>\<open>Kheap\<close> (\<^verbatim>\<open>memory/heap/heap.c\<close>, \<^verbatim>\<open>kheap.c\<close>): the block allocator. \<open>heap_rep\<close> says that the
    block table represents a map of owned runs; \<open>Allocator\<close> states the contract that every client uses as a
    locale (\<open>allocator\<close>), \<open>Kheap\<close> interprets it on \<^verbatim>\<open>kzalloc\<close> and \<^verbatim>\<open>kfree\<close> as \<open>kz\<close>.
  \<^item> \<^verbatim>\<open>Paging\<close> (\<^verbatim>\<open>memory/paging/paging.c\<close>): page directories, translation, mapping of ranges, release after any
    sequence of mapping calls. \<open>Keyed\<close> holds
    what the page tables and the allocation tables have in common.
  \<^item> \<^verbatim>\<open>PathParser\<close> and \<^verbatim>\<open>PathProps\<close> (\<^verbatim>\<open>fs/pparser.c\<close>): a path as the list of its parts in heap blocks. \<^verbatim>\<open>Disk\<close> (\<^verbatim>\<open>disk/disk.c\<close>, \<^verbatim>\<open>streamer.c\<close>: a
    stream read into a local and, sector by sector, into memory, and that both agree), \<^verbatim>\<open>Fat16\<close> with its properties in
    \<^verbatim>\<open>Fat16Props\<close> and \<^verbatim>\<open>Fat16Files\<close> (\<^verbatim>\<open>fs/fat/fat16.c\<close>: chains, names, and a seek with the read behind it), \<^verbatim>\<open>Vfs\<close> and \<^verbatim>\<open>VfsTable\<close> (\<^verbatim>\<open>fs/file.c\<close>: the calls, the type of the
    table of open files), \<^verbatim>\<open>Elf\<close> (\<^verbatim>\<open>loader/formats/\<close>).
  \<^item> \<^verbatim>\<open>Task\<close>, \<^verbatim>\<open>Scheduler\<close>, \<^verbatim>\<open>TaskHeap\<close> (\<^verbatim>\<open>task/task.c\<close>, \<^verbatim>\<open>task.asm\<close>): tasks, their list as a round robin (locale
    \<open>round_robin\<close>), saved registers; creation and release on the heap.
  \<^item> \<^verbatim>\<open>Process\<close>, \<^verbatim>\<open>ProcessMem\<close>, \<^verbatim>\<open>ProcessImage\<close> (\<^verbatim>\<open>task/process.c\<close>): processes, the memory they ask for, their image.
    \<^verbatim>\<open>ProcessSteps\<close>: allocations, releases and stores of a program in any order, as an inductive step relation with
    its invariant. \<^verbatim>\<open>ProcessArgs\<close>: the arguments of a new process, copied from the list of another one.
    \<^verbatim>\<open>TaskCopy\<close>: a string of a program copied through its page directory.
  \<^item> \<^verbatim>\<open>Gdt\<close> (\<^verbatim>\<open>gdt/gdt.c\<close>, \<^verbatim>\<open>task/tss.h\<close>), \<^verbatim>\<open>Terminal\<close> (\<^verbatim>\<open>kernel/kernel.c\<close>), \<^verbatim>\<open>Interrupts\<close> and \<^verbatim>\<open>Isr80h\<close> (\<^verbatim>\<open>idt/idt.c\<close>, \<^verbatim>\<open>isr80h/\<close>,
    \<^verbatim>\<open>kernel_main\<close>), \<^verbatim>\<open>Keyboard\<close> (\<^verbatim>\<open>keyboard/\<close>, with the locale \<open>bounded_queue\<close>).
    \<^verbatim>\<open>SyscallMem\<close> and \<^verbatim>\<open>SyscallPrint\<close>: the system calls for memory and for printing through all of these components;
    \<^verbatim>\<open>KeyEvents\<close>: interrupts of the keyboard and reads of a program in any order, from scan codes to characters.
  \<^item> \<^verbatim>\<open>Userlib\<close> (\<^verbatim>\<open>programs/stdlib/src/\<close>, \<^verbatim>\<open>shell\<close>, \<^verbatim>\<open>echo\<close>, \<^verbatim>\<open>blank\<close>): the user library and the programs on the memory of
    their process. The kernel is seen through its system calls: the answers it gives are a list in the state \<open>user\<close>, the
    calls with an effect are recorded. \<^verbatim>\<open>Userprint\<close>: \<^verbatim>\<open>itoa\<close> against decimal notation, \<^verbatim>\<open>printf\<close> against its format;
    \<^verbatim>\<open>Userline\<close>: \<^verbatim>\<open>readline\<close> against a line editor, \<^verbatim>\<open>strtok\<close> and the arguments of a command line. The other
    functions of \<^verbatim>\<open>string.c\<close> and \<^verbatim>\<open>memory.c\<close> there are copies of the kernel's.

  \<^bold>\<open>Parameters.\<close> The disk controller is a function \<open>ata_device\<close> with the hypothesis \<open>ata_drive\<close> (a drive answers a
  read with the addressed sector). The functions of a file system are reached through pointers and therefore an
  argument \<open>ops\<close>. Addresses that the linker or the stack frame decides (string literals, local arrays whose
  address is taken, static structures), what a variable without a value holds, and what ports give are
  arguments of the definitions that use them.

  \<^bold>\<open>Loops.\<close> Counted loops recurse on their counter; loops that stop at a byte or a null pointer in memory are
  \<^verbatim>\<open>partial_function\<close>s in \<open>option\<close> and their theorems say when they return. No fuel is used.

  \<^bold>\<open>Not modelled.\<close> The boot sector, the entry stubs of \<^verbatim>\<open>idt.asm\<close>, the port reads and the loads of processor
  registers are assembly without C counterpart; what C code calls of them is a definition (\<open>task_return\<close>,
  \<open>paging_load_directory\<close>, \<open>idt_load\<close>, \<open>outb\<close>). Time, caches and preemption are not modelled: interrupts are off in
  the kernel. Two accesses outside of an array have no place in the memory of the model: the read in front of the
  local buffer of \<^verbatim>\<open>diskstreamer_read\<close> for a negative position inside of a sector, and the store outside of the table of
  open files for a descriptor whose index was overwritten; the definitions say what they give there.
\<close>

end
